(* ===== verification/Atomic_Prelude.thy ===== *)
theory Atomic_Prelude
  imports Main "HOL-Library.Word" "HOL-Library.Sublist"
begin

text \<open>
  Shared vocabulary of the development: the machine types of the C++ sources, the
  packing of a lock owner into 64 bits (\<open>src/ub_lock/local_lock.h\<close>), the world of an
  operation that runs beside other threads, and the generic lemmas on lists, words and
  words used as ring indices that every component uses.

  Concurrency. An operation of the library reads and writes shared atomics while other
  threads do the same. The big-step model of an operation therefore runs in a
  \<open>world\<close>: the shared state together with a finite \<^emph>\<open>script\<close> of what the other threads do.
  Before every access to the shared state (load, store, read-modify-write,
  compare-and-swap) the operation consumes one event of the script, which may change the
  shared state arbitrarily (any number of steps of the other threads) and may make a weak
  compare-and-swap fail spuriously. An exhausted script is a quiet environment: an
  operation that spins on a condition nobody will change any more does not return, and its
  model answers \<open>None\<close>. Accesses are sequentially consistent.
\<close>

unbundle bit_operations_syntax

section \<open>Machine types\<close>

type_synonym u8 = "8 word"
type_synonym u16 = "16 word"
type_synonym u32 = "32 word"
type_synonym u64 = "64 word"

text \<open>A thread identifier is an \<open>int32_t\<close> that the code only copies, compares and casts to
  \<open>uint32_t\<close>; the model keeps its 32-bit pattern.\<close>

type_synonym tid_t = u32
type_synonym node_t = u8

named_theorems ring_simps \<open>arithmetic of ring indices and machine words\<close>
named_theorems op_defs \<open>definitions of the modelled operations\<close>

section \<open>Worlds: shared state and a script of interference\<close>

datatype 's event = Event (act: "'s \<Rightarrow> 's") (spurious: bool)

record 's world =
  st :: 's
  script :: "'s event list"

definition quiet :: "'s \<Rightarrow> 's world" where
  "quiet s = \<lparr>st = s, script = []\<rparr>"

definition tick :: "'s world \<Rightarrow> bool \<times> 's world" where
  "tick w = (case script w of
       [] \<Rightarrow> (False, w)
     | e # es \<Rightarrow> (spurious e, w\<lparr>st := act e (st w), script := es\<rparr>))"

definition modify :: "('s \<Rightarrow> 's) \<Rightarrow> 's world \<Rightarrow> 's world" where
  "modify f w = w\<lparr>st := f (st w)\<rparr>"

text \<open>A load, a store and a read-modify-write (\<open>exchange\<close>, \<open>fetch_add\<close>, \<open>fetch_or\<close>, ...).\<close>

definition load :: "('s \<Rightarrow> 'v) \<Rightarrow> 's world \<Rightarrow> 'v \<times> 's world" where
  "load get w = (let w1 = snd (tick w) in (get (st w1), w1))"

definition store :: "('s \<Rightarrow> 's) \<Rightarrow> 's world \<Rightarrow> 's world" where
  "store f w = modify f (snd (tick w))"

definition fetch :: "('s \<Rightarrow> 'v) \<Rightarrow> ('s \<Rightarrow> 's) \<Rightarrow> 's world \<Rightarrow> 'v \<times> 's world" where
  "fetch get f w = (let w1 = snd (tick w) in (get (st w1), modify f w1))"

text \<open>\<open>std::atomic::compare_exchange_strong\<close> and \<open>compare_exchange_weak\<close>: the result, the value
  left in \<open>expected\<close>, and the world after the operation.\<close>

definition cas_strong ::
  "('s \<Rightarrow> 'v) \<Rightarrow> ('v \<Rightarrow> 's \<Rightarrow> 's) \<Rightarrow> 'v \<Rightarrow> 'v \<Rightarrow> 's world \<Rightarrow> bool \<times> 'v \<times> 's world" where
  "cas_strong get put expected desired w =
     (let (sp, w1) = tick w in
      if get (st w1) = expected
      then (True, expected, modify (put desired) w1)
      else (False, get (st w1), w1))"

definition cas_weak ::
  "('s \<Rightarrow> 'v) \<Rightarrow> ('v \<Rightarrow> 's \<Rightarrow> 's) \<Rightarrow> 'v \<Rightarrow> 'v \<Rightarrow> 's world \<Rightarrow> bool \<times> 'v \<times> 's world" where
  "cas_weak get put expected desired w =
     (let (sp, w1) = tick w in
      if \<not> sp \<and> get (st w1) = expected
      then (True, expected, modify (put desired) w1)
      else (False, get (st w1), w1))"

lemma st_quiet [simp]: "st (quiet s) = s"
  and script_quiet [simp]: "script (quiet s) = []"
  by (simp_all add: quiet_def)

lemma quiet_inject [simp]: "quiet s = quiet s' \<longleftrightarrow> s = s'"
  by (simp add: quiet_def)

lemma st_modify [simp]: "st (modify f w) = f (st w)"
  and script_modify [simp]: "script (modify f w) = script w"
  by (simp_all add: modify_def)

lemma modify_quiet [simp]: "modify f (quiet s) = quiet (f s)"
  by (simp add: modify_def quiet_def)

lemma tick_quiet [simp]: "tick (quiet s) = (False, quiet s)"
  by (simp add: tick_def quiet_def)

lemma tick_Nil: "script w = [] \<Longrightarrow> tick w = (False, w)"
  by (simp add: tick_def)

lemma tick_script: "script (snd (tick w)) = tl (script w)"
  by (cases "script w") (simp_all add: tick_def)

lemma cas_strong_quiet [simp]:
  "cas_strong get put e d (quiet s) =
     (if get s = e then (True, e, quiet (put d s)) else (False, get s, quiet s))"
  by (simp add: cas_strong_def)

lemma cas_weak_quiet [simp]:
  "cas_weak get put e d (quiet s) =
     (if get s = e then (True, e, quiet (put d s)) else (False, get s, quiet s))"
  by (simp add: cas_weak_def)

lemma cas_weak_script: "cas_weak get put e d w = (ok, v, w') \<Longrightarrow> script w' = tl (script w)"
  using tick_script [of w]
  by (auto simp: cas_weak_def Let_def split: prod.splits if_splits)

lemma cas_strong_script: "cas_strong get put e d w = (ok, v, w') \<Longrightarrow> script w' = tl (script w)"
  using tick_script [of w]
  by (auto simp: cas_strong_def Let_def split: prod.splits if_splits)

lemma load_quiet [simp]: "load get (quiet s) = (get s, quiet s)"
  and store_quiet [simp]: "store f (quiet s) = quiet (f s)"
  and fetch_quiet [simp]: "fetch get f (quiet s) = (get s, quiet (f s))"
  by (simp_all add: load_def store_def fetch_def)

lemma quiet_eq: "script w = [] \<Longrightarrow> w = quiet (st w)"
  by (simp add: quiet_def)

lemma load_script: "load get w = (v, w') \<Longrightarrow> script w' = tl (script w) \<and> v = get (st w')"
  using tick_script [of w] by (auto simp: load_def Let_def)

lemma load_script_le: "load get w = (v, w') \<Longrightarrow> length (script w') \<le> length (script w)"
  by (auto dest!: load_script)

lemma store_script [simp]: "script (store f w) = tl (script w)"
  by (simp add: store_def tick_script)

lemma fetch_script: "fetch get f w = (v, w') \<Longrightarrow> script w' = tl (script w)"
  using tick_script [of w] by (auto simp: fetch_def Let_def)

text \<open>A compare-and-swap that fails either consumed an event or was made with a stale
  expectation; this is what makes retry loops over a finite script terminate.\<close>

lemma cas_weak_fail_script:
  "cas_weak get put e d w = (False, v, w') \<Longrightarrow> get (st w) = e \<Longrightarrow> length (script w') < length (script w)"
  using cas_weak_script [of get put e d w False v w']
  by (cases "script w") (auto simp: cas_weak_def tick_Nil)

lemma cas_strong_fail_script:
  "cas_strong get put e d w = (False, v, w') \<Longrightarrow> get (st w) = e \<Longrightarrow> length (script w') < length (script w)"
  using cas_strong_script [of get put e d w False v w']
  by (cases "script w") (auto simp: cas_strong_def tick_Nil)

text \<open>One round of a retry loop that carries its expectation from one attempt to the next.\<close>

lemma cas_weak_retry:
  assumes "cas_weak get put e d w = (False, v, w')"
  shows "get (st w') = v"
    and "length (script w') < length (script w) \<or> script w' = script w \<and> get (st w) \<noteq> e"
proof -
  show "get (st w') = v"
    using assms by (auto simp: cas_weak_def Let_def split: prod.splits if_splits)
  have "script w' = tl (script w)" using assms by (rule cas_weak_script)
  moreover have "get (st w) \<noteq> e" if "script w = []"
    using assms that by (auto simp: cas_weak_def tick_Nil split: if_splits)
  ultimately show "length (script w') < length (script w) \<or> script w' = script w \<and> get (st w) \<noteq> e"
    by (cases "script w") auto
qed

text \<open>\<open>env_only w w'\<close>: from \<open>w\<close> to \<open>w'\<close> only the environment changed the shared state.\<close>

definition env_only :: "'s world \<Rightarrow> 's world \<Rightarrow> bool" where
  "env_only w w' \<longleftrightarrow> (\<exists>es. script w = es @ script w' \<and> st w' = fold act es (st w))"

lemma env_only_refl [simp]: "env_only w w"
  unfolding env_only_def by (rule exI [of _ "[]"]) simp

lemma env_only_trans [trans]: "env_only w w' \<Longrightarrow> env_only w' w'' \<Longrightarrow> env_only w w''"
  by (force simp: env_only_def)

lemma env_only_tick: "env_only w (snd (tick w))"
proof (cases "script w")
  case (Cons e es)
  then show ?thesis unfolding env_only_def by (intro exI [of _ "[e]"]) (simp add: tick_def)
qed (simp add: tick_def)

lemma env_only_load: "load get w = (v, w') \<Longrightarrow> env_only w w'"
  using env_only_tick [of w] by (auto simp: load_def Let_def)

lemma env_only_cas_weak: "cas_weak get put e d w = (False, v, w') \<Longrightarrow> env_only w w'"
  using env_only_tick [of w] by (auto simp: cas_weak_def Let_def split: prod.splits if_splits)

lemma env_only_cas_strong: "cas_strong get put e d w = (False, v, w') \<Longrightarrow> env_only w w'"
  using env_only_tick [of w] by (auto simp: cas_strong_def Let_def split: prod.splits if_splits)

lemma cas_weak_ok: "cas_weak get put e d w = (True, v, w') \<Longrightarrow>
   \<exists>w1. env_only w w1 \<and> get (st w1) = e \<and> w' = modify (put d) w1"
  using env_only_tick [of w] by (auto simp: cas_weak_def Let_def split: prod.splits if_splits)

lemma cas_strong_ok: "cas_strong get put e d w = (True, v, w') \<Longrightarrow>
   \<exists>w1. env_only w w1 \<and> get (st w1) = e \<and> w' = modify (put d) w1"
  using env_only_tick [of w] by (auto simp: cas_strong_def Let_def split: prod.splits if_splits)

section \<open>Lock vocabulary\<close>

text \<open>The enumerations of \<open>include/ub_dist_lock.h\<close>. A mode handed in through the C interface
  can be any integer; \<open>UB_LOCK_OTHER\<close> stands for a value outside the enumeration.\<close>

datatype ub_lock_mode_t = UB_LOCK_S | UB_LOCK_SX | UB_LOCK_X | UB_LOCK_I | UB_LOCK_OTHER nat

datatype ub_lock_result_t = UB_LOCK_SUCCESS | UB_LOCK_TIMEOUT | UB_LOCK_CONFLICT | UB_LOCK_ERROR

record ub_location_t =
  tid :: tid_t
  node_id :: node_t

definition UB_MAX_NODES :: nat where
  "UB_MAX_NODES = 16"

definition LOCK_INVALID_OWNER :: u64 where
  "LOCK_INVALID_OWNER = push_bit 32 255"

definition make_global_owner :: "node_t \<Rightarrow> tid_t \<Rightarrow> u64" where
  "make_global_owner n t = push_bit 32 (ucast n) OR ucast t"

lemma unat_less_exp: "unat (x :: 'a::len word) < 2 ^ LENGTH('a)"
  by (rule unsigned_less)

lemma unat_ucast_up:
  assumes "LENGTH('a::len) \<le> LENGTH('b::len)"
  shows "unat (ucast (x :: 'a word) :: 'b word) = unat x"
proof -
  have "unat x < 2 ^ LENGTH('b)"
    using unat_less_exp [of x] power_increasing [OF assms, of "2 :: nat"] by linarith
  then show ?thesis
    by (simp add: unsigned_ucast_eq take_bit_nat_eq_self)
qed

lemma unat_make_global_owner: "unat (make_global_owner n t) = unat n * 2 ^ 32 + unat t"
proof -
  have disj: "(push_bit 32 (ucast n) :: u64) AND ucast t = 0"
    by (rule bit_word_eqI) (auto simp: bit_simps dest: bit_imp_le_length)
  have up: "unat (ucast n :: u64) = unat n" "unat (ucast t :: u64) = unat t"
    by (simp_all add: unat_ucast_up)
  have bounds: "unat n < 2 ^ 8" "unat t < 2 ^ 32"
    using unat_less_exp [of n] unat_less_exp [of t] by simp_all
  have push: "unat (push_bit 32 (ucast n :: u64)) = unat n * 2 ^ 32"
    using bounds(1) by (simp add: push_bit_eq_mult unat_word_ariths up)
  have "make_global_owner n t = push_bit 32 (ucast n) + ucast t"
    unfolding make_global_owner_def by (rule disjunctive_add_eq_or [symmetric]) (rule disj)
  then show ?thesis
    using bounds by (simp add: unat_word_ariths push up)
qed

lemma make_global_owner_inject [simp]:
  "make_global_owner n t = make_global_owner n' t' \<longleftrightarrow> n = n' \<and> t = t'"
proof
  assume eq: "make_global_owner n t = make_global_owner n' t'"
  have b: "unat t < 2 ^ 32" "unat t' < 2 ^ 32"
    using unat_less_exp [of t] unat_less_exp [of t'] by simp_all
  from eq have *: "unat n * 2 ^ 32 + unat t = unat n' * 2 ^ 32 + unat t'"
    by (metis unat_make_global_owner)
  have "(unat n * 2 ^ 32 + unat t) div 2 ^ 32 = unat n" "(unat n' * 2 ^ 32 + unat t') div 2 ^ 32 = unat n'"
    using b by simp_all
  with * have "unat n = unat n'" by metis
  moreover with * have "unat t = unat t'" by simp
  ultimately show "n = n' \<and> t = t'" by (simp add: word_unat_eq_iff)
qed simp

lemma make_global_owner_valid:
  "n \<noteq> 255 \<Longrightarrow> make_global_owner n t \<noteq> LOCK_INVALID_OWNER"
proof -
  assume n: "n \<noteq> 255"
  have "LOCK_INVALID_OWNER = make_global_owner 255 0"
    by (simp add: LOCK_INVALID_OWNER_def make_global_owner_def)
  then show ?thesis using n by (metis make_global_owner_inject)
qed

lemma node_lt_16_valid: "unat (n :: node_t) < UB_MAX_NODES \<Longrightarrow> n \<noteq> 255"
  by (auto simp: UB_MAX_NODES_def)

section \<open>Ring indices\<close>

text \<open>A ring of \<open>2 ^ k\<close> slots is indexed by the low \<open>k\<close> bits of a ticket.\<close>

lemma unat_and_mask [ring_simps]: "unat ((x :: 'a::len word) AND mask k) = unat x mod 2 ^ k"
  by (simp only: take_bit_eq_mask [symmetric] unsigned_take_bit_eq) (simp only: take_bit_eq_mod)

lemma unat_diff_le [ring_simps]: "(a :: 'a::len word) \<le> b \<Longrightarrow> unat (b - a) = unat b - unat a"
  by (simp add: unat_sub)

lemma mod_window_inj:
  assumes "(i :: nat) mod n = j mod n" "a \<le> i" "i < a + n" "a \<le> j" "j < a + n"
  shows "i = j"
proof (rule ccontr)
  assume "i \<noteq> j"
  then consider "i < j" | "j < i" by linarith
  then show False
  proof cases
    case 1
    with assms have "n dvd (j - i)" by (metis mod_eq_dvd_iff_nat less_imp_le)
    moreover have "j - i < n" "0 < j - i" using 1 assms by linarith+
    ultimately show False by (meson dvd_imp_le not_less)
  next
    case 2
    with assms have "n dvd (i - j)" by (metis mod_eq_dvd_iff_nat less_imp_le)
    moreover have "i - j < n" "0 < i - j" using 2 assms by linarith+
    ultimately show False by (meson dvd_imp_le not_less)
  qed
qed

lemma sum_list_ones: "\<forall>x \<in> set xs. f x = 1 \<Longrightarrow> sum_list (map f xs) = of_nat (length xs)"
  by (induction xs) simp_all

lemma word_of_nat_inj:
  "m < 2 ^ LENGTH('a::len) \<Longrightarrow> n < 2 ^ LENGTH('a) \<Longrightarrow> (of_nat m :: 'a word) = of_nat n \<longleftrightarrow> m = n"
  by (simp add: word_of_nat_eq_iff take_bit_nat_eq_self)

end
