(* ===== verification/Tx_Resource.thy ===== *)
theory Tx_Resource
  imports Atomic_Prelude
begin

text \<open>
  The distributed transaction resource, \<open>src/ub_dist_tx_res/ub_dist_tx_res.cpp\<close>: the C
  interface that turns an 8-byte aligned shared-memory address into an atomic
  \<open>uint64_t\<close>. The store holds the 64-bit cells (the resources and the callers'
  \<open>uint64_t\<close> out-parameters, so that aliasing is visible) and the \<open>int\<close> out-parameters.
  Each call performs one atomic access; an interleaving of calls from any number of nodes
  is a sequence of calls. The locale \<open>ticket_counter\<close> is the contract that clients use to
  allocate sequence numbers, and is interpreted on \<open>ub_dist_tx_res_fetch_add\<close>.
\<close>

section \<open>State and atomic accesses\<close>

type_synonym addr = u64

record store =
  cells :: "addr \<Rightarrow> u64"
  ints :: "addr \<Rightarrow> int"

definition put_cell :: "addr \<Rightarrow> u64 \<Rightarrow> store \<Rightarrow> store" where
  "put_cell p v s = s\<lparr>cells := (cells s)(p := v)\<rparr>"

definition put_int :: "addr \<Rightarrow> int \<Rightarrow> store \<Rightarrow> store" where
  "put_int p v s = s\<lparr>ints := (ints s)(p := v)\<rparr>"

lemma cells_put_cell [simp]: "cells (put_cell p v s) = (cells s)(p := v)"
  and ints_put_cell [simp]: "ints (put_cell p v s) = ints s"
  and cells_put_int [simp]: "cells (put_int p i s) = cells s"
  and ints_put_int [simp]: "ints (put_int p i s) = (ints s)(p := i)"
  by (simp_all add: put_cell_def put_int_def)

text \<open>The member functions of \<open>DistributeTxResource\<close>; \<open>ptr\<close> is the wrapped address.\<close>

definition res_init :: "addr \<Rightarrow> store \<Rightarrow> store" where
  "res_init ptr s = put_cell ptr 0 s"

definition res_set :: "addr \<Rightarrow> u64 \<Rightarrow> store \<Rightarrow> store" where
  "res_set ptr value s = put_cell ptr value s"

definition res_get :: "addr \<Rightarrow> store \<Rightarrow> u64" where
  "res_get ptr s = cells s ptr"

definition res_fetch_add :: "addr \<Rightarrow> u64 \<Rightarrow> store \<Rightarrow> u64 \<times> store" where
  "res_fetch_add ptr value s = (cells s ptr, put_cell ptr (cells s ptr + value) s)"

definition res_add :: "addr \<Rightarrow> u64 \<Rightarrow> store \<Rightarrow> store" where
  "res_add ptr value s = put_cell ptr (cells s ptr + value) s"

definition res_fetch_xor :: "addr \<Rightarrow> u64 \<Rightarrow> store \<Rightarrow> u64 \<times> store" where
  "res_fetch_xor ptr value s = (cells s ptr, put_cell ptr (cells s ptr XOR value) s)"

text \<open>\<open>compare_exchange_strong(*expected, desired)\<close>: on a mismatch the current value is
  written through \<open>expected\<close>.\<close>

definition res_compare_exchange :: "addr \<Rightarrow> addr \<Rightarrow> u64 \<Rightarrow> store \<Rightarrow> bool \<times> store" where
  "res_compare_exchange ptr expected desired s =
     (if cells s ptr = cells s expected
      then (True, put_cell ptr desired s)
      else (False, put_cell expected (cells s ptr) s))"

lemmas res_defs [op_defs] =
  res_init_def res_set_def res_get_def res_fetch_add_def res_add_def res_fetch_xor_def
  res_compare_exchange_def

section \<open>The C interface\<close>

definition UB_RES_OK :: int where "UB_RES_OK = 0"
definition UB_RES_ERROR :: int where "UB_RES_ERROR = -1"
definition UINT64_ALIGN :: u64 where "UINT64_ALIGN = 8"

definition misaligned :: "addr \<Rightarrow> bool" where
  "misaligned handle \<longleftrightarrow> handle mod UINT64_ALIGN \<noteq> 0"

definition ub_dist_tx_res_init :: "addr \<Rightarrow> store \<Rightarrow> int \<times> store" where
  "ub_dist_tx_res_init handle s =
     (if handle = 0 then (UB_RES_ERROR, s)
      else if misaligned handle then (UB_RES_ERROR, s)
      else (UB_RES_OK, res_init handle s))"

definition ub_dist_tx_res_set :: "addr \<Rightarrow> u64 \<Rightarrow> store \<Rightarrow> int \<times> store" where
  "ub_dist_tx_res_set handle value s =
     (if handle = 0 then (UB_RES_ERROR, s)
      else if misaligned handle then (UB_RES_ERROR, s)
      else (UB_RES_OK, res_set handle value s))"

definition ub_dist_tx_res_get :: "addr \<Rightarrow> addr \<Rightarrow> store \<Rightarrow> int \<times> store" where
  "ub_dist_tx_res_get handle out_val s =
     (if handle = 0 \<or> out_val = 0 then (UB_RES_ERROR, s)
      else if misaligned handle then (UB_RES_ERROR, s)
      else (UB_RES_OK, put_cell out_val (res_get handle s) s))"

definition ub_dist_tx_res_fetch_add :: "addr \<Rightarrow> u64 \<Rightarrow> addr \<Rightarrow> store \<Rightarrow> int \<times> store" where
  "ub_dist_tx_res_fetch_add handle value out_val s =
     (if handle = 0 \<or> out_val = 0 then (UB_RES_ERROR, s)
      else if misaligned handle then (UB_RES_ERROR, s)
      else let (old, s') = res_fetch_add handle value s
           in (UB_RES_OK, put_cell out_val old s'))"

definition ub_dist_tx_res_add :: "addr \<Rightarrow> u64 \<Rightarrow> store \<Rightarrow> int \<times> store" where
  "ub_dist_tx_res_add handle value s =
     (if handle = 0 then (UB_RES_ERROR, s)
      else if misaligned handle then (UB_RES_ERROR, s)
      else (UB_RES_OK, res_add handle value s))"

definition ub_dist_tx_res_fetch_xor :: "addr \<Rightarrow> u64 \<Rightarrow> addr \<Rightarrow> store \<Rightarrow> int \<times> store" where
  "ub_dist_tx_res_fetch_xor handle value out_val s =
     (if handle = 0 \<or> out_val = 0 then (UB_RES_ERROR, s)
      else if misaligned handle then (UB_RES_ERROR, s)
      else let (old, s') = res_fetch_xor handle value s
           in (UB_RES_OK, put_cell out_val old s'))"

definition ub_dist_tx_res_compare_exchange ::
  "addr \<Rightarrow> addr \<Rightarrow> u64 \<Rightarrow> addr \<Rightarrow> store \<Rightarrow> int \<times> store" where
  "ub_dist_tx_res_compare_exchange handle expected desired success s =
     (if handle = 0 \<or> expected = 0 \<or> success = 0 then (UB_RES_ERROR, s)
      else if misaligned handle then (UB_RES_ERROR, s)
      else let (ok, s') = res_compare_exchange handle expected desired s
           in (UB_RES_OK, put_int success (if ok then 1 else 0) s'))"

text \<open>The fence: the result and the barrier instruction of the AArch64 build. The order is
  the integer behind \<open>ub_fence_order_t\<close>, which a C caller can set to anything.\<close>

datatype barrier = Compiler_barrier | Dmb_ishld | Dmb_ishst | Dmb_ish | Dsb_ish

definition ub_dist_tx_res_fence :: "int \<Rightarrow> int \<times> barrier option" where
  "ub_dist_tx_res_fence order =
     (if order = 0 then (UB_RES_OK, Some Compiler_barrier)
      else if order = 1 then (UB_RES_OK, Some Dmb_ishld)
      else if order = 2 then (UB_RES_OK, Some Dmb_ishst)
      else if order = 3 then (UB_RES_OK, Some Dmb_ish)
      else if order = 4 then (UB_RES_OK, Some Dsb_ish)
      else (UB_RES_ERROR, None))"

lemmas tx_api_defs [op_defs] =
  ub_dist_tx_res_init_def ub_dist_tx_res_set_def ub_dist_tx_res_get_def
  ub_dist_tx_res_fetch_add_def ub_dist_tx_res_add_def ub_dist_tx_res_fetch_xor_def
  ub_dist_tx_res_compare_exchange_def

section \<open>The sequence-number contract\<close>

text \<open>A history of ticket requests: each request names a counter \<open>h\<close> and carries the
  call's arguments \<open>c\<close>; the answers are collected in order.\<close>

fun serve :: "('h \<Rightarrow> 'c \<Rightarrow> 's \<Rightarrow> u64 \<times> 's) \<Rightarrow> ('h \<times> 'c) list \<Rightarrow> 's \<Rightarrow> ('h \<times> u64) list \<times> 's" where
  "serve tk [] s = ([], s)"
| "serve tk ((h, c) # cs) s =
     (let (v, s1) = tk h c s; (vs, s2) = serve tk cs s1 in ((h, v) # vs, s2))"

definition requests :: "'h \<Rightarrow> ('h \<times> 'c) list \<Rightarrow> 'c list" where
  "requests h cs = map snd (filter (\<lambda>r. fst r = h) cs)"

lemma requests_simps [simp]:
  "requests h [] = []"
  "requests h (r # cs) = (if fst r = h then snd r # requests h cs else requests h cs)"
  by (simp_all add: requests_def)

lemma requests_append: "requests h (xs @ ys) = requests h xs @ requests h ys"
  by (simp add: requests_def)

lemma length_requests_le: "length (requests h cs) \<le> length cs"
  by (simp add: requests_def)

lemma serve_length [simp]: "length (fst (serve tk cs s)) = length cs"
  by (induction tk cs s rule: serve.induct) (auto split: prod.splits)

text \<open>A counter hands out its old value and grows by the requested amount, and calls on one
  counter do not disturb another. \<open>ok h c\<close> says that call \<open>c\<close> on counter \<open>h\<close> is accepted
  and writes nothing else into the family of counters.\<close>

locale ticket_counter =
  fixes ok :: "'h \<Rightarrow> 'c \<Rightarrow> bool"
    and take_ticket :: "'h \<Rightarrow> 'c \<Rightarrow> 's \<Rightarrow> u64 \<times> 's"
    and value_of :: "'h \<Rightarrow> 's \<Rightarrow> u64"
    and amount :: "'c \<Rightarrow> u64"
  assumes take_old: "ok h c \<Longrightarrow> fst (take_ticket h c s) = value_of h s"
    and take_new: "ok h c \<Longrightarrow> ok g d
      \<Longrightarrow> value_of g (snd (take_ticket h c s)) = value_of g s + (if g = h then amount c else 0)"
begin

lemma serve_value:
  "\<forall>r \<in> set cs. ok (fst r) (snd r) \<Longrightarrow> ok g d
   \<Longrightarrow> value_of g (snd (serve take_ticket cs s)) = value_of g s + sum_list (map amount (requests g cs))"
proof (induction cs arbitrary: s)
  case (Cons r cs)
  obtain h c where r: "r = (h, c)" by force
  have "snd (serve take_ticket (r # cs) s) = snd (serve take_ticket cs (snd (take_ticket h c s)))"
    by (simp add: r split: prod.split)
  then show ?case using Cons take_new [of h c g d s] by (simp add: r)
qed simp

lemma serve_split:
  "fst (serve take_ticket (xs @ (h, c) # ys) s) ! length xs =
   (h, fst (take_ticket h c (snd (serve take_ticket xs s))))"
proof (induction xs arbitrary: s)
  case (Cons r xs)
  then show ?case by (cases r) (simp add: split_beta Let_def)
qed (simp add: split_beta Let_def)

text \<open>The answer to a request: the initial value of its counter plus everything that was
  requested from that counter before.\<close>

lemma serve_nth:
  assumes ok: "\<forall>r \<in> set cs. ok (fst r) (snd r)" and i: "i < length cs" "cs ! i = (h, c)"
  shows "fst (serve take_ticket cs s) ! i =
         (h, value_of h s + sum_list (map amount (requests h (take i cs))))"
proof -
  have cs: "cs = take i cs @ (h, c) # drop (Suc i) cs"
    using i by (metis id_take_nth_drop)
  have okc: "ok h c" using ok i by (metis fst_conv nth_mem snd_conv)
  have okt: "\<forall>r \<in> set (take i cs). ok (fst r) (snd r)" using ok by (auto dest: in_set_takeD)
  show ?thesis
    using serve_split [of "take i cs" h c "drop (Suc i) cs" s] cs i
      take_old [OF okc, of "snd (serve take_ticket (take i cs) s)"] serve_value [OF okt okc, of s]
    by simp
qed

text \<open>Requests for one number each receive different numbers, as long as fewer than
  \<open>2 ^ 64\<close> numbers are drawn.\<close>

lemma serve_unique:
  assumes ok: "\<forall>r \<in> set cs. ok (fst r) (snd r)" and one: "\<forall>r \<in> set cs. amount (snd r) = 1"
    and few: "length cs < 2 ^ 64" and ij: "i < j" "j < length cs"
  shows "fst (serve take_ticket cs s) ! i \<noteq> fst (serve take_ticket cs s) ! j"
proof -
  obtain h c where hi: "cs ! i = (h, c)" by force
  obtain g d where gj: "cs ! j = (g, d)" by force
  have total: "sum_list (map amount (requests x (take k cs))) = of_nat (length (requests x (take k cs)))" for x k
  proof (rule sum_list_ones)
    show "\<forall>a \<in> set (requests x (take k cs)). amount a = 1"
      using one by (auto simp: requests_def dest!: in_set_takeD)
  qed
  have "take j cs = take i cs @ (h, c) # drop (Suc i) (take j cs)"
    using id_take_nth_drop [of i "take j cs"] ij hi by (simp add: min_def)
  then have "requests h (take j cs) = requests h (take i cs) @ c # requests h (drop (Suc i) (take j cs))"
    using requests_append [of h "take i cs" "(h, c) # drop (Suc i) (take j cs)"] by simp
  then have grow: "length (requests h (take i cs)) < length (requests h (take j cs))" by simp
  have "length (requests h (take j cs)) < 2 ^ 64"
    using few length_requests_le [of h "take j cs"] by simp
  with grow have diff:
    "(of_nat (length (requests h (take i cs))) :: u64) \<noteq> of_nat (length (requests h (take j cs)))"
    by (simp add: word_of_nat_inj)
  have "fst (serve take_ticket cs s) ! i = (h, value_of h s + of_nat (length (requests h (take i cs))))"
    using serve_nth [OF ok _ hi, of s] ij by (simp add: total)
  moreover have "fst (serve take_ticket cs s) ! j = (g, value_of g s + of_nat (length (requests g (take j cs))))"
    using serve_nth [OF ok _ gj, of s] ij by (simp add: total)
  ultimately show ?thesis using diff by auto
qed

end

text \<open>The provider: \<open>ub_dist_tx_res_fetch_add\<close> on the valid handles of a region \<open>R\<close>, with
  out-parameters outside it. The value a caller receives is what it finds behind its
  out-parameter after the call.\<close>

definition fetch_add_call :: "addr \<Rightarrow> u64 \<times> addr \<Rightarrow> store \<Rightarrow> u64 \<times> store" where
  "fetch_add_call h c s =
     (let s' = snd (ub_dist_tx_res_fetch_add h (fst c) (snd c) s) in (cells s' (snd c), s'))"

definition valid_call :: "addr set \<Rightarrow> addr \<Rightarrow> u64 \<times> addr \<Rightarrow> bool" where
  "valid_call R h c \<longleftrightarrow> h \<in> R \<and> h \<noteq> 0 \<and> \<not> misaligned h \<and> snd c \<notin> R \<and> snd c \<noteq> 0"

interpretation tx: ticket_counter "valid_call R" fetch_add_call "\<lambda>h s. cells s h" fst
  for R :: "addr set"
  by unfold_locales
    (auto simp: valid_call_def fetch_add_call_def op_defs Let_def)

section \<open>Calls and their interleavings\<close>

text \<open>A call of the interface with its arguments, and its execution.\<close>

datatype tx_call =
    Init addr
  | Set_val addr u64
  | Get_val addr addr
  | Fetch_add addr u64 addr
  | Add addr u64
  | Fetch_xor addr u64 addr
  | Compare_exchange addr addr u64 addr

fun tx_exec :: "tx_call \<Rightarrow> store \<Rightarrow> int \<times> store" where
  "tx_exec (Init h) = ub_dist_tx_res_init h"
| "tx_exec (Set_val h v) = ub_dist_tx_res_set h v"
| "tx_exec (Get_val h out) = ub_dist_tx_res_get h out"
| "tx_exec (Fetch_add h v out) = ub_dist_tx_res_fetch_add h v out"
| "tx_exec (Add h v) = ub_dist_tx_res_add h v"
| "tx_exec (Fetch_xor h v out) = ub_dist_tx_res_fetch_xor h v out"
| "tx_exec (Compare_exchange h e d ok) = ub_dist_tx_res_compare_exchange h e d ok"

fun tx_handle :: "tx_call \<Rightarrow> addr" where
  "tx_handle (Init h) = h"
| "tx_handle (Set_val h v) = h"
| "tx_handle (Get_val h out) = h"
| "tx_handle (Fetch_add h v out) = h"
| "tx_handle (Add h v) = h"
| "tx_handle (Fetch_xor h v out) = h"
| "tx_handle (Compare_exchange h e d ok) = h"

text \<open>The pointers through which a call hands 64-bit values back, and all its pointers.\<close>

fun tx_outs :: "tx_call \<Rightarrow> addr list" where
  "tx_outs (Get_val h out) = [out]"
| "tx_outs (Fetch_add h v out) = [out]"
| "tx_outs (Fetch_xor h v out) = [out]"
| "tx_outs (Compare_exchange h e d ok) = [e]"
| "tx_outs _ = []"

fun tx_pointers :: "tx_call \<Rightarrow> addr list" where
  "tx_pointers (Compare_exchange h e d ok) = [h, e, ok]"
| "tx_pointers c = tx_handle c # tx_outs c"

definition tx_rejected :: "tx_call \<Rightarrow> bool" where
  "tx_rejected c \<longleftrightarrow> 0 \<in> set (tx_pointers c) \<or> misaligned (tx_handle c)"



lemmas tx_status_defs = UB_RES_OK_def UB_RES_ERROR_def

section \<open>Elections\<close>









section \<open>Properties\<close>

text \<open>C7. Whatever the interleaving of \<open>ub_dist_tx_res_fetch_add\<close> calls on any set of
  valid resources of a region, with out-parameters outside the region, the value the
  \<open>i\<close>-th call hands out is the resource's initial value plus the sum, modulo \<open>2 ^ 64\<close>, of
  all amounts added to that same resource by earlier calls.\<close>

theorem fetch_add_linear:
  assumes "\<forall>r \<in> set cs. valid_call R (fst r) (snd r)" and "i < length cs" and "cs ! i = (h, c)"
  shows "fst (serve fetch_add_call cs s) ! i =
         (h, cells s h + sum_list (map fst (requests h (take i cs))))"
  using assms by (rule tx.serve_nth)

theorem fetch_add_linear_witness:
  "fst (serve fetch_add_call [(8, 5, 80), (16, 1, 80), (8, 7, 88)] \<lparr>cells = \<lambda>_. 3, ints = \<lambda>_. 0\<rparr>) ! 2
   = (8, 8)"
  using fetch_add_linear [of "[(8, 5, 80), (16, 1, 80), (8, 7, 88)]" "{8, 16}" 2 8 "(7, 88)"
      "\<lparr>cells = \<lambda>_. 3, ints = \<lambda>_. 0\<rparr>"]
  by (simp add: valid_call_def misaligned_def UINT64_ALIGN_def)

text \<open>C21. Sequence numbers are unique: in any interleaving of fewer than \<open>2 ^ 64\<close>
  \<open>ub_dist_tx_res_fetch_add\<close> calls of amount 1 on valid resources, two calls on the same
  resource never receive the same number.\<close>

theorem fetch_add_unique:
  assumes "\<forall>r \<in> set cs. valid_call R (fst r) (snd r)" and "\<forall>r \<in> set cs. fst (snd r) = 1"
    and "length cs < 2 ^ 64" and "i < j" and "j < length cs"
  shows "fst (serve fetch_add_call cs s) ! i \<noteq> fst (serve fetch_add_call cs s) ! j"
  using assms by (rule tx.serve_unique)

theorem fetch_add_unique_witness:
  "fst (serve fetch_add_call [(8, 1, 80), (16, 1, 80), (8, 1, 88)] \<lparr>cells = \<lambda>_. -1, ints = \<lambda>_. 0\<rparr>) ! 0 \<noteq>
   fst (serve fetch_add_call [(8, 1, 80), (16, 1, 80), (8, 1, 88)] \<lparr>cells = \<lambda>_. -1, ints = \<lambda>_. 0\<rparr>) ! 2"
  by (rule fetch_add_unique [of _ "{8, 16}"])
    (simp_all add: valid_call_def misaligned_def UINT64_ALIGN_def)



text \<open>C22. A call fails exactly when one of its pointers is null or its handle is not
  8-byte aligned; it then answers \<open>UB_RES_ERROR\<close> and writes nothing, and otherwise it
  answers \<open>UB_RES_OK\<close>.\<close>

theorem tx_exec_errors:
  "(if tx_rejected c then tx_exec c s = (UB_RES_ERROR, s)
    else fst (tx_exec c s) = UB_RES_OK) \<and> UB_RES_ERROR \<noteq> UB_RES_OK"
  by (cases c) (auto simp: op_defs tx_rejected_def tx_status_defs Let_def)

end
