(* ===== verification/Ring_Queue.thy ===== *)
theory Ring_Queue
  imports Atomic_Prelude "HOL-Library.Multiset"
begin

text \<open>
  The bounded FIFO of waiters, \<open>src/ub_lock/ring_queue.h\<close>, that the distributed lock
  (\<open>src/ub_lock/wait_queue.cpp\<close>), the local lock lanes and the mutex share. A ring of
  \<open>cap\<close> slots (a power of two) is addressed by free-running 32-bit tickets; each slot has
  a small state machine \<open>EMPTY \<rightarrow> WRITING \<rightarrow> WAITING \<rightarrow> NOTIFIED\<close>, with \<open>TIMEOUT\<close> for a
  waiter that gave up. The templates' payload is a mode and an identity of any type.

  The operations run in a world of interference. The properties: in a quiet environment
  they implement an abstract queue of waiters, with head and tail wrapping at \<open>2 ^ 32\<close>;
  every loop ends for every finite script; waiters are notified in the order in which they
  queued up; and a race in which a waiter is overtaken.
\<close>

section \<open>State\<close>

datatype wait_state =
  UB_WAIT_EMPTY | UB_WAIT_WRITING | UB_WAIT_WAITING | UB_WAIT_NOTIFIED | UB_WAIT_TIMEOUT

record 'w waiter =
  seq :: wait_state
  mode :: ub_lock_mode_t
  who :: 'w

text \<open>The queue's part of \<open>ub_rw_lock\<close>; larger states extend this record.\<close>

record 'w ring =
  waiting_count :: u32
  queue_head :: u32
  queue_tail :: u32
  wait_queue :: "'w waiter list"

definition slot_idx :: "nat \<Rightarrow> u32 \<Rightarrow> nat" where
  "slot_idx cap ticket = unat (ticket AND (of_nat cap - 1))"

definition slot_at :: "nat \<Rightarrow> u32 \<Rightarrow> ('w, 'z) ring_scheme \<Rightarrow> 'w waiter" where
  "slot_at cap ticket s = wait_queue s ! slot_idx cap ticket"

definition upd_slot ::
  "nat \<Rightarrow> u32 \<Rightarrow> ('w waiter \<Rightarrow> 'w waiter) \<Rightarrow> ('w, 'z) ring_scheme \<Rightarrow> ('w, 'z) ring_scheme" where
  "upd_slot cap ticket f s =
     s\<lparr>wait_queue := (wait_queue s)[slot_idx cap ticket := f (slot_at cap ticket s)]\<rparr>"

definition slot_seq :: "nat \<Rightarrow> u32 \<Rightarrow> ('w, 'z) ring_scheme \<Rightarrow> wait_state" where
  "slot_seq cap ticket s = seq (slot_at cap ticket s)"

definition set_seq ::
  "nat \<Rightarrow> u32 \<Rightarrow> wait_state \<Rightarrow> ('w, 'z) ring_scheme \<Rightarrow> ('w, 'z) ring_scheme" where
  "set_seq cap ticket v = upd_slot cap ticket (\<lambda>sl. sl\<lparr>seq := v\<rparr>)"

section \<open>Operations\<close>

text \<open>The callback that fills a slot, field by field: the mode, then the identity. A reset writes
  the identity \<open>r0\<close> of nobody.\<close>

definition write_payload ::
  "nat \<Rightarrow> ub_lock_mode_t \<Rightarrow> 'w \<Rightarrow> u32 \<Rightarrow> ('w, 'z) ring_scheme world \<Rightarrow> ('w, 'z) ring_scheme world" where
  "write_payload cap m x ticket w =
     store (upd_slot cap ticket (\<lambda>sl. sl\<lparr>who := x\<rparr>)) (store (upd_slot cap ticket (\<lambda>sl. sl\<lparr>mode := m\<rparr>)) w)"

definition ring_queue_reset_payload ::
  "nat \<Rightarrow> 'w \<Rightarrow> u32 \<Rightarrow> ('w, 'z) ring_scheme world \<Rightarrow> ('w, 'z) ring_scheme world" where
  "ring_queue_reset_payload cap r0 ticket w = write_payload cap UB_LOCK_I r0 ticket w"

function dec_count_loop :: "u32 \<Rightarrow> ('w, 'z) ring_scheme world \<Rightarrow> ('w, 'z) ring_scheme world" where
  "dec_count_loop cur w =
     (if cur > 0
      then let (ok, cur', w') = cas_weak waiting_count (\<lambda>v s. s\<lparr>waiting_count := v\<rparr>) cur (cur - 1) w
           in if ok then w' else dec_count_loop cur' w'
      else w)"
  by auto
termination
  by (relation "measures [\<lambda>(cur, w). length (script w), \<lambda>(cur, w). if waiting_count (st w) = cur then 0 else 1]")
    (auto dest!: sym [of "(_, _, _)"] dest: cas_weak_retry)

definition ring_queue_try_dec_count :: "('w, 'z) ring_scheme world \<Rightarrow> ('w, 'z) ring_scheme world" where
  "ring_queue_try_dec_count w = (let (cur, w1) = load waiting_count w in dec_count_loop cur w1)"

definition timeoutable :: "wait_state \<Rightarrow> bool" where
  "timeoutable q \<longleftrightarrow> q = UB_WAIT_WRITING \<or> q = UB_WAIT_WAITING \<or> q = UB_WAIT_NOTIFIED"

function mark_timeout_loop ::
  "nat \<Rightarrow> 'w \<Rightarrow> u32 \<Rightarrow> wait_state \<Rightarrow> ('w, 'z) ring_scheme world \<Rightarrow> bool \<times> ('w, 'z) ring_scheme world" where
  "mark_timeout_loop cap r0 ticket q w =
     (if timeoutable q
      then let (ok, q', w') = cas_weak (slot_seq cap ticket) (set_seq cap ticket) q UB_WAIT_TIMEOUT w
           in if ok
              then (True, ring_queue_try_dec_count (ring_queue_reset_payload cap r0 ticket w'))
              else mark_timeout_loop cap r0 ticket q' w'
      else (False, w))"
  by auto
termination
  by (relation "measures [\<lambda>(cap, r0, t, q, w). length (script w),
                          \<lambda>(cap, r0, t, q, w). if slot_seq cap t (st w) = q then 0 else 1]")
    (auto dest!: sym [of "(_, _, _)"] dest: cas_weak_retry)

definition ring_queue_try_mark_timeout ::
  "nat \<Rightarrow> 'w \<Rightarrow> u32 \<Rightarrow> ('w, 'z) ring_scheme world \<Rightarrow> bool \<times> ('w, 'z) ring_scheme world" where
  "ring_queue_try_mark_timeout cap r0 ticket w =
     (let (q, w1) = load (slot_seq cap ticket) w in mark_timeout_loop cap r0 ticket q w1)"

definition ring_queue_init ::
  "nat \<Rightarrow> 'w \<Rightarrow> ('w, 'z) ring_scheme \<Rightarrow> ('w, 'z) ring_scheme" where
  "ring_queue_init cap r0 s =
     s\<lparr>queue_head := 0, queue_tail := 0, waiting_count := 0,
       wait_queue := replicate cap \<lparr>seq = UB_WAIT_EMPTY, mode = UB_LOCK_I, who = r0\<rparr>\<rparr>"

text \<open>One attempt to move the head past a slot whose waiter timed out.\<close>

definition skip_head ::
  "u32 \<Rightarrow> ('w, 'z) ring_scheme world \<Rightarrow> ('w, 'z) ring_scheme world" where
  "skip_head h w = snd (snd (cas_weak queue_head (\<lambda>v s. s\<lparr>queue_head := v\<rparr>) h (h + 1) w))"

lemma unat_gap_Suc: "(h :: u32) \<noteq> t \<Longrightarrow> unat (t - h) = Suc (unat (t - (h + 1)))"
proof -
  assume "h \<noteq> t"
  then have nz: "t - h \<noteq> 0" by simp
  have eq: "t - (h + 1) = (t - h) - 1" by simp
  show ?thesis
    unfolding eq using nz unat_minus_one [OF nz] unat_gt_0 [of "t - h"] by simp
qed

text \<open>A round of a head-skipping loop consumes an event, or shortens the queue.\<close>

lemma skip_head_round:
  assumes "load queue_head w = (h, w1)" "load queue_tail w1 = (t, w2)"
    "load g w2 = (q, w3)" "h \<noteq> t"
  shows "length (script (skip_head h w3)) < length (script w) \<or>
         script (skip_head h w3) = script w \<and>
         unat (queue_tail (st (skip_head h w3)) - queue_head (st (skip_head h w3))) <
         unat (queue_tail (st w) - queue_head (st w))"
proof (cases "script w")
  case Nil
  then obtain s where w: "w = quiet s" by (metis quiet_eq)
  show ?thesis using assms unat_gap_Suc [of h t] by (auto simp: w skip_head_def)
next
  case (Cons e es)
  have "script (skip_head h w3) = tl (script w3)"
    unfolding skip_head_def by (metis cas_weak_script prod.collapse)
  moreover have "script w3 = tl (tl (tl (script w)))"
    using assms by (auto dest!: load_script)
  ultimately show ?thesis using Cons by (intro disjI1) simp
qed

function ring_queue_advance_dead_head ::
  "nat \<Rightarrow> ('w, 'z) ring_scheme world \<Rightarrow> ('w, 'z) ring_scheme world" where
  "ring_queue_advance_dead_head cap w =
     (let (h, w1) = load queue_head w; (t, w2) = load queue_tail w1 in
      if h = t then w2
      else let (seqv, w3) = load (slot_seq cap h) w2 in
        if seqv = UB_WAIT_TIMEOUT then ring_queue_advance_dead_head cap (skip_head h w3)
        else w3)"
  by auto
termination
  by (relation "measures [\<lambda>(cap, w). length (script w),
                          \<lambda>(cap, w). unat (queue_tail (st w) - queue_head (st w))]")
    (simp, clarsimp dest!: sym [of "(_, _)"], drule (2) skip_head_round, simp, force)

text \<open>The reservation loop of an enqueue: \<open>None\<close> when the ring is full.\<close>

function reserve_ticket ::
  "nat \<Rightarrow> ('w, 'z) ring_scheme world \<Rightarrow> u32 option \<times> ('w, 'z) ring_scheme world" where
  "reserve_ticket cap w =
     (let (h, w1) = load queue_head w; (t, w2) = load queue_tail w1 in
      if unat (t - h) \<ge> cap then (None, w2)
      else let (ok, t', w3) = cas_weak queue_tail (\<lambda>v s. s\<lparr>queue_tail := v\<rparr>) t (t + 1) w2
           in if ok then (Some t, w3) else reserve_ticket cap w3)"
  by auto

lemma reserve_round:
  assumes "load queue_head w = (h, w1)" "load queue_tail w1 = (t, w2)"
    "cas_weak queue_tail put t d w2 = (False, v, w3)"
  shows "length (script w3) < length (script w)"
proof (cases "script w")
  case Nil
  then obtain s where w: "w = quiet s" by (metis quiet_eq)
  show ?thesis using assms by (auto simp: w split: if_splits)
next
  case (Cons e es)
  have "script w3 = tl (tl (tl (script w)))"
    using assms by (auto dest!: load_script cas_weak_script)
  moreover have "length (tl (tl es)) \<le> length es" by simp
  ultimately show ?thesis using Cons by simp
qed

termination reserve_ticket
  by (relation "measure (\<lambda>(cap, w). length (script w))")
    (simp, clarsimp, metis reserve_round)

definition ring_queue_enqueue ::
  "nat \<Rightarrow> ub_lock_mode_t \<Rightarrow> 'w \<Rightarrow> ('w, 'z) ring_scheme world
   \<Rightarrow> (ub_lock_result_t \<times> u32 option) \<times> ('w, 'z) ring_scheme world" where
  "ring_queue_enqueue cap m x w =
     (case reserve_ticket cap w of
        (None, w1) \<Rightarrow> ((UB_LOCK_ERROR, None), w1)
      | (Some ticket, w1) \<Rightarrow>
          let w2 = store (set_seq cap ticket UB_WAIT_WRITING) (snd (load (slot_seq cap ticket) w1));
              w3 = write_payload cap m x ticket w2;
              w4 = store (set_seq cap ticket UB_WAIT_WAITING) w3;
              w5 = store (\<lambda>s. s\<lparr>waiting_count := waiting_count s + 1\<rparr>) w4
          in ((UB_LOCK_SUCCESS, Some ticket), w5))"

text \<open>\<open>out_slot\<close> is the ticket whose slot was notified; the loop is bounded by the source's
  sanity counter.\<close>

fun outqueue_loop ::
  "nat \<Rightarrow> nat \<Rightarrow> ('w, 'z) ring_scheme world
   \<Rightarrow> (ub_lock_result_t \<times> u32 option) \<times> ('w, 'z) ring_scheme world" where
  "outqueue_loop cap 0 w = ((UB_LOCK_ERROR, None), w)"
| "outqueue_loop cap (Suc sanity) w =
     (let (h, w1) = load queue_head w; (seqv, w2) = load (slot_seq cap h) w1 in
      if seqv = UB_WAIT_WRITING then outqueue_loop cap sanity w2
      else if seqv = UB_WAIT_WAITING then
        let (ok, v, w3) = cas_strong (slot_seq cap h) (set_seq cap h) UB_WAIT_WAITING UB_WAIT_NOTIFIED w2
        in if ok then ((UB_LOCK_SUCCESS, Some h), w3) else outqueue_loop cap sanity w3
      else ((UB_LOCK_ERROR, None), w2))"

definition ring_queue_outqueue ::
  "nat \<Rightarrow> ('w, 'z) ring_scheme world
   \<Rightarrow> (ub_lock_result_t \<times> u32 option) \<times> ('w, 'z) ring_scheme world" where
  "ring_queue_outqueue cap w = outqueue_loop cap (cap * 4) w"

definition ring_queue_clean_timeout ::
  "nat \<Rightarrow> 'w \<Rightarrow> u32 \<Rightarrow> ('w, 'z) ring_scheme world \<Rightarrow> ('w, 'z) ring_scheme world" where
  "ring_queue_clean_timeout cap r0 ticket w = snd (ring_queue_try_mark_timeout cap r0 ticket w)"

text \<open>\<open>Some m\<close> is the answer true with \<open>mode_out = m\<close>. The function spins while the head slot
  is being written; if nobody is left to finish that write it does not return.\<close>

function ring_queue_peek_head_mode_clean ::
  "nat \<Rightarrow> ('w, 'z) ring_scheme world
   \<Rightarrow> (ub_lock_mode_t option \<times> ('w, 'z) ring_scheme world) option" where
  "ring_queue_peek_head_mode_clean cap w =
     (let (h, w1) = load queue_head w; (t, w2) = load queue_tail w1 in
      if h = t then Some (None, w2)
      else let (seqv, w3) = load (slot_seq cap h) w2 in
        if seqv = UB_WAIT_WRITING
        then (if script w = [] then None else ring_queue_peek_head_mode_clean cap w3)
        else if seqv = UB_WAIT_WAITING
        then let (m, w4) = load (mode \<circ> slot_at cap h) w3 in Some (Some m, w4)
        else if seqv = UB_WAIT_NOTIFIED then Some (None, w3)
        else if seqv = UB_WAIT_TIMEOUT then ring_queue_peek_head_mode_clean cap (skip_head h w3)
        else Some (None, w3))"
  by auto

lemma spin_round:
  assumes "load f w = (h, w1)" "load g w1 = (t, w2)" "load k w2 = (q, w3)" "script w \<noteq> []"
  shows "length (script w3) < length (script w)"
  using assms by (cases "script w") (auto dest!: load_script)

termination ring_queue_peek_head_mode_clean
  by (relation "measures [\<lambda>(cap, w). length (script w),
                          \<lambda>(cap, w). unat (queue_tail (st w) - queue_head (st w))]")
    (simp, simp, metis spin_round, simp, metis skip_head_round)

definition ring_queue_pop_head ::
  "nat \<Rightarrow> 'w \<Rightarrow> u32 \<Rightarrow> ('w, 'z) ring_scheme world \<Rightarrow> ('w, 'z) ring_scheme world" where
  "ring_queue_pop_head cap r0 ticket w =
     (let w1 = store (set_seq cap ticket UB_WAIT_EMPTY) w;
          w2 = ring_queue_reset_payload cap r0 ticket w1;
          w3 = store (\<lambda>s. s\<lparr>queue_head := queue_head s + 1\<rparr>) w2
      in ring_queue_try_dec_count w3)"

definition ring_queue_try_self_handoff_if_head ::
  "nat \<Rightarrow> u32 \<Rightarrow> ('w, 'z) ring_scheme world \<Rightarrow> bool \<times> ('w, 'z) ring_scheme world" where
  "ring_queue_try_self_handoff_if_head cap ticket w =
     (let (h, w1) = load queue_head w; (t, w2) = load queue_tail w1 in
      if h = t then (False, w2)
      else if h \<noteq> ticket then (False, w2)
      else let (ok, v, w3) = cas_strong (slot_seq cap ticket) (set_seq cap ticket)
                               UB_WAIT_WAITING UB_WAIT_NOTIFIED w2
           in (ok, w3))"

declare dec_count_loop.simps [simp del] mark_timeout_loop.simps [simp del]
  ring_queue_advance_dead_head.simps [simp del] reserve_ticket.simps [simp del]
  ring_queue_peek_head_mode_clean.simps [simp del]

section \<open>The abstract queue\<close>

text \<open>The queue as a list of waiters, oldest first.\<close>

definition dead :: "'w waiter \<Rightarrow> bool" where
  "dead e \<longleftrightarrow> seq e = UB_WAIT_TIMEOUT"

definition q_enqueue :: "nat \<Rightarrow> ub_lock_mode_t \<Rightarrow> 'w \<Rightarrow> 'w waiter list \<Rightarrow> 'w waiter list option" where
  "q_enqueue cap m x q =
     (if length q \<ge> cap then None else Some (q @ [\<lparr>seq = UB_WAIT_WAITING, mode = m, who = x\<rparr>]))"

fun q_notify :: "'w waiter list \<Rightarrow> 'w waiter list option" where
  "q_notify [] = None"
| "q_notify (e # q) = (if seq e = UB_WAIT_WAITING then Some (e\<lparr>seq := UB_WAIT_NOTIFIED\<rparr> # q) else None)"

definition q_timeout :: "'w \<Rightarrow> nat \<Rightarrow> 'w waiter list \<Rightarrow> 'w waiter list" where
  "q_timeout r0 i q =
     (if timeoutable (seq (q ! i)) then q[i := \<lparr>seq = UB_WAIT_TIMEOUT, mode = UB_LOCK_I, who = r0\<rparr>] else q)"

definition q_peek :: "'w waiter list \<Rightarrow> ub_lock_mode_t option" where
  "q_peek q = (case dropWhile dead q of
      [] \<Rightarrow> None | e # _ \<Rightarrow> if seq e = UB_WAIT_WAITING then Some (mode e) else None)"

definition live :: "'w waiter list \<Rightarrow> nat" where
  "live q = length (filter (\<lambda>e. \<not> dead e) q)"

text \<open>The abstraction and the invariant. The slots between head and tail hold waiters, the
  slots outside are unused or hold what a timed-out waiter left behind.\<close>

definition ring_len :: "('w, 'z) ring_scheme \<Rightarrow> nat" where
  "ring_len s = unat (queue_tail s - queue_head s)"

definition entry :: "nat \<Rightarrow> ('w, 'z) ring_scheme \<Rightarrow> nat \<Rightarrow> 'w waiter" where
  "entry cap s i = slot_at cap (queue_head s + of_nat i) s"

definition entries :: "nat \<Rightarrow> ('w, 'z) ring_scheme \<Rightarrow> 'w waiter list" where
  "entries cap s = map (entry cap s) [0..<ring_len s]"

definition ring_cap :: "nat \<Rightarrow> bool" where
  "ring_cap cap \<longleftrightarrow> (\<exists>k < 32. cap = 2 ^ k)"

definition ring_wf :: "nat \<Rightarrow> ('w, 'z) ring_scheme \<Rightarrow> bool" where
  "ring_wf cap s \<longleftrightarrow>
     ring_cap cap \<and> length (wait_queue s) = cap \<and> ring_len s \<le> cap \<and>
     (\<forall>i < ring_len s. seq (entry cap s i) \<in> {UB_WAIT_WAITING, UB_WAIT_NOTIFIED, UB_WAIT_TIMEOUT}) \<and>
     (\<forall>i < cap. ring_len s \<le> i \<longrightarrow> seq (entry cap s i) \<in> {UB_WAIT_EMPTY, UB_WAIT_TIMEOUT}) \<and>
     unat (waiting_count s) = live (entries cap s)"

lemma ring_cap_pos: "ring_cap cap \<Longrightarrow> 0 < cap"
  by (auto simp: ring_cap_def)

lemma ring_cap_less: "ring_cap cap \<Longrightarrow> cap < 2 ^ 32"
  unfolding ring_cap_def by (metis one_less_numeral_iff power_strict_increasing_iff semiring_norm(76))

lemma ring_cap_dvd: "ring_cap cap \<Longrightarrow> cap dvd 2 ^ 32"
  unfolding ring_cap_def by (metis le_imp_power_dvd less_imp_le)

lemma slot_idx_mod: "ring_cap cap \<Longrightarrow> slot_idx cap t = unat t mod cap"
  by (auto simp: ring_cap_def slot_idx_def ring_simps simp flip: mask_eq_exp_minus_1)

lemma slot_idx_add: "ring_cap cap \<Longrightarrow> slot_idx cap (h + of_nat i) = (unat h + i) mod cap"
  by (simp add: slot_idx_mod unat_word_ariths unat_of_nat mod_mod_cancel ring_cap_dvd mod_add_right_eq
      flip: power_numeral)

lemma slot_idx_less: "ring_cap cap \<Longrightarrow> slot_idx cap t < cap"
  by (simp add: slot_idx_mod ring_cap_pos)

lemma slot_idx_inj:
  "ring_cap cap \<Longrightarrow> i < cap \<Longrightarrow> j < cap \<Longrightarrow>
   slot_idx cap (h + of_nat i) = slot_idx cap (h + of_nat j) \<longleftrightarrow> i = j"
  using mod_window_inj [of "unat h + i" cap "unat h + j" "unat h"]
  by (auto simp: slot_idx_add)

lemma upd_slot_fields [simp]:
  "queue_head (upd_slot cap t f s) = queue_head s"
  "queue_tail (upd_slot cap t f s) = queue_tail s"
  "waiting_count (upd_slot cap t f s) = waiting_count s"
  "length (wait_queue (upd_slot cap t f s)) = length (wait_queue s)"
  by (simp_all add: upd_slot_def)

lemma slot_at_upd_slot:
  "ring_cap cap \<Longrightarrow> length (wait_queue s) = cap \<Longrightarrow> i < cap \<Longrightarrow> j < cap \<Longrightarrow>
   slot_at cap (h + of_nat j) (upd_slot cap (h + of_nat i) f s) =
     (if i = j then f (slot_at cap (h + of_nat j) s) else slot_at cap (h + of_nat j) s)"
  using slot_idx_inj [of cap i j h]
  by (auto simp: slot_at_def upd_slot_def slot_idx_less)

lemma ring_len_le: "ring_wf cap s \<Longrightarrow> ring_len s \<le> cap"
  by (simp add: ring_wf_def)

lemma length_entries [simp]: "length (entries cap s) = ring_len s"
  by (simp add: entries_def)

lemma nth_entries [simp]: "i < ring_len s \<Longrightarrow> entries cap s ! i = entry cap s i"
  by (simp add: entries_def)

lemma entries_Cons:
  assumes "queue_head s \<noteq> queue_tail s"
  shows "entries cap s = slot_at cap (queue_head s) s # entries cap (s\<lparr>queue_head := queue_head s + 1\<rparr>)"
proof -
  let ?s = "s\<lparr>queue_head := queue_head s + 1\<rparr>"
  have "ring_len s = Suc (ring_len ?s)"
    using unat_gap_Suc [OF assms] by (simp add: ring_len_def)
  then have "entries cap s = entry cap s 0 # map (\<lambda>i. entry cap s (Suc i)) [0..<ring_len ?s]"
    by (simp only: entries_def map_upt_Suc)
  moreover have "entry cap s (Suc i) = entry cap ?s i" for i
    by (simp add: entry_def slot_at_def algebra_simps)
  ultimately show ?thesis by (simp add: entries_def) (simp add: entry_def)
qed

lemma entries_Nil: "queue_head s = queue_tail s \<Longrightarrow> entries cap s = []"
  by (simp add: entries_def ring_len_def)

lemma entries_upd_slot:
  assumes "ring_cap cap" "length (wait_queue s) = cap" "ring_len s \<le> cap" "i < ring_len s"
  shows "entries cap (upd_slot cap (queue_head s + of_nat i) f s) =
         (entries cap s)[i := f (entries cap s ! i)]"
proof (rule nth_equalityI)
  have [simp]: "ring_len (upd_slot cap t f s) = ring_len s" for t
    by (simp add: ring_len_def upd_slot_def)
  have [simp]: "queue_head (upd_slot cap t f s) = queue_head s" for t
    by (simp add: upd_slot_def)
  show "length (entries cap (upd_slot cap (queue_head s + of_nat i) f s)) =
        length ((entries cap s)[i := f (entries cap s ! i)])"
    by simp
  fix j assume "j < length (entries cap (upd_slot cap (queue_head s + of_nat i) f s))"
  then show "entries cap (upd_slot cap (queue_head s + of_nat i) f s) ! j =
        (entries cap s)[i := f (entries cap s ! i)] ! j"
    using assms by (simp add: entry_def slot_at_upd_slot nth_list_update)
qed

section \<open>Simulation\<close>

lemma dec_count_quiet [simp]:
  "ring_queue_try_dec_count (quiet s) =
     quiet (if waiting_count s = 0 then s else s\<lparr>waiting_count := waiting_count s - 1\<rparr>)"
  by (simp add: ring_queue_try_dec_count_def dec_count_loop.simps word_neq_0_conv)

lemma ring_wf_len: "ring_wf cap s \<Longrightarrow> length (wait_queue s) = cap"
  and ring_wf_cap: "ring_wf cap s \<Longrightarrow> ring_cap cap"
  by (simp_all add: ring_wf_def)

lemma live_update:
  "i < length q \<Longrightarrow> \<not> dead (q ! i) \<Longrightarrow> live (q[i := e]) = (if dead e then live q - 1 else live q)"
proof -
  assume i: "i < length q" "\<not> dead (q ! i)"
  have q: "q = take i q @ q ! i # drop (Suc i) q" using i by (simp add: id_take_nth_drop)
  have "q[i := e] = take i q @ e # drop (Suc i) q" using i by (simp add: upd_conv_take_nth_drop)
  moreover have "live q = live (take i q) + 1 + live (drop (Suc i) q)"
    by (subst q) (use i in \<open>simp add: live_def\<close>)
  ultimately show ?thesis by (simp add: live_def)
qed

text \<open>Changing one slot of the window keeps the rest of the invariant.\<close>

lemma ring_wf_upd_slot:
  assumes wf: "ring_wf cap s" and i: "i < ring_len s"
    and f: "seq (f (entries cap s ! i)) \<in> {UB_WAIT_WAITING, UB_WAIT_NOTIFIED, UB_WAIT_TIMEOUT}"
    and c: "unat c = live ((entries cap s)[i := f (entries cap s ! i)])"
  shows "ring_wf cap ((upd_slot cap (queue_head s + of_nat i) f s)\<lparr>waiting_count := c\<rparr>)"
    and "entries cap ((upd_slot cap (queue_head s + of_nat i) f s)\<lparr>waiting_count := c\<rparr>) =
         (entries cap s)[i := f (entries cap s ! i)]"
proof -
  let ?u = "upd_slot cap (queue_head s + of_nat i) f s"
  have w: "ring_cap cap" "length (wait_queue s) = cap" "ring_len s \<le> cap"
    using wf by (simp_all add: ring_wf_def)
  have fields: "queue_head ?u = queue_head s" "queue_tail ?u = queue_tail s" "length (wait_queue ?u) = cap"
    using w by (simp_all add: upd_slot_def)
  have count: "entries cap (t\<lparr>waiting_count := c\<rparr>) = entries cap t"
    "entry cap (t\<lparr>waiting_count := c\<rparr>) = entry cap t" "ring_len (t\<lparr>waiting_count := c\<rparr>) = ring_len t" for t
    by (simp_all add: fun_eq_iff entries_def entry_def slot_at_def ring_len_def)
  have len: "ring_len ?u = ring_len s" by (simp add: ring_len_def fields)
  have ent: "entries cap ?u = (entries cap s)[i := f (entries cap s ! i)]"
    using w i by (rule entries_upd_slot)
  show "entries cap (?u\<lparr>waiting_count := c\<rparr>) = (entries cap s)[i := f (entries cap s ! i)]"
    by (simp add: count ent)
  have e: "entry cap ?u j = (if i = j then f (entry cap s j) else entry cap s j)" if "j < cap" for j
    using that i w by (simp add: entry_def fields slot_at_upd_slot)
  show "ring_wf cap (?u\<lparr>waiting_count := c\<rparr>)"
    unfolding ring_wf_def count len
  proof (intro conjI allI impI)
    show "ring_cap cap" "ring_len s \<le> cap" by (fact w)+
    show "length (wait_queue (?u\<lparr>waiting_count := c\<rparr>)) = cap"
      "unat (waiting_count (?u\<lparr>waiting_count := c\<rparr>)) = live (entries cap ?u)"
      using w(2) by (simp_all add: c ent)
    fix j
    show "seq (entry cap ?u j) \<in> {UB_WAIT_WAITING, UB_WAIT_NOTIFIED, UB_WAIT_TIMEOUT}" if "j < ring_len s"
      using that e [of j] wf f i w(3) unfolding ring_wf_def by (cases "i = j") simp_all
    show "seq (entry cap ?u j) \<in> {UB_WAIT_EMPTY, UB_WAIT_TIMEOUT}" if "j < cap" "ring_len s \<le> j"
      using that e [of j] wf i unfolding ring_wf_def by (cases "i = j") simp_all
  qed
qed

text \<open>Moving the head over the oldest entry, whose slot is given up.\<close>

lemma ring_len_Suc_head:
  "queue_head s \<noteq> queue_tail s \<Longrightarrow> ring_len s = Suc (ring_len (s\<lparr>queue_head := queue_head s + 1\<rparr>))"
  using unat_gap_Suc [of "queue_head s" "queue_tail s"] by (simp add: ring_len_def)

lemma ring_wf_drop_head:
  assumes wf: "ring_wf cap s" and ne: "queue_head s \<noteq> queue_tail s"
    and d: "seq (f (slot_at cap (queue_head s) s)) \<in> {UB_WAIT_EMPTY, UB_WAIT_TIMEOUT}"
    and c: "unat c = live (tl (entries cap s))"
  defines "s' \<equiv> (upd_slot cap (queue_head s) f s)\<lparr>queue_head := queue_head s + 1, waiting_count := c\<rparr>"
  shows "ring_wf cap s'" and "entries cap s' = tl (entries cap s)"
proof -
  have w: "ring_cap cap" "length (wait_queue s) = cap" "ring_len s \<le> cap"
    using wf by (simp_all add: ring_wf_def)
  have len: "ring_len s = Suc (ring_len s')"
    using ring_len_Suc_head [OF ne] by (simp add: ring_len_def s'_def upd_slot_def)
  have slot: "slot_at cap (queue_head s + of_nat j) s' =
      (if j = 0 then f (slot_at cap (queue_head s) s) else slot_at cap (queue_head s + of_nat j) s)"
    if "j < cap" for j
    using that slot_at_upd_slot [OF w(1,2), of 0 j "queue_head s" f]
    by (auto simp: s'_def slot_at_def)
  have shift: "entry cap s' i = slot_at cap (queue_head s + of_nat (Suc i)) s'" for i
    by (simp add: entry_def s'_def algebra_simps)
  have e: "entry cap s' i = entry cap s (Suc i)" if "Suc i < cap" for i
    using that unfolding shift slot [OF that] by (simp add: entry_def)
  have wrap: "slot_at cap (queue_head s + of_nat cap) s' = slot_at cap (queue_head s + of_nat 0) s'"
    unfolding slot_at_def slot_idx_add [OF w(1)] by simp
  have last: "seq (entry cap s' i) \<in> {UB_WAIT_EMPTY, UB_WAIT_TIMEOUT}" if "Suc i = cap" for i
    unfolding shift that wrap slot [OF ring_cap_pos [OF w(1)]] using d by simp
  have ent: "entries cap s' = tl (entries cap s)"
    using w(3) len by (intro nth_equalityI) (simp_all add: nth_tl e)
  then show "entries cap s' = tl (entries cap s)" .
  show "ring_wf cap s'"
    unfolding ring_wf_def
  proof (intro conjI allI impI)
    show "ring_cap cap" "ring_len s' \<le> cap" using w len by simp_all
    show "length (wait_queue s') = cap" "unat (waiting_count s') = live (entries cap s')"
      using w c ent by (simp_all add: s'_def upd_slot_def)
    fix i
    show "seq (entry cap s' i) \<in> {UB_WAIT_WAITING, UB_WAIT_NOTIFIED, UB_WAIT_TIMEOUT}" if "i < ring_len s'"
      using that e [of i] wf len w(3) by (simp add: ring_wf_def)
    show "seq (entry cap s' i) \<in> {UB_WAIT_EMPTY, UB_WAIT_TIMEOUT}" if "i < cap" "ring_len s' \<le> i"
      using that e [of i] last [of i] wf len by (cases "Suc i = cap") (simp_all add: ring_wf_def)
  qed
qed

text \<open>Filling the slot at the tail.\<close>

lemma queue_tail_eq: "queue_tail s = queue_head s + of_nat (ring_len s)"
  by (simp add: ring_len_def)

lemma ring_wf_snoc:
  assumes wf: "ring_wf cap s" and room: "ring_len s < cap" and x: "seq x = UB_WAIT_WAITING"
  defines "s' \<equiv> (upd_slot cap (queue_tail s) (\<lambda>_. x) s)
                   \<lparr>queue_tail := queue_tail s + 1, waiting_count := waiting_count s + 1\<rparr>"
  shows "ring_wf cap s'" and "entries cap s' = entries cap s @ [x]"
proof -
  have w: "ring_cap cap" "length (wait_queue s) = cap"
    using wf by (simp_all add: ring_wf_def)
  have "ring_len s + 1 < 2 ^ 32" using room ring_cap_less [OF w(1)] by linarith
  then have "unat ((queue_tail s - queue_head s) + 1) = Suc (ring_len s)"
    by (simp add: ring_len_def unat_word_ariths)
  moreover have "queue_tail s + 1 - queue_head s = (queue_tail s - queue_head s) + 1" by simp
  moreover have "queue_tail s' = queue_tail s + 1" "queue_head s' = queue_head s"
    by (simp_all add: s'_def)
  ultimately have len: "ring_len s' = Suc (ring_len s)"
    by (simp only: ring_len_def)
  have e: "entry cap s' i = (if i = ring_len s then x else entry cap s i)" if "i < cap" for i
    using that slot_at_upd_slot [OF w room that, of "queue_head s" "\<lambda>_. x"]
    by (simp add: entry_def s'_def slot_at_def flip: queue_tail_eq)
  have ent: "entries cap s' = entries cap s @ [x]"
    using room len by (intro nth_equalityI) (auto simp: nth_append e less_Suc_eq)
  then show "entries cap s' = entries cap s @ [x]" .
  have count: "unat (waiting_count s') = live (entries cap s')"
  proof -
    have "live (entries cap s) \<le> ring_len s"
      unfolding live_def by (metis length_entries length_filter_le)
    moreover have "unat (waiting_count s) = live (entries cap s)" using wf by (simp add: ring_wf_def)
    ultimately have "unat (waiting_count s + 1) = live (entries cap s) + 1"
      using \<open>ring_len s + 1 < 2 ^ 32\<close> by (simp add: unat_word_ariths)
    then have "unat (waiting_count s') = live (entries cap s) + 1" by (simp add: s'_def)
    then show ?thesis using x by (simp add: ent live_def dead_def)
  qed
  show "ring_wf cap s'"
    unfolding ring_wf_def
  proof (intro conjI allI impI)
    show "ring_cap cap" "ring_len s' \<le> cap" using w room len by simp_all
    show "length (wait_queue s') = cap" using w by (simp add: s'_def upd_slot_def)
    fix i
    show "seq (entry cap s' i) \<in> {UB_WAIT_WAITING, UB_WAIT_NOTIFIED, UB_WAIT_TIMEOUT}" if "i < ring_len s'"
      using that e [of i] wf len room x by (cases "i = ring_len s") (simp_all add: ring_wf_def)
    show "seq (entry cap s' i) \<in> {UB_WAIT_EMPTY, UB_WAIT_TIMEOUT}" if "i < cap" "ring_len s' \<le> i"
      using that e [of i] wf len by (simp add: ring_wf_def)
  qed (rule count)
qed

lemma upd_slot_upd_slot:
  "ring_cap cap \<Longrightarrow> length (wait_queue s) = cap \<Longrightarrow>
   upd_slot cap t f (upd_slot cap t g s) = upd_slot cap t (f \<circ> g) s"
  by (simp add: upd_slot_def slot_at_def slot_idx_less)

lemma waiter_written:
  "e\<lparr>mode := m, who := x, seq := v\<rparr> = \<lparr>seq = v, mode = m, who = x\<rparr>"
  "e\<lparr>seq := v, mode := m, who := x\<rparr> = \<lparr>seq = v, mode = m, who = x\<rparr>"
  by (cases e; simp)+

lemma write_payload_quiet [simp]:
  "ring_cap cap \<Longrightarrow> length (wait_queue s) = cap \<Longrightarrow>
   write_payload cap m x t (quiet s) = quiet (upd_slot cap t (\<lambda>sl. sl\<lparr>mode := m, who := x\<rparr>) s)"
  by (simp add: write_payload_def upd_slot_upd_slot comp_def)

lemma reset_payload_quiet [simp]:
  "ring_cap cap \<Longrightarrow> length (wait_queue s) = cap \<Longrightarrow>
   ring_queue_reset_payload cap r0 t (quiet (set_seq cap t v s)) =
     quiet (upd_slot cap t (\<lambda>_. \<lparr>seq = v, mode = UB_LOCK_I, who = r0\<rparr>) s)"
  by (simp add: ring_queue_reset_payload_def set_seq_def upd_slot_upd_slot comp_def waiter_written)

lemma upd_slot_commute:
  "upd_slot cap t f (s\<lparr>queue_head := h\<rparr>) = (upd_slot cap t f s)\<lparr>queue_head := h\<rparr>"
  "upd_slot cap t f (s\<lparr>queue_tail := h\<rparr>) = (upd_slot cap t f s)\<lparr>queue_tail := h\<rparr>"
  "upd_slot cap t f (s\<lparr>waiting_count := c\<rparr>) = (upd_slot cap t f s)\<lparr>waiting_count := c\<rparr>"
  by (simp_all add: upd_slot_def slot_at_def)

lemma upd_slot_cong: "f (slot_at cap t s) = g (slot_at cap t s) \<Longrightarrow> upd_slot cap t f s = upd_slot cap t g s"
  by (simp add: upd_slot_def)

lemma reserve_ticket_quiet:
  "reserve_ticket cap (quiet s) =
     (if ring_len s \<ge> cap then (None, quiet s)
      else (Some (queue_tail s), quiet (s\<lparr>queue_tail := queue_tail s + 1\<rparr>)))"
  by (simp add: reserve_ticket.simps ring_len_def)

lemma enqueue_quiet:
  assumes "ring_cap cap" "length (wait_queue s) = cap" "ring_len s < cap"
  shows "ring_queue_enqueue cap m x (quiet s) =
      ((UB_LOCK_SUCCESS, Some (queue_tail s)),
       quiet ((upd_slot cap (queue_tail s) (\<lambda>_. \<lparr>seq = UB_WAIT_WAITING, mode = m, who = x\<rparr>) s)
         \<lparr>queue_tail := queue_tail s + 1, waiting_count := waiting_count s + 1\<rparr>))"
  using assms by (simp add: ring_queue_enqueue_def reserve_ticket_quiet set_seq_def upd_slot_upd_slot
      comp_def waiter_written upd_slot_commute)

text \<open>An enqueue appends a waiter, or reports that the ring is full.\<close>

lemma enqueue_sim:
  assumes wf: "ring_wf cap s"
  shows "\<exists>s'. ring_wf cap s' \<and>
     (case q_enqueue cap m x (entries cap s) of
        None \<Rightarrow> ring_queue_enqueue cap m x (quiet s) = ((UB_LOCK_ERROR, None), quiet s') \<and> s' = s
      | Some q \<Rightarrow> ring_queue_enqueue cap m x (quiet s) = ((UB_LOCK_SUCCESS, Some (queue_tail s)), quiet s') \<and>
                  entries cap s' = q)"
proof (cases "ring_len s < cap")
  case True
  then show ?thesis
    using enqueue_quiet [OF ring_wf_cap [OF wf] ring_wf_len [OF wf] True, of m x]
      ring_wf_snoc [OF wf True, of "\<lparr>seq = UB_WAIT_WAITING, mode = m, who = x\<rparr>"]
    by (auto simp: q_enqueue_def)
next
  case False
  then show ?thesis
    using wf by (auto simp: q_enqueue_def ring_queue_enqueue_def reserve_ticket_quiet)
qed

text \<open>An outqueue notifies the oldest waiter.\<close>

lemma ring_wf_head_seq:
  "ring_wf cap s \<Longrightarrow> slot_seq cap (queue_head s) s \<noteq> UB_WAIT_WRITING"
  using ring_cap_pos [of cap]
  by (cases "ring_len s") (auto simp: ring_wf_def slot_seq_def entry_def)

lemma ring_len_0: "ring_len s = 0 \<longleftrightarrow> queue_head s = queue_tail s"
  by (auto simp: ring_len_def unat_eq_zero)

lemma ring_wf_head_waiting:
  "ring_wf cap s \<Longrightarrow> slot_seq cap (queue_head s) s = UB_WAIT_WAITING \<Longrightarrow> queue_head s \<noteq> queue_tail s"
  using ring_cap_pos [of cap] ring_len_0 [of s]
  by (auto simp: ring_wf_def slot_seq_def entry_def)

lemma set_head_sim:
  assumes wf: "ring_wf cap s" and h: "slot_seq cap (queue_head s) s = UB_WAIT_WAITING"
  defines "s' \<equiv> set_seq cap (queue_head s) UB_WAIT_NOTIFIED s"
  shows "ring_wf cap s'" and "q_notify (entries cap s) = Some (entries cap s')"
proof -
  have ne: "queue_head s \<noteq> queue_tail s" using wf h by (rule ring_wf_head_waiting)
  then have pos: "0 < ring_len s" using ring_len_0 [of s] by simp
  let ?f = "\<lambda>sl. sl\<lparr>seq := UB_WAIT_NOTIFIED\<rparr>"
  have e0: "entries cap s ! 0 = slot_at cap (queue_head s) s"
    using pos by (simp add: entry_def)
  have "live ((entries cap s)[0 := ?f (entries cap s ! 0)]) = live (entries cap s)"
    using pos h by (subst live_update) (simp_all add: dead_def slot_seq_def entry_def)
  then have c: "unat (waiting_count s) = live ((entries cap s)[0 := ?f (entries cap s ! 0)])"
    using wf by (simp add: ring_wf_def)
  have s': "s' = (upd_slot cap (queue_head s + of_nat 0) ?f s)\<lparr>waiting_count := waiting_count s\<rparr>"
    by (simp add: s'_def set_seq_def upd_slot_def)
  show "ring_wf cap s'"
    unfolding s' by (rule ring_wf_upd_slot(1) [OF wf pos, of ?f]) (simp_all add: c)
  have "entries cap s' = (entries cap s)[0 := ?f (entries cap s ! 0)]"
    unfolding s' by (rule ring_wf_upd_slot(2) [OF wf pos, of ?f]) (simp_all add: c)
  then show "q_notify (entries cap s) = Some (entries cap s')"
    using h e0 by (simp add: entries_Cons [OF ne] slot_seq_def)
qed

lemma outqueue_quiet:
  assumes "ring_cap cap" and nw: "slot_seq cap (queue_head s) s \<noteq> UB_WAIT_WRITING"
  shows "ring_queue_outqueue cap (quiet s) =
     (if slot_seq cap (queue_head s) s = UB_WAIT_WAITING
      then ((UB_LOCK_SUCCESS, Some (queue_head s)), quiet (set_seq cap (queue_head s) UB_WAIT_NOTIFIED s))
      else ((UB_LOCK_ERROR, None), quiet s))"
proof -
  obtain n where "cap * 4 = Suc n"
    using ring_cap_pos [OF assms(1)] by (cases "cap * 4") auto
  then show ?thesis
    using nw by (simp add: ring_queue_outqueue_def)
qed

text \<open>A self-handoff notifies the oldest waiter if it is the caller.\<close>

lemma handoff_quiet:
  "ring_queue_try_self_handoff_if_head cap t (quiet s) =
     (if queue_head s \<noteq> queue_tail s \<and> t = queue_head s \<and> slot_seq cap (queue_head s) s = UB_WAIT_WAITING
      then (True, quiet (set_seq cap (queue_head s) UB_WAIT_NOTIFIED s)) else (False, quiet s))"
  by (auto simp: ring_queue_try_self_handoff_if_head_def)

text \<open>A waiter that gives up is marked dead in place.\<close>

lemma live_pos: "i < length q \<Longrightarrow> \<not> dead (q ! i) \<Longrightarrow> 0 < live q"
  unfolding live_def by (metis filter_empty_conv length_greater_0_conv nth_mem)

lemma unat_pred: "(c :: u32) \<noteq> 0 \<Longrightarrow> unat (c - 1) = unat c - 1"
  by (rule unat_minus_one)

lemma clean_timeout_sim:
  assumes wf: "ring_wf cap s" and i: "i < ring_len s"
  shows "\<exists>s'. ring_queue_clean_timeout cap r0 (queue_head s + of_nat i) (quiet s) = quiet s' \<and>
           ring_wf cap s' \<and> entries cap s' = q_timeout r0 i (entries cap s) \<and>
           queue_head s' = queue_head s \<and> queue_tail s' = queue_tail s"
proof (cases "timeoutable (seq (entries cap s ! i))")
  case True
  let ?t = "queue_head s + of_nat i"
  let ?f = "\<lambda>_. \<lparr>seq = UB_WAIT_TIMEOUT, mode = UB_LOCK_I, who = r0\<rparr>"
  let ?q = "(entries cap s)[i := ?f (entries cap s ! i)]"
  have w: "ring_cap cap" "length (wait_queue s) = cap" using wf by (simp_all add: ring_wf_def)
  have nd: "\<not> dead (entries cap s ! i)" using True by (auto simp: dead_def timeoutable_def)
  have cnt: "unat (waiting_count s) = live (entries cap s)" using wf by (simp add: ring_wf_def)
  then have nz: "waiting_count s \<noteq> 0" using live_pos [OF _ nd] i by auto
  have c: "unat (waiting_count s - 1) = live ?q"
    using nd i cnt by (simp add: unat_pred nz live_update) (simp add: dead_def)
  have "timeoutable (slot_seq cap ?t s)"
    using True i by (simp add: slot_seq_def entry_def)
  then have "ring_queue_clean_timeout cap r0 ?t (quiet s) =
      quiet ((upd_slot cap ?t ?f s)\<lparr>waiting_count := waiting_count s - 1\<rparr>)"
    using nz w by (simp add: ring_queue_clean_timeout_def ring_queue_try_mark_timeout_def
        mark_timeout_loop.simps)
  then show ?thesis
    using ring_wf_upd_slot [OF wf i, of ?f "waiting_count s - 1"] c True
    by (auto simp: q_timeout_def)
next
  case False
  then show ?thesis
    using wf i by (auto simp: q_timeout_def ring_queue_clean_timeout_def ring_queue_try_mark_timeout_def
        mark_timeout_loop.simps slot_seq_def entry_def)
qed

text \<open>A notified waiter leaves the queue.\<close>

lemma pop_head_sim:
  assumes wf: "ring_wf cap s" and ne: "queue_head s \<noteq> queue_tail s"
    and n: "slot_seq cap (queue_head s) s = UB_WAIT_NOTIFIED"
  shows "\<exists>s'. ring_queue_pop_head cap r0 (queue_head s) (quiet s) = quiet s' \<and>
           ring_wf cap s' \<and> entries cap s' = tl (entries cap s)"
proof -
  let ?t = "queue_head s"
  let ?f = "\<lambda>_. \<lparr>seq = UB_WAIT_EMPTY, mode = UB_LOCK_I, who = r0\<rparr>"
  have w: "ring_cap cap" "length (wait_queue s) = cap" using wf by (simp_all add: ring_wf_def)
  have cnt: "unat (waiting_count s) = live (entries cap s)" using wf by (simp add: ring_wf_def)
  have live: "live (entries cap s) = Suc (live (tl (entries cap s)))"
    using n by (simp add: entries_Cons [OF ne] live_def dead_def slot_seq_def)
  then have nz: "waiting_count s \<noteq> 0" using cnt by auto
  have c: "unat (waiting_count s - 1) = live (tl (entries cap s))"
    using live cnt by (simp add: unat_pred nz)
  have "ring_queue_pop_head cap r0 ?t (quiet s) =
      quiet ((upd_slot cap ?t ?f s)\<lparr>queue_head := queue_head s + 1, waiting_count := waiting_count s - 1\<rparr>)"
    using nz w by (simp add: ring_queue_pop_head_def)
  then show ?thesis
    using ring_wf_drop_head [OF wf ne, of ?f, OF _ c] by auto
qed

text \<open>Peeking and cleaning drop the dead waiters in front.\<close>

lemma skip_head_sim:
  assumes wf: "ring_wf cap s" and ne: "queue_head s \<noteq> queue_tail s"
    and d: "slot_seq cap (queue_head s) s = UB_WAIT_TIMEOUT"
  defines "s' \<equiv> s\<lparr>queue_head := queue_head s + 1\<rparr>"
  shows "ring_wf cap s'" and "entries cap s' = tl (entries cap s)"
    and "dropWhile dead (entries cap s) = dropWhile dead (entries cap s')"
proof -
  have e: "entries cap s = slot_at cap (queue_head s) s # entries cap s'"
    unfolding s'_def by (rule entries_Cons [OF ne])
  then show "entries cap s' = tl (entries cap s)" by simp
  show "dropWhile dead (entries cap s) = dropWhile dead (entries cap s')"
    using d by (simp add: e dead_def slot_seq_def)
  have "unat (waiting_count s) = live (tl (entries cap s))"
    using wf d by (simp add: ring_wf_def e live_def dead_def slot_seq_def)
  moreover have "s' = (upd_slot cap (queue_head s) (\<lambda>x. x) s)\<lparr>queue_head := queue_head s + 1,
      waiting_count := waiting_count s\<rparr>"
    by (simp add: s'_def upd_slot_def slot_at_def)
  ultimately show "ring_wf cap s'"
    using ring_wf_drop_head(1) [OF wf ne, of "\<lambda>x. x" "waiting_count s"] d by (simp add: slot_seq_def)
qed

lemma peek_sim:
  "ring_wf cap s \<Longrightarrow>
   \<exists>s'. ring_queue_peek_head_mode_clean cap (quiet s) = Some (q_peek (entries cap s), quiet s') \<and>
        ring_wf cap s' \<and> entries cap s' = dropWhile dead (entries cap s)"
proof (induction "ring_len s" arbitrary: s)
  case 0
  then have "queue_head s = queue_tail s" by (metis ring_len_0)
  then show ?case
    using 0 by (subst ring_queue_peek_head_mode_clean.simps) (auto simp: q_peek_def entries_Nil)
next
  case (Suc n)
  then have ne: "queue_head s \<noteq> queue_tail s" by (metis ring_len_0 nat.simps(3))
  have nw: "slot_seq cap (queue_head s) s \<noteq> UB_WAIT_WRITING" using Suc.prems by (rule ring_wf_head_seq)
  show ?case
  proof (cases "slot_seq cap (queue_head s) s = UB_WAIT_TIMEOUT")
    case True
    let ?s = "s\<lparr>queue_head := queue_head s + 1\<rparr>"
    note sk = skip_head_sim [OF Suc.prems ne True]
    have "n = ring_len ?s" using Suc(2) ring_len_Suc_head [OF ne] by simp
    moreover have "ring_queue_peek_head_mode_clean cap (quiet s) = ring_queue_peek_head_mode_clean cap (quiet ?s)"
      using ne True by (subst ring_queue_peek_head_mode_clean.simps) (simp add: skip_head_def)
    moreover have "q_peek (entries cap s) = q_peek (entries cap ?s)" by (simp add: q_peek_def sk(3))
    ultimately show ?thesis using Suc(1) [OF _ sk(1)] sk(3) by simp
  next
    case False
    then have "dropWhile dead (entries cap s) = entries cap s"
      by (simp add: entries_Cons [OF ne] dead_def slot_seq_def)
    then show ?thesis
      using ne nw False Suc.prems
      by (subst ring_queue_peek_head_mode_clean.simps)
         (auto simp: q_peek_def entries_Cons [OF ne] slot_seq_def split: wait_state.split)
  qed
qed

lemma advance_sim:
  "ring_wf cap s \<Longrightarrow>
   \<exists>s'. ring_queue_advance_dead_head cap (quiet s) = quiet s' \<and>
        ring_wf cap s' \<and> entries cap s' = dropWhile dead (entries cap s)"
proof (induction "ring_len s" arbitrary: s)
  case 0
  then have "queue_head s = queue_tail s" by (metis ring_len_0)
  then show ?case
    using 0 by (subst ring_queue_advance_dead_head.simps) (auto simp: entries_Nil)
next
  case (Suc n)
  then have ne: "queue_head s \<noteq> queue_tail s" by (metis ring_len_0 nat.simps(3))
  show ?case
  proof (cases "slot_seq cap (queue_head s) s = UB_WAIT_TIMEOUT")
    case True
    let ?s = "s\<lparr>queue_head := queue_head s + 1\<rparr>"
    note sk = skip_head_sim [OF Suc.prems ne True]
    have "n = ring_len ?s" using Suc(2) ring_len_Suc_head [OF ne] by simp
    moreover have "ring_queue_advance_dead_head cap (quiet s) = ring_queue_advance_dead_head cap (quiet ?s)"
      using ne True by (subst ring_queue_advance_dead_head.simps) (simp add: skip_head_def)
    ultimately show ?thesis using Suc(1) [OF _ sk(1)] sk(3) by simp
  next
    case False
    then have "dropWhile dead (entries cap s) = entries cap s"
      by (simp add: entries_Cons [OF ne] dead_def slot_seq_def)
    then show ?thesis
      using ne False Suc.prems by (subst ring_queue_advance_dead_head.simps) auto
  qed
qed

lemma init_sim:
  assumes "ring_cap cap"
  shows "ring_wf cap (ring_queue_init cap r0 s)" and "entries cap (ring_queue_init cap r0 s) = []"
  using assms slot_idx_less [OF assms]
  by (simp_all add: ring_wf_def ring_queue_init_def ring_len_def entries_def live_def entry_def slot_at_def)

section \<open>Arrival order\<close>

text \<open>What a client sees of a queue of waiters, and the histories of its use: \<open>a\<close> lists the
  waiters in the order in which they queued up, \<open>n\<close> the waiters in the order in which they
  were notified, \<open>g\<close> those that gave up before they were notified. A client gives up
  only a position of the queue, and only a notified head leaves.\<close>

record ('s, 'w) queue_ops =
  q_abs :: "'s \<Rightarrow> 'w waiter list"
  q_enq :: "ub_lock_mode_t \<Rightarrow> 'w \<Rightarrow> 's \<Rightarrow> bool \<times> 's"
  q_wake :: "'s \<Rightarrow> 'w option \<times> 's"
  q_give_up :: "nat \<Rightarrow> 's \<Rightarrow> 's"
  q_clean :: "'s \<Rightarrow> ub_lock_mode_t option \<times> 's"
  q_leave :: "'s \<Rightarrow> 's"

definition head_notified :: "'w waiter list \<Rightarrow> bool" where
  "head_notified q \<longleftrightarrow> q \<noteq> [] \<and> seq (hd q) = UB_WAIT_NOTIFIED"

definition waiting_ids :: "'w waiter list \<Rightarrow> 'w list" where
  "waiting_ids q = map who (filter (\<lambda>e. seq e = UB_WAIT_WAITING) q)"

inductive history :: "('s, 'w) queue_ops \<Rightarrow> 's \<Rightarrow> 's \<Rightarrow> 'w list \<Rightarrow> 'w list \<Rightarrow> 'w list \<Rightarrow> bool"
  for ops s0 where
  start: "history ops s0 s0 [] [] []"
| arrive: "history ops s0 s a n g \<Longrightarrow> q_enq ops m x s = (True, s') \<Longrightarrow> history ops s0 s' (a @ [x]) n g"
| refuse: "history ops s0 s a n g \<Longrightarrow> q_enq ops m x s = (False, s') \<Longrightarrow> history ops s0 s' a n g"
| notify: "history ops s0 s a n g \<Longrightarrow> q_wake ops s = (Some x, s') \<Longrightarrow> history ops s0 s' a (n @ [x]) g"
| nobody: "history ops s0 s a n g \<Longrightarrow> q_wake ops s = (None, s') \<Longrightarrow> history ops s0 s' a n g"
| give_up: "history ops s0 s a n g \<Longrightarrow> i < length (q_abs ops s) \<Longrightarrow>
    history ops s0 (q_give_up ops i s) a n
      (if seq (q_abs ops s ! i) = UB_WAIT_WAITING then who (q_abs ops s ! i) # g else g)"
| clean: "history ops s0 s a n g \<Longrightarrow> q_clean ops s = (r, s') \<Longrightarrow> history ops s0 s' a n g"
| leave: "history ops s0 s a n g \<Longrightarrow> head_notified (q_abs ops s) \<Longrightarrow> history ops s0 (q_leave ops s) a n g"

text \<open>The laws a queue of waiters promises.\<close>

locale waiter_queue =
  fixes ops :: "('s, 'w) queue_ops" and inv :: "'s \<Rightarrow> bool" and cap :: nat and r0 :: 'w
  assumes enq_law: "inv s \<Longrightarrow> q_enq ops m x s = (b, s') \<Longrightarrow> inv s' \<and>
            (case q_enqueue cap m x (q_abs ops s) of
               None \<Rightarrow> \<not> b \<and> q_abs ops s' = q_abs ops s | Some q \<Rightarrow> b \<and> q_abs ops s' = q)"
    and wake_law: "inv s \<Longrightarrow> q_wake ops s = (y, s') \<Longrightarrow> inv s' \<and>
            (case q_notify (q_abs ops s) of
               None \<Rightarrow> y = None \<and> q_abs ops s' = q_abs ops s
             | Some q \<Rightarrow> y = Some (who (hd q)) \<and> q_abs ops s' = q)"
    and give_up_law: "inv s \<Longrightarrow> i < length (q_abs ops s) \<Longrightarrow>
            inv (q_give_up ops i s) \<and> q_abs ops (q_give_up ops i s) = q_timeout r0 i (q_abs ops s)"
    and clean_law: "inv s \<Longrightarrow> q_clean ops s = (r, s') \<Longrightarrow>
            inv s' \<and> r = q_peek (q_abs ops s) \<and> q_abs ops s' = dropWhile dead (q_abs ops s)"
    and leave_law: "inv s \<Longrightarrow> head_notified (q_abs ops s) \<Longrightarrow>
            inv (q_leave ops s) \<and> q_abs ops (q_leave ops s) = tl (q_abs ops s)"
begin

lemma waiting_enq:
  "q_enqueue cap m x q = Some q' \<Longrightarrow> waiting_ids q' = waiting_ids q @ [x]"
  by (auto simp: q_enqueue_def waiting_ids_def split: if_splits)

lemma waiting_notify:
  "q_notify q = Some q' \<Longrightarrow> waiting_ids q = who (hd q') # waiting_ids q'"
  by (cases q) (auto simp: waiting_ids_def split: if_splits)

lemma waiting_timeout:
  assumes "i < length q"
  shows "\<exists>xs ys. waiting_ids (q_timeout r0 i q) = xs @ ys \<and>
           waiting_ids q = (if seq (q ! i) = UB_WAIT_WAITING then xs @ who (q ! i) # ys else xs @ ys)"
proof -
  let ?ids = "\<lambda>q. map who (filter (\<lambda>e. seq e = UB_WAIT_WAITING) q)"
  have q: "q = take i q @ q ! i # drop (Suc i) q" using assms by (simp add: id_take_nth_drop)
  have "?ids q = ?ids (take i q @ q ! i # drop (Suc i) q)" using q by simp
  moreover have "q[i := e] = take i q @ e # drop (Suc i) q" for e
    using assms by (simp add: upd_conv_take_nth_drop)
  ultimately show ?thesis
    by (intro exI [of _ "?ids (take i q)"] exI [of _ "?ids (drop (Suc i) q)"])
       (auto simp: waiting_ids_def q_timeout_def timeoutable_def)
qed

lemma waiting_clean: "waiting_ids (dropWhile dead q) = waiting_ids q"
  by (induction q) (auto simp: waiting_ids_def dead_def)

lemma waiting_leave: "head_notified q \<Longrightarrow> waiting_ids (tl q) = waiting_ids q"
  by (cases q) (auto simp: waiting_ids_def head_notified_def)

text \<open>Those notified and those still waiting are, in this order, among the arrivals in their
  order; and every arrival was notified, is waiting, or gave up.\<close>

lemma history_inv:
  "history ops s0 s a n g \<Longrightarrow> inv s0 \<Longrightarrow> q_abs ops s0 = [] \<Longrightarrow>
   inv s \<and> subseq (n @ waiting_ids (q_abs ops s)) a \<and>
   mset a = mset n + mset (waiting_ids (q_abs ops s)) + mset g"
proof (induction rule: history.induct)
  case start
  then show ?case by (simp add: waiting_ids_def)
next
  case (arrive s a n g m x s')
  then obtain q where "q_enqueue cap m x (q_abs ops s) = Some q" "q_abs ops s' = q" "inv s'"
    using enq_law [of s m x True s'] by (auto split: option.splits)
  then show ?case
    using arrive waiting_enq [of m x "q_abs ops s" q]
      list_emb_append_mono [of "(=)" "n @ waiting_ids (q_abs ops s)" a "[x]" "[x]"] by simp
next
  case (refuse s a n g m x s')
  then show ?case using enq_law [of s m x False s'] by (auto split: option.splits)
next
  case (notify s a n g x s')
  then obtain q where "q_notify (q_abs ops s) = Some q" "q_abs ops s' = q" "inv s'" "x = who (hd q)"
    using wake_law [of s "Some x" s'] by (auto split: option.splits)
  then show ?case using notify waiting_notify [of "q_abs ops s" q] by simp
next
  case (nobody s a n g s')
  then show ?case using wake_law [of s None s'] by (auto split: option.splits)
next
  case (give_up s a n g i)
  obtain xs ys where w: "waiting_ids (q_timeout r0 i (q_abs ops s)) = xs @ ys"
    "waiting_ids (q_abs ops s) =
       (if seq (q_abs ops s ! i) = UB_WAIT_WAITING then xs @ who (q_abs ops s ! i) # ys else xs @ ys)"
    using waiting_timeout [OF give_up(2)] by blast
  have "subseq (n @ xs @ ys) (n @ waiting_ids (q_abs ops s))"
    unfolding w(2) by (auto intro: list_emb_append_mono)
  then show ?case
    using give_up give_up_law [of s i] w by (auto intro: subseq_order.trans)
next
  case (clean s a n g r s')
  then show ?case using clean_law [of s r s'] by (simp add: waiting_clean)
next
  case (leave s a n g)
  then show ?case using leave_law [of s] by (simp add: waiting_leave)
qed

end

text \<open>The ring as such a queue: each operation runs to its end in a quiet environment.\<close>

definition ring_ops :: "nat \<Rightarrow> 'w \<Rightarrow> (('w, 'z) ring_scheme, 'w) queue_ops" where
  "ring_ops cap r0 = \<lparr>
     q_abs = entries cap,
     q_enq = (\<lambda>m x s. case ring_queue_enqueue cap m x (quiet s) of
                ((r, t), w) \<Rightarrow> (r = UB_LOCK_SUCCESS, st w)),
     q_wake = (\<lambda>s. case ring_queue_outqueue cap (quiet s) of
                ((r, t), w) \<Rightarrow> (map_option (\<lambda>h. who (slot_at cap h (st w))) t, st w)),
     q_give_up = (\<lambda>i s. st (ring_queue_clean_timeout cap r0 (queue_head s + of_nat i) (quiet s))),
     q_clean = (\<lambda>s. case ring_queue_peek_head_mode_clean cap (quiet s) of
                Some (r, w) \<Rightarrow> (r, st w) | None \<Rightarrow> (None, s)),
     q_leave = (\<lambda>s. st (ring_queue_pop_head cap r0 (queue_head s) (quiet s)))\<rparr>"

lemma ring_ops_sel [simp]:
  "q_abs (ring_ops cap r0) = entries cap"
  by (simp add: ring_ops_def)

lemma ring_enq_law:
  assumes "ring_wf cap s" "q_enq (ring_ops cap r0) m x s = (b, s')"
  shows "ring_wf cap s' \<and>
     (case q_enqueue cap m x (entries cap s) of
        None \<Rightarrow> \<not> b \<and> entries cap s' = entries cap s | Some q \<Rightarrow> b \<and> entries cap s' = q)"
  using enqueue_sim [OF assms(1), of m x] assms(2)
  by (auto simp: ring_ops_def split: option.splits)

lemma ring_wake_law:
  assumes wf: "ring_wf cap s" and "q_wake (ring_ops cap r0) s = (y, s')"
  shows "ring_wf cap s' \<and>
     (case q_notify (entries cap s) of
        None \<Rightarrow> y = None \<and> entries cap s' = entries cap s
      | Some q \<Rightarrow> y = Some (who (hd q)) \<and> entries cap s' = q)"
proof (cases "slot_seq cap (queue_head s) s = UB_WAIT_WAITING")
  case True
  let ?s = "set_seq cap (queue_head s) UB_WAIT_NOTIFIED s"
  have ne: "queue_head s \<noteq> queue_tail s" using wf True by (rule ring_wf_head_waiting)
  have eq: "queue_head ?s = queue_head s" "queue_tail ?s = queue_tail s" by (simp_all add: set_seq_def)
  then have "hd (entries cap ?s) = slot_at cap (queue_head s) ?s"
    using ne by (subst entries_Cons) simp_all
  then show ?thesis
    using assms True set_head_sim [OF wf True]
    by (auto simp: ring_ops_def outqueue_quiet [OF ring_wf_cap [OF wf] ring_wf_head_seq [OF wf]] split: option.splits)
next
  case False
  then have "q_notify (entries cap s) = None"
    by (cases "queue_head s = queue_tail s") (simp_all add: entries_Nil entries_Cons slot_seq_def)
  then show ?thesis
    using assms False by (auto simp: ring_ops_def outqueue_quiet [OF ring_wf_cap [OF wf] ring_wf_head_seq [OF wf]])
qed

interpretation rq: waiter_queue "ring_ops cap r0" "ring_wf cap" cap r0
  for cap :: nat and r0 :: 'w
proof unfold_locales
  fix s :: "('w, 'z) ring_scheme" and s' m x b y i r
  assume wf: "ring_wf cap s"
  show "q_enq (ring_ops cap r0) m x s = (b, s') \<Longrightarrow> ring_wf cap s' \<and>
     (case q_enqueue cap m x (q_abs (ring_ops cap r0) s) of
        None \<Rightarrow> \<not> b \<and> q_abs (ring_ops cap r0) s' = q_abs (ring_ops cap r0) s
      | Some q \<Rightarrow> b \<and> q_abs (ring_ops cap r0) s' = q)"
    unfolding ring_ops_sel by (rule ring_enq_law [OF wf])
  show "q_wake (ring_ops cap r0) s = (y, s') \<Longrightarrow> ring_wf cap s' \<and>
     (case q_notify (q_abs (ring_ops cap r0) s) of
        None \<Rightarrow> y = None \<and> q_abs (ring_ops cap r0) s' = q_abs (ring_ops cap r0) s
      | Some q \<Rightarrow> y = Some (who (hd q)) \<and> q_abs (ring_ops cap r0) s' = q)"
    unfolding ring_ops_sel by (rule ring_wake_law [OF wf])
  show "i < length (q_abs (ring_ops cap r0) s) \<Longrightarrow> ring_wf cap (q_give_up (ring_ops cap r0) i s) \<and>
      q_abs (ring_ops cap r0) (q_give_up (ring_ops cap r0) i s) = q_timeout r0 i (q_abs (ring_ops cap r0) s)"
    using clean_timeout_sim [OF wf, of i r0] by (auto simp: ring_ops_def)
  show "q_clean (ring_ops cap r0) s = (r, s') \<Longrightarrow> ring_wf cap s' \<and>
      r = q_peek (q_abs (ring_ops cap r0) s) \<and> q_abs (ring_ops cap r0) s' = dropWhile dead (q_abs (ring_ops cap r0) s)"
    using peek_sim [OF wf] by (auto simp: ring_ops_def)
  show "head_notified (q_abs (ring_ops cap r0) s) \<Longrightarrow> ring_wf cap (q_leave (ring_ops cap r0) s) \<and>
      q_abs (ring_ops cap r0) (q_leave (ring_ops cap r0) s) = tl (q_abs (ring_ops cap r0) s)"
  proof -
    assume h: "head_notified (q_abs (ring_ops cap r0) s)"
    then have ne: "queue_head s \<noteq> queue_tail s" by (auto simp: head_notified_def entries_Nil)
    have "slot_seq cap (queue_head s) s = UB_WAIT_NOTIFIED"
      using h by (simp add: head_notified_def entries_Cons [OF ne] slot_seq_def)
    then show ?thesis using pop_head_sim [OF wf ne, of r0] by (auto simp: ring_ops_def)
  qed
qed

section \<open>The distributed lock's queue\<close>

text \<open>\<open>src/ub_lock/wait_queue.cpp\<close>: the queue of \<open>UB_MAX_NODES\<close> slots in shared memory.\<close>

definition no_location :: ub_location_t where
  "no_location = \<lparr>tid = 0, node_id = 255\<rparr>"

type_synonym 'z lock_shm = "(ub_location_t, 'z) ring_scheme"

definition create_wait_queue :: "'z lock_shm \<Rightarrow> 'z lock_shm" where
  "create_wait_queue s = ring_queue_init UB_MAX_NODES no_location s"

definition enqueue_waiter ::
  "ub_lock_mode_t \<Rightarrow> ub_location_t \<Rightarrow> 'z lock_shm world
   \<Rightarrow> (ub_lock_result_t \<times> u32 option) \<times> 'z lock_shm world" where
  "enqueue_waiter m location w = ring_queue_enqueue UB_MAX_NODES m location w"

definition outqueue_waiter ::
  "'z lock_shm world \<Rightarrow> (ub_lock_result_t \<times> u32 option) \<times> 'z lock_shm world" where
  "outqueue_waiter w = ring_queue_outqueue UB_MAX_NODES w"

definition clean_timeout_waiter :: "u32 \<Rightarrow> 'z lock_shm world \<Rightarrow> 'z lock_shm world" where
  "clean_timeout_waiter ticket w = ring_queue_clean_timeout UB_MAX_NODES no_location ticket w"

definition peek_head_waiting_mode_clean ::
  "'z lock_shm world \<Rightarrow> (ub_lock_mode_t option \<times> 'z lock_shm world) option" where
  "peek_head_waiting_mode_clean w = ring_queue_peek_head_mode_clean UB_MAX_NODES w"

definition clean_outqueue_waiter :: "u32 \<Rightarrow> 'z lock_shm world \<Rightarrow> 'z lock_shm world" where
  "clean_outqueue_waiter ticket w = ring_queue_pop_head UB_MAX_NODES no_location ticket w"

definition wait_queue_ops :: "('z lock_shm, ub_location_t) queue_ops" where
  "wait_queue_ops = \<lparr>
     q_abs = entries UB_MAX_NODES,
     q_enq = (\<lambda>m x s. case enqueue_waiter m x (quiet s) of ((r, t), w) \<Rightarrow> (r = UB_LOCK_SUCCESS, st w)),
     q_wake = (\<lambda>s. case outqueue_waiter (quiet s) of
                ((r, t), w) \<Rightarrow> (map_option (\<lambda>h. who (slot_at UB_MAX_NODES h (st w))) t, st w)),
     q_give_up = (\<lambda>i s. st (clean_timeout_waiter (queue_head s + of_nat i) (quiet s))),
     q_clean = (\<lambda>s. case peek_head_waiting_mode_clean (quiet s) of
                Some (r, w) \<Rightarrow> (r, st w) | None \<Rightarrow> (None, s)),
     q_leave = (\<lambda>s. st (clean_outqueue_waiter (queue_head s) (quiet s)))\<rparr>"

lemma wait_queue_ops_ring: "wait_queue_ops = ring_ops UB_MAX_NODES no_location"
  by (simp add: wait_queue_ops_def ring_ops_def enqueue_waiter_def outqueue_waiter_def
      clean_timeout_waiter_def peek_head_waiting_mode_clean_def clean_outqueue_waiter_def)

lemma ring_cap_nodes: "ring_cap UB_MAX_NODES"
  unfolding ring_cap_def UB_MAX_NODES_def by (rule exI [of _ 4]) simp

text \<open>The effect of a whole peek by another thread, and a sample state.\<close>

definition peek_effect :: "'z lock_shm \<Rightarrow> 'z lock_shm" where
  "peek_effect s = (case peek_head_waiting_mode_clean (quiet s) of Some (r, w) \<Rightarrow> st w | None \<Rightarrow> s)"

definition sample_ring :: "ub_location_t ring" where
  "sample_ring = \<lparr>waiting_count = 7, queue_head = 3, queue_tail = 9, wait_queue = []\<rparr>"

definition stale_ring :: "ub_location_t ring" where
  "stale_ring = \<lparr>waiting_count = 0, queue_head = 16, queue_tail = 16,
     wait_queue = replicate 16 \<lparr>seq = UB_WAIT_TIMEOUT, mode = UB_LOCK_I, who = no_location\<rparr>\<rparr>"

lemma arrive_empty:
  fixes s0 :: "'z lock_shm"
  shows "\<exists>s'. q_enq wait_queue_ops m x (create_wait_queue s0) = (True, s')"
proof -
  obtain b s' where e: "q_enq wait_queue_ops m x (create_wait_queue s0) = (b, s')" by force
  have "q_enqueue UB_MAX_NODES m x (entries UB_MAX_NODES (create_wait_queue s0)) \<noteq> None"
    using init_sim(2) [OF ring_cap_nodes, of no_location s0]
    by (simp add: create_wait_queue_def q_enqueue_def UB_MAX_NODES_def)
  then show ?thesis
    using ring_enq_law [of UB_MAX_NODES "create_wait_queue s0" no_location m x b s'] e
      init_sim(1) [OF ring_cap_nodes, of no_location s0]
    by (auto simp: wait_queue_ops_ring create_wait_queue_def split: option.splits)
qed

lemma stale_ring_wf: "ring_wf UB_MAX_NODES stale_ring"
  using slot_idx_less [OF ring_cap_nodes] ring_cap_nodes
  by (simp add: ring_wf_def stale_ring_def ring_len_def entries_def live_def entry_def slot_at_def
      UB_MAX_NODES_def)

section \<open>A race with an old mark\<close>

text \<open>A peek over timed-out waiters alone empties the ring.\<close>

lemma peek_all_dead:
  "(\<And>i. i < ring_len s \<Longrightarrow> slot_seq cap (queue_head s + of_nat i) s = UB_WAIT_TIMEOUT) \<Longrightarrow>
   ring_queue_peek_head_mode_clean cap (quiet s) = Some (None, quiet (s\<lparr>queue_head := queue_tail s\<rparr>))"
proof (induction "ring_len s" arbitrary: s)
  case 0
  then have "queue_head s = queue_tail s" by (metis ring_len_0)
  then show ?case by (subst ring_queue_peek_head_mode_clean.simps) simp
next
  case (Suc n)
  then have ne: "queue_head s \<noteq> queue_tail s" by (metis ring_len_0 nat.simps(3))
  let ?s = "s\<lparr>queue_head := queue_head s + 1\<rparr>"
  have n: "n = ring_len ?s" using Suc(2) ring_len_Suc_head [OF ne] by simp
  have "slot_seq cap (queue_head ?s + of_nat i) ?s = UB_WAIT_TIMEOUT" if "i < ring_len ?s" for i
    using Suc.prems [of "Suc i"] that n Suc(2) by (simp add: slot_seq_def slot_at_def algebra_simps)
  then have "ring_queue_peek_head_mode_clean cap (quiet ?s) = Some (None, quiet (?s\<lparr>queue_head := queue_tail ?s\<rparr>))"
    by (rule Suc(1) [OF n])
  moreover have "ring_queue_peek_head_mode_clean cap (quiet s) = ring_queue_peek_head_mode_clean cap (quiet ?s)"
    using ne Suc.prems [of 0] Suc(2) by (subst ring_queue_peek_head_mode_clean.simps) (simp add: skip_head_def)
  ultimately show ?case by simp
qed

text \<open>If all waiters in the ring are dead, no slot of the ring has a waiter.\<close>

lemma dead_ring_slots:
  assumes wf: "ring_wf cap s" and gone: "list_all dead (entries cap s)"
  shows "slot_seq cap (queue_head s + of_nat i) s \<in> {UB_WAIT_EMPTY, UB_WAIT_TIMEOUT}"
proof -
  have cap: "ring_cap cap" using wf by (rule ring_wf_cap)
  let ?j = "i mod cap"
  have "slot_idx cap (queue_head s + of_nat i) = slot_idx cap (queue_head s + of_nat ?j)"
    by (simp add: slot_idx_add [OF cap] mod_add_right_eq)
  then have e: "slot_seq cap (queue_head s + of_nat i) s = seq (entry cap s ?j)"
    by (simp add: slot_seq_def slot_at_def entry_def)
  have "?j < cap" using ring_cap_pos [OF cap] by simp
  then show ?thesis
    using wf gone unfolding e
    by (cases "?j < ring_len s") (auto simp: ring_wf_def list_all_length dead_def)
qed

lemma dead_ring_count:
  "ring_wf cap s \<Longrightarrow> list_all dead (entries cap s) \<Longrightarrow> waiting_count s = 0"
  by (simp add: ring_wf_def live_def list_all_iff unat_eq_zero)

text \<open>The state in which the race leaves the ring.\<close>

definition skipped_waiter :: "ub_lock_mode_t \<Rightarrow> ub_location_t \<Rightarrow> 'z lock_shm \<Rightarrow> 'z lock_shm" where
  "skipped_waiter m x s =
     (upd_slot UB_MAX_NODES (queue_tail s) (\<lambda>_. \<lparr>seq = UB_WAIT_WAITING, mode = m, who = x\<rparr>) s)
       \<lparr>queue_tail := queue_tail s + 1, queue_head := queue_tail s + 1, waiting_count := 1\<rparr>"

lemma peek_effect_race:
  assumes wf: "ring_wf UB_MAX_NODES s" and gone: "list_all dead (entries UB_MAX_NODES s)"
    and room: "ring_len s < UB_MAX_NODES"
    and stale: "slot_seq UB_MAX_NODES (queue_tail s) s = UB_WAIT_TIMEOUT"
  shows "peek_effect (s\<lparr>queue_tail := queue_tail s + 1\<rparr>) =
         s\<lparr>queue_tail := queue_tail s + 1, queue_head := queue_tail s + 1\<rparr>"
proof -
  let ?r = "s\<lparr>queue_tail := queue_tail s + 1\<rparr>"
  have "ring_len s + 1 < 2 ^ 32" using room ring_cap_less [OF ring_cap_nodes] by linarith
  then have "unat ((queue_tail s - queue_head s) + 1) = Suc (ring_len s)"
    by (simp add: ring_len_def unat_word_ariths)
  moreover have "(queue_tail s - queue_head s) + 1 = queue_tail s + 1 - queue_head s" by simp
  ultimately have len: "ring_len ?r = Suc (ring_len s)" by (simp add: ring_len_def)
  have "slot_seq UB_MAX_NODES (queue_head ?r + of_nat i) ?r = UB_WAIT_TIMEOUT" if "i < ring_len ?r" for i
  proof (cases "i = ring_len s")
    case True
    then show ?thesis using stale by (simp add: slot_seq_def slot_at_def flip: queue_tail_eq)
  next
    case False
    then have "i < ring_len s" using that len by simp
    then show ?thesis using gone by (simp add: list_all_length dead_def entry_def slot_seq_def slot_at_def)
  qed
  from peek_all_dead [of ?r UB_MAX_NODES, OF this] show ?thesis
    by (simp add: peek_effect_def peek_head_waiting_mode_clean_def)
qed

lemma race_enqueue:
  assumes wf: "ring_wf UB_MAX_NODES s" and gone: "list_all dead (entries UB_MAX_NODES s)"
    and room: "ring_len s < UB_MAX_NODES"
    and stale: "slot_seq UB_MAX_NODES (queue_tail s) s = UB_WAIT_TIMEOUT"
    and w: "w = \<lparr>st = s, script = [Event id False, Event id False, Event id False, Event peek_effect False]\<rparr>"
  shows "enqueue_waiter m x w = ((UB_LOCK_SUCCESS, Some (queue_tail s)), quiet (skipped_waiter m x s))"
proof -
  let ?t = "queue_tail s"
  have "reserve_ticket UB_MAX_NODES w =
      (Some ?t, \<lparr>st = s\<lparr>queue_tail := ?t + 1\<rparr>, script = [Event peek_effect False]\<rparr>)"
    using room by (simp add: w reserve_ticket.simps load_def tick_def cas_weak_def modify_def Let_def ring_len_def)
  moreover have "load (slot_seq UB_MAX_NODES ?t) \<lparr>st = s\<lparr>queue_tail := ?t + 1\<rparr>, script = [Event peek_effect False]\<rparr> =
      (slot_seq UB_MAX_NODES ?t (peek_effect (s\<lparr>queue_tail := ?t + 1\<rparr>)), quiet (peek_effect (s\<lparr>queue_tail := ?t + 1\<rparr>)))"
    by (simp add: load_def tick_def quiet_def)
  ultimately show ?thesis
    using ring_wf_len [OF wf] ring_cap_nodes
    by (simp add: enqueue_waiter_def ring_queue_enqueue_def peek_effect_race [OF wf gone room stale] skipped_waiter_def
        dead_ring_count [OF wf gone] set_seq_def upd_slot_commute upd_slot_upd_slot comp_def waiter_written)
qed

lemma race_aftermath:
  fixes s :: "'z lock_shm" and m m' :: ub_lock_mode_t and x y :: ub_location_t
  assumes wf: "ring_wf UB_MAX_NODES s" and gone: "list_all dead (entries UB_MAX_NODES s)"
    and room: "ring_len s < UB_MAX_NODES"
  defines "s1 \<equiv> skipped_waiter m x s" and "t \<equiv> queue_tail s"
  defines "s2 \<equiv> (upd_slot UB_MAX_NODES (t + 1) (\<lambda>_. \<lparr>seq = UB_WAIT_WAITING, mode = m', who = y\<rparr>) s1)
      \<lparr>queue_tail := t + 1 + 1, waiting_count := 1 + 1\<rparr>"
  shows "outqueue_waiter (quiet s1) = ((UB_LOCK_ERROR, None), quiet s1)"
    and "peek_head_waiting_mode_clean (quiet s1) = Some (None, quiet s1)"
    and "enqueue_waiter m' y (quiet s1) = ((UB_LOCK_SUCCESS, Some (t + 1)), quiet s2)"
    and "outqueue_waiter (quiet s2) = ((UB_LOCK_SUCCESS, Some (t + 1)), quiet (set_seq UB_MAX_NODES (t + 1) UB_WAIT_NOTIFIED s2))"
    and "slot_at UB_MAX_NODES t (set_seq UB_MAX_NODES (t + 1) UB_WAIT_NOTIFIED s2) =
           \<lparr>seq = UB_WAIT_WAITING, mode = m, who = x\<rparr>"
proof -
  have len: "length (wait_queue s) = UB_MAX_NODES" using wf by (rule ring_wf_len)
  have f: "queue_head s1 = t + 1" "queue_tail s1 = t + 1" "waiting_count s1 = 1" "ring_len s1 = 0"
    "length (wait_queue s1) = UB_MAX_NODES"
    by (simp_all add: s1_def t_def skipped_waiter_def ring_len_def len)
  have ne: "slot_idx UB_MAX_NODES t \<noteq> slot_idx UB_MAX_NODES (t + 1)"
    using slot_idx_inj [OF ring_cap_nodes, of 0 1 t] by (simp add: UB_MAX_NODES_def)
  note less = slot_idx_less [OF ring_cap_nodes]
  have "t + 1 = queue_head s + of_nat (ring_len s + 1)" by (simp add: t_def ring_len_def)
  from dead_ring_slots [OF wf gone, of "ring_len s + 1", folded this]
  have "slot_seq UB_MAX_NODES (t + 1) s \<in> {UB_WAIT_EMPTY, UB_WAIT_TIMEOUT}" .
  moreover have "slot_seq UB_MAX_NODES (t + 1) s1 = slot_seq UB_MAX_NODES (t + 1) s"
    using ne by (simp add: s1_def skipped_waiter_def slot_seq_def slot_at_def upd_slot_def flip: t_def)
  ultimately have "slot_seq UB_MAX_NODES (queue_head s1) s1 \<notin> {UB_WAIT_WRITING, UB_WAIT_WAITING}"
    by (auto simp: f)
  then show "outqueue_waiter (quiet s1) = ((UB_LOCK_ERROR, None), quiet s1)"
    by (simp add: outqueue_waiter_def outqueue_quiet [OF ring_cap_nodes])
  show "peek_head_waiting_mode_clean (quiet s1) = Some (None, quiet s1)"
    by (simp add: peek_head_waiting_mode_clean_def ring_queue_peek_head_mode_clean.simps f)
  show "enqueue_waiter m' y (quiet s1) = ((UB_LOCK_SUCCESS, Some (t + 1)), quiet s2)"
    using enqueue_quiet [OF ring_cap_nodes f(5), of m' y] by (simp add: enqueue_waiter_def f s2_def UB_MAX_NODES_def)
  have "slot_seq UB_MAX_NODES (queue_head s2) s2 = UB_WAIT_WAITING"
    using less f by (simp add: s2_def slot_seq_def slot_at_def upd_slot_def)
  then show "outqueue_waiter (quiet s2) = ((UB_LOCK_SUCCESS, Some (t + 1)), quiet (set_seq UB_MAX_NODES (t + 1) UB_WAIT_NOTIFIED s2))"
    by (simp add: outqueue_waiter_def outqueue_quiet [OF ring_cap_nodes]) (simp add: s2_def f)
  show "slot_at UB_MAX_NODES t (set_seq UB_MAX_NODES (t + 1) UB_WAIT_NOTIFIED s2) =
      \<lparr>seq = UB_WAIT_WAITING, mode = m, who = x\<rparr>"
    using ne less len
    by (simp add: set_seq_def s2_def s1_def skipped_waiter_def slot_at_def upd_slot_def flip: t_def)
qed

section \<open>Properties\<close>

text \<open>C2. In every history of whole operations on the distributed lock's wait queue, from
  its creation on and for any number of wraps of the ring, the waiters are notified in the
  order in which they queued up (the notified ones followed by the waiting ones form a
  subsequence of the arrivals), and every arrival has been notified, is waiting, or gave
  up: nobody is lost and nobody is notified twice.\<close>

theorem wait_queue_fifo:
  assumes "history wait_queue_ops (create_wait_queue s0) s a n g"
  shows "subseq (n @ waiting_ids (entries UB_MAX_NODES s)) a \<and>
         mset a = mset n + mset (waiting_ids (entries UB_MAX_NODES s)) + mset g \<and>
         ring_wf UB_MAX_NODES s"
  using rq.history_inv [OF assms [unfolded wait_queue_ops_ring]]
    init_sim [OF ring_cap_nodes, of no_location s0]
  by (simp add: create_wait_queue_def)

theorem wait_queue_fifo_witness:
  "\<exists>s. history wait_queue_ops (create_wait_queue sample_ring) s [\<lparr>tid = 5, node_id = 1\<rparr>] [] [] \<and>
       subseq (waiting_ids (entries UB_MAX_NODES s)) [\<lparr>tid = 5, node_id = 1\<rparr>]"
proof -
  let ?x = "\<lparr>tid = 5, node_id = 1\<rparr>"
  obtain s where "q_enq wait_queue_ops UB_LOCK_X ?x (create_wait_queue sample_ring) = (True, s)"
    using arrive_empty [of UB_LOCK_X ?x sample_ring] by blast
  then have "history wait_queue_ops (create_wait_queue sample_ring) s ([] @ [?x]) [] []"
    by (rule history.arrive [OF history.start])
  then have h: "history wait_queue_ops (create_wait_queue sample_ring) s [?x] [] []" by simp
  with wait_queue_fifo [OF h] show ?thesis by auto
qed

text \<open>C23. A race that lets a waiter be overtaken. The slot that a timed-out waiter leaves behind
  keeps its \<open>TIMEOUT\<close> mark when the head moves past it. Suppose that the ring comes round to such
  a slot, that nobody but timed-out waiters is queued, and that another thread runs
  \<open>peek_head_waiting_mode_clean\<close> after an enqueue reserved the ticket and before it marked the
  slot \<open>WRITING\<close>. Then the head moves past the new ticket. The enqueue succeeds, but
  \<open>outqueue_waiter\<close> and the peek find nobody; a waiter that arrives afterwards gets the next ticket
  and is notified, while the first one still waits.\<close>

theorem enqueue_race_overtakes:
  fixes s :: "'z lock_shm"
  assumes wf: "ring_wf UB_MAX_NODES s" and gone: "list_all dead (entries UB_MAX_NODES s)"
    and room: "ring_len s < UB_MAX_NODES"
    and stale: "slot_seq UB_MAX_NODES (queue_tail s) s = UB_WAIT_TIMEOUT"
    and w: "w = \<lparr>st = s, script = [Event id False, Event id False, Event id False, Event peek_effect False]\<rparr>"
  shows "\<exists>s1 s2 s3. enqueue_waiter m x w = ((UB_LOCK_SUCCESS, Some (queue_tail s)), quiet s1) \<and>
         outqueue_waiter (quiet s1) = ((UB_LOCK_ERROR, None), quiet s1) \<and>
         peek_head_waiting_mode_clean (quiet s1) = Some (None, quiet s1) \<and>
         enqueue_waiter m' y (quiet s1) = ((UB_LOCK_SUCCESS, Some (queue_tail s + 1)), quiet s2) \<and>
         outqueue_waiter (quiet s2) = ((UB_LOCK_SUCCESS, Some (queue_tail s + 1)), quiet s3) \<and>
         slot_at UB_MAX_NODES (queue_tail s) s3 = \<lparr>seq = UB_WAIT_WAITING, mode = m, who = x\<rparr>"
  by (rule exI conjI race_enqueue [OF wf gone room stale w] race_aftermath [OF wf gone room])+

theorem enqueue_race_overtakes_witness:
  "\<exists>s1 s2 s3. enqueue_waiter UB_LOCK_X \<lparr>tid = 5, node_id = 1\<rparr>
       \<lparr>st = stale_ring, script = [Event id False, Event id False, Event id False, Event peek_effect False]\<rparr>
         = ((UB_LOCK_SUCCESS, Some 16), quiet s1) \<and>
     outqueue_waiter (quiet s1) = ((UB_LOCK_ERROR, None), quiet s1) \<and>
     enqueue_waiter UB_LOCK_S \<lparr>tid = 6, node_id = 2\<rparr> (quiet s1) = ((UB_LOCK_SUCCESS, Some 17), quiet s2) \<and>
     outqueue_waiter (quiet s2) = ((UB_LOCK_SUCCESS, Some 17), quiet s3) \<and>
     who (slot_at UB_MAX_NODES 16 s3) = \<lparr>tid = 5, node_id = 1\<rparr>"
proof -
  have stale: "slot_seq UB_MAX_NODES (queue_tail stale_ring) stale_ring = UB_WAIT_TIMEOUT"
    using slot_idx_less [OF ring_cap_nodes, of "queue_tail stale_ring"]
    by (simp add: stale_ring_def slot_seq_def slot_at_def UB_MAX_NODES_def)
  have len: "ring_len stale_ring = 0" by (simp add: ring_len_def stale_ring_def)
  have "list_all dead (entries UB_MAX_NODES stale_ring)" "ring_len stale_ring < UB_MAX_NODES"
    by (simp_all add: len entries_def UB_MAX_NODES_def)
  from enqueue_race_overtakes [OF stale_ring_wf this stale refl, of UB_LOCK_X "\<lparr>tid = 5, node_id = 1\<rparr>"
      UB_LOCK_S "\<lparr>tid = 6, node_id = 2\<rparr>"]
  obtain s1 s2 s3 where r: "enqueue_waiter UB_LOCK_X \<lparr>tid = 5, node_id = 1\<rparr>
       \<lparr>st = stale_ring, script = [Event id False, Event id False, Event id False, Event peek_effect False]\<rparr>
         = ((UB_LOCK_SUCCESS, Some (queue_tail stale_ring)), quiet s1)"
     "outqueue_waiter (quiet s1) = ((UB_LOCK_ERROR, None), quiet s1)"
     "enqueue_waiter UB_LOCK_S \<lparr>tid = 6, node_id = 2\<rparr> (quiet s1) =
        ((UB_LOCK_SUCCESS, Some (queue_tail stale_ring + 1)), quiet s2)"
     "outqueue_waiter (quiet s2) = ((UB_LOCK_SUCCESS, Some (queue_tail stale_ring + 1)), quiet s3)"
     "slot_at UB_MAX_NODES (queue_tail stale_ring) s3 =
        \<lparr>seq = UB_WAIT_WAITING, mode = UB_LOCK_X, who = \<lparr>tid = 5, node_id = 1\<rparr>\<rparr>"
    by blast
  have t: "queue_tail stale_ring = 16" by (simp add: stale_ring_def)
  show ?thesis using r unfolding t by (intro exI [of _ s1] exI [of _ s2] exI [of _ s3]) simp
qed

end
