(* ===== verification/Spin_Lock.thy ===== *)
theory Spin_Lock
  imports Atomic_Prelude
begin

text \<open>
  The distributed spin lock, \<open>src/ub_lock/ub_spin_lock.cpp\<close>. First the operations of
  \<open>SpinLock\<close> and of the C interface as functions in a world of interference; the clock that
  the deadline is compared with is part of the shared state and is advanced by the
  environment. Then the same accesses as a step relation over any number of threads, for
  mutual exclusion. The initialisation protocol lets a waiter take over from an
  initialiser that stays away too long; mutual exclusion is proved for runs without a
  takeover, and a run with one shows two holders.
\<close>

section \<open>State\<close>

record spin_shm =
  init_state :: int
  lock_owner :: u64
  clock :: nat

definition SPIN_INIT_EMPTY :: int where "SPIN_INIT_EMPTY = 0"
definition SPIN_INITING :: int where "SPIN_INITING = 1"
definition SPIN_READY :: int where "SPIN_READY = 2"
definition DEFAULT_SPIN_TIMEOUT_MS :: u64 where "DEFAULT_SPIN_TIMEOUT_MS = 10000"
definition SPIN_YIELD_INTERVAL :: nat where "SPIN_YIELD_INTERVAL = 1024"
definition SPIN_INIT_WAIT_ROUNDS :: nat where "SPIN_INIT_WAIT_ROUNDS = 1024 * 1024"

lemmas spin_consts = SPIN_INIT_EMPTY_def SPIN_INITING_def SPIN_READY_def

definition set_init :: "int \<Rightarrow> spin_shm \<Rightarrow> spin_shm" where
  "set_init v s = s\<lparr>init_state := v\<rparr>"

definition set_owner :: "u64 \<Rightarrow> spin_shm \<Rightarrow> spin_shm" where
  "set_owner v s = s\<lparr>lock_owner := v\<rparr>"

lemma set_simps [simp]:
  "init_state (set_init v s) = v" "lock_owner (set_init v s) = lock_owner s"
  "init_state (set_owner o1 s) = init_state s" "lock_owner (set_owner o1 s) = o1"
  "clock (set_init v s) = clock s" "clock (set_owner o1 s) = clock s"
  by (simp_all add: set_init_def set_owner_def)

section \<open>Operations\<close>

definition is_invalid_node :: "node_t \<Rightarrow> bool" where
  "is_invalid_node n \<longleftrightarrow> unat n \<ge> UB_MAX_NODES"

definition spin_owner_node :: "u64 \<Rightarrow> u32" where
  "spin_owner_node owner = (if owner = LOCK_INVALID_OWNER then of_nat UB_MAX_NODES
                            else ucast (drop_bit 32 owner))"

definition spin_owner_tid :: "u64 \<Rightarrow> tid_t" where
  "spin_owner_tid owner = (if owner = LOCK_INVALID_OWNER then 0 else ucast (owner AND mask 32))"

text \<open>The waiting rounds for another initialiser: whether the lock became ready.\<close>

fun init_wait :: "nat \<Rightarrow> spin_shm world \<Rightarrow> bool \<times> spin_shm world" where
  "init_wait 0 w = (False, w)"
| "init_wait (Suc n) w =
     (let (s, w1) = load init_state w in
      if s = SPIN_READY then (True, w1) else init_wait n w1)"

lemma init_wait_script: "length (script (snd (init_wait n w))) \<le> length (script w)"
proof (induction n arbitrary: w)
  case (Suc n)
  obtain s w1 where l: "load init_state w = (s, w1)" by force
  then have "length (script w1) \<le> length (script w)" by (rule load_script_le)
  then show ?case using Suc [of w1] l by auto
qed simp

lemma init_wait_quiet: "init_wait n (quiet s) = (0 < n \<and> init_state s = SPIN_READY, quiet s)"
  by (induction n) auto

function lock_init :: "spin_shm world \<Rightarrow> spin_shm world" where
  "lock_init w =
     (let (state, w1) = load init_state w in
      if state = SPIN_READY then w1
      else if state = SPIN_INIT_EMPTY \<or> (state \<noteq> SPIN_INITING \<and> state \<noteq> SPIN_READY) then
        let (ok, e, w2) = cas_strong init_state set_init state SPIN_INITING w1 in
        if ok then store (set_init SPIN_READY) (store (set_owner LOCK_INVALID_OWNER) w2)
        else lock_init w2
      else
        let (ready, w2) = init_wait SPIN_INIT_WAIT_ROUNDS w1 in
        if ready then w2
        else let (ok, e, w3) = cas_strong init_state set_init SPIN_INITING SPIN_INIT_EMPTY w2
             in lock_init w3)"
  by auto

lemma lock_init_round:
  assumes "load init_state w = (state, w1)"
  shows "cas_strong init_state set_init state d w1 = (False, e, w2) \<Longrightarrow> length (script w2) < length (script w)"
    and "init_wait n w1 = (False, w2) \<Longrightarrow> cas_strong init_state set_init SPIN_INITING SPIN_INIT_EMPTY w2 = (ok, e, w3)
         \<Longrightarrow> state = SPIN_INITING
         \<Longrightarrow> length (script w3) < length (script w) \<or>
             script w3 = script w \<and> init_state (st w) = SPIN_INITING \<and> init_state (st w3) \<noteq> SPIN_INITING"
proof -
  have s1: "script w1 = tl (script w)" using assms by (simp add: load_script)
  show "length (script w2) < length (script w)" if c: "cas_strong init_state set_init state d w1 = (False, e, w2)"
  proof (cases "script w")
    case Nil
    then obtain s where "w = quiet s" by (metis quiet_eq)
    then show ?thesis using assms c by (auto split: if_splits)
  next
    case (Cons ev es)
    then show ?thesis using s1 cas_strong_script [OF c] by simp
  qed
  assume i: "init_wait n w1 = (False, w2)" and c: "cas_strong init_state set_init SPIN_INITING SPIN_INIT_EMPTY w2 = (ok, e, w3)"
    and st: "state = SPIN_INITING"
  show "length (script w3) < length (script w) \<or>
        script w3 = script w \<and> init_state (st w) = SPIN_INITING \<and> init_state (st w3) \<noteq> SPIN_INITING"
  proof (cases "script w")
    case Nil
    then obtain s where "w = quiet s" by (metis quiet_eq)
    then show ?thesis using assms i c st by (auto simp: init_wait_quiet spin_consts split: if_splits)
  next
    case (Cons ev es)
    have "length (script w2) \<le> length (script w1)" using init_wait_script [of n w1] i by simp
    then show ?thesis using s1 cas_strong_script [OF c] Cons by (intro disjI1) simp
  qed
qed

termination lock_init
proof (relation "measures [\<lambda>w. length (script w), \<lambda>w. if init_state (st w) = SPIN_INITING then 1 else 0]", goal_cases)
  case 1
  then show ?case by simp
next
  case (2 w x state w1 xa ok y e w2)
  then show ?case using lock_init_round(1) [of w state w1 SPIN_INITING e w2] by simp
next
  case (3 w x state w1 xa ready w2 xb ok y e w3)
  then show ?case
    using lock_init_round(2) [of w state w1 SPIN_INIT_WAIT_ROUNDS w2 ok e w3] by auto
qed

definition is_ready :: "spin_shm world \<Rightarrow> bool \<times> spin_shm world" where
  "is_ready w = (let (s, w1) = load init_state w in (s = SPIN_READY, w1))"

text \<open>Of the report of a timeout only the access to shared memory is modelled, not the text of
  the log.\<close>

definition dump_spin_timeout_info :: "spin_shm world \<Rightarrow> spin_shm world" where
  "dump_spin_timeout_info w = snd (load lock_owner w)"

text \<open>The acquisition loop. It answers \<open>None\<close> when it spins for ever: nobody will release the
  lock and the clock does not reach the deadline.\<close>

function lock_loop ::
  "u64 \<Rightarrow> int \<Rightarrow> u32 \<Rightarrow> spin_shm world \<Rightarrow> (ub_lock_result_t \<times> spin_shm world) option" where
  "lock_loop identify deadline spin_round w =
     (let (ok, e, w1) = cas_weak lock_owner set_owner LOCK_INVALID_OWNER identify w in
      if ok then Some (UB_LOCK_SUCCESS, w1)
      else if unat (spin_round + 1) mod SPIN_YIELD_INTERVAL = 0 then
        let (now, w2) = load clock w1 in
        if int now \<ge> deadline then Some (UB_LOCK_TIMEOUT, dump_spin_timeout_info w2)
        else if script w = [] then None
        else lock_loop identify deadline (spin_round + 1) w2
      else if script w = [] \<and> int (clock (st w)) < deadline then None
      else lock_loop identify deadline (spin_round + 1) w1)"
  by auto

lemma unat_Suc_mod: "unat ((r :: u32) + 1) mod SPIN_YIELD_INTERVAL = Suc (unat r) mod SPIN_YIELD_INTERVAL"
  by (simp add: SPIN_YIELD_INTERVAL_def unat_word_ariths mod_mod_cancel)

lemma lock_round_measure:
  assumes "unat ((r :: u32) + 1) mod SPIN_YIELD_INTERVAL \<noteq> 0"
  shows "SPIN_YIELD_INTERVAL - unat (r + 1) mod SPIN_YIELD_INTERVAL <
         SPIN_YIELD_INTERVAL - unat r mod SPIN_YIELD_INTERVAL"
  using assms unfolding unat_Suc_mod
  by (simp add: mod_Suc SPIN_YIELD_INTERVAL_def split: if_splits)

termination lock_loop
proof (relation "measures [\<lambda>(i, d, r, w). length (script w),
    \<lambda>(i, d, r, w). SPIN_YIELD_INTERVAL - unat r mod SPIN_YIELD_INTERVAL]", goal_cases)
  case 1
  then show ?case by simp
next
  case (2 i d r w x ok y e w1 z now w2)
  then have c: "cas_weak lock_owner set_owner LOCK_INVALID_OWNER i w = (ok, e, w1)"
    and l: "load clock w1 = (now, w2)" and ne: "script w \<noteq> []"
    by simp_all
  have "script w2 = tl (tl (script w))" using cas_weak_script [OF c] load_script [OF l] by simp
  with ne have "length (script w2) < length (script w)" by (cases "script w") simp_all
  then show ?case unfolding in_measures prod.case by blast
next
  case (3 i d r w x ok y e w1)
  then have c: "cas_weak lock_owner set_owner LOCK_INVALID_OWNER i w = (ok, e, w1)" by simp
  have "length (script w1) < length (script w) \<or> script w1 = script w"
    using cas_weak_script [OF c] by (cases "script w") simp_all
  moreover have "SPIN_YIELD_INTERVAL - unat (r + 1) mod SPIN_YIELD_INTERVAL <
      SPIN_YIELD_INTERVAL - unat r mod SPIN_YIELD_INTERVAL"
    using 3 by (intro lock_round_measure) simp
  ultimately show ?case unfolding in_measures prod.case by auto
qed

text \<open>The deadline is kept in nanoseconds, as the steady clock is, in a signed 64-bit number:
  the unsigned timeout is read as signed milliseconds, and an overflow is taken to wrap
  around. (The standard leaves the overflow undefined; it occurs for timeouts between
  about 292 years and \<open>2 ^ 64\<close> milliseconds less 292 years.)\<close>

definition spin_deadline :: "nat \<Rightarrow> u64 \<Rightarrow> int" where
  "spin_deadline now timeout_ms =
     (let effective = (if timeout_ms = 0 then DEFAULT_SPIN_TIMEOUT_MS else timeout_ms)
      in sint (word_of_int (int now + sint effective * 1000000) :: u64))"

definition spin_lock ::
  "u64 \<Rightarrow> ub_location_t \<Rightarrow> spin_shm world \<Rightarrow> (ub_lock_result_t \<times> spin_shm world) option" where
  "spin_lock timeout_ms location w =
     (if is_invalid_node (node_id location) then Some (UB_LOCK_ERROR, w)
      else let (ready, w1) = is_ready w in
      if \<not> ready then Some (UB_LOCK_ERROR, w1)
      else let identify = make_global_owner (node_id location) (tid location);
               (owner, w2) = load lock_owner w1 in
      if owner = identify then Some (UB_LOCK_ERROR, w2)
      else let (now, w3) = load clock w2
           in lock_loop identify (spin_deadline now timeout_ms) 0 w3)"

definition spin_unlock :: "ub_location_t \<Rightarrow> spin_shm world \<Rightarrow> ub_lock_result_t \<times> spin_shm world" where
  "spin_unlock location w =
     (if is_invalid_node (node_id location) then (UB_LOCK_ERROR, w)
      else let (ready, w1) = is_ready w in
      if \<not> ready then (UB_LOCK_ERROR, w1)
      else let identify = make_global_owner (node_id location) (tid location);
               (owner, w2) = load lock_owner w1 in
      if owner \<noteq> identify then (UB_LOCK_ERROR, w2)
      else let (ok, e, w3) = cas_strong lock_owner set_owner identify LOCK_INVALID_OWNER w2
           in (if ok then UB_LOCK_SUCCESS else UB_LOCK_ERROR, w3))"

text \<open>The C interface; \<open>None\<close> as a lock or location is the null pointer.\<close>

definition ub_spin_lock_init :: "spin_shm world option \<Rightarrow> spin_shm world option" where
  "ub_spin_lock_init lock = map_option lock_init lock"

definition ub_spin_lock ::
  "spin_shm world option \<Rightarrow> u64 \<Rightarrow> ub_location_t option
   \<Rightarrow> (ub_lock_result_t \<times> spin_shm world option) option" where
  "ub_spin_lock lock timeout_ms location =
     (case (lock, location) of
        (Some w, Some l) \<Rightarrow> map_option (\<lambda>(r, w'). (r, Some w')) (spin_lock timeout_ms l w)
      | _ \<Rightarrow> Some (UB_LOCK_ERROR, lock))"

definition ub_spin_unlock ::
  "spin_shm world option \<Rightarrow> ub_location_t option \<Rightarrow> ub_lock_result_t \<times> spin_shm world option" where
  "ub_spin_unlock lock location =
     (case (lock, location) of
        (Some w, Some l) \<Rightarrow> (let (r, w') = spin_unlock l w in (r, Some w'))
      | _ \<Rightarrow> (UB_LOCK_ERROR, lock))"

declare lock_loop.simps [simp del] lock_init.simps [simp del]

section \<open>Behaviour of the operations\<close>

lemma env_only_end: "env_only w w' \<Longrightarrow> fold act (script w') (st w') = fold act (script w) (st w)"
  by (auto simp: env_only_def)

text \<open>The caller took the free lock, or wrote nothing.\<close>

definition took_or_left :: "u64 \<Rightarrow> spin_shm world \<Rightarrow> ub_lock_result_t \<Rightarrow> spin_shm world \<Rightarrow> bool" where
  "took_or_left identify w res w' \<longleftrightarrow>
     (if res = UB_LOCK_SUCCESS
      then \<exists>w1. env_only w w1 \<and> lock_owner (st w1) = LOCK_INVALID_OWNER \<and> w' = modify (set_owner identify) w1
      else env_only w w')"

lemma took_or_left_trans: "env_only w w1 \<Longrightarrow> took_or_left i w1 res w' \<Longrightarrow> took_or_left i w res w'"
  unfolding took_or_left_def by (metis env_only_trans)

lemma lock_loop_outcome:
  "lock_loop identify deadline r w = Some (res, w') \<Longrightarrow> took_or_left identify w res w'"
proof (induction identify deadline r w rule: lock_loop.induct)
  case (1 identify deadline r w)
  obtain ok e w1 where c: "cas_weak lock_owner set_owner LOCK_INVALID_OWNER identify w = (ok, e, w1)"
    by (metis prod_cases3)
  obtain now w2 where l: "load clock w1 = (now, w2)" by force
  obtain ow w3 where d: "load lock_owner w2 = (ow, w3)" by force
  show ?case
  proof (cases ok)
    case True
    then show ?thesis
      using 1(3) c cas_weak_ok [of lock_owner set_owner LOCK_INVALID_OWNER identify w e w1]
      by (simp add: lock_loop.simps [of identify deadline r w] took_or_left_def)
  next
    case False
    then have p1: "env_only w w1" using c by (metis env_only_cas_weak)
    then have p: "env_only w w2" using env_only_load [OF l] by (rule env_only_trans)
    then have p3: "env_only w w3" using env_only_load [OF d] by (rule env_only_trans)
    show ?thesis
      using "1.IH" [OF c [symmetric] refl refl] 1(3) False p3
      by (subst (asm) lock_loop.simps [of identify deadline r w])
        (auto simp: c l d dump_spin_timeout_info_def took_or_left_def [of _ _ UB_LOCK_TIMEOUT] split: if_splits
          intro: took_or_left_trans [OF p1] took_or_left_trans [OF p])
  qed
qed

lemma lock_loop_returns:
  "deadline \<le> int (clock (fold act (script w) (st w))) \<Longrightarrow> \<exists>res w'. lock_loop identify deadline r w = Some (res, w')"
proof (induction identify deadline r w rule: lock_loop.induct)
  case (1 identify deadline r w)
  obtain ok e w1 where c: "cas_weak lock_owner set_owner LOCK_INVALID_OWNER identify w = (ok, e, w1)"
    by (metis prod_cases3)
  obtain now w2 where l: "load clock w1 = (now, w2)" by force
  show ?case
  proof (cases ok)
    case True
    then show ?thesis by (simp add: c lock_loop.simps [of identify deadline r w])
  next
    case False
    then have p1: "env_only w w1" using c by (metis env_only_cas_weak)
    have p: "env_only w w2" using p1 env_only_load [OF l] by (rule env_only_trans)
    have "int now \<ge> deadline" if "script w = []"
    proof -
      have "script w1 = []" "script w2 = []"
        using that cas_weak_script [OF c] load_script [OF l] by simp_all
      then have "st w2 = st w" using p that by (simp add: env_only_def)
      then show ?thesis using 1(3) that load_script [OF l] by simp
    qed
    then show ?thesis
      using "1.IH" [OF c [symmetric] refl refl False] 1(3) False env_only_end [OF p1] env_only_end [OF p] l
      by (subst lock_loop.simps [of identify deadline r w]) (auto simp: c Let_def)
  qed
qed

section \<open>Interleavings\<close>

text \<open>The accesses of \<open>lock_init\<close>, \<open>lock\<close> and \<open>unlock\<close> as steps of threads. A thread is named
  by its identity word; \<open>tk\<close> says whether a waiting initialiser may take over (line 83 of
  the source). A thread that holds the lock may call \<open>lock\<close> as well as \<open>unlock\<close>; the flag of a
  location inside a call says whether the thread held the lock when it called. A call that
  fails its first check does not move.\<close>

datatype spin_pc =
    Idle
  | Checked bool
  | Spinning bool
  | Holding
  | Unlock_ready bool
  | Releasing bool
  | Init_seen int
  | Init_won
  | Init_owner_written
  | Init_waiting

record spin_sys =
  g_init :: int
  g_owner :: u64
  g_pc :: "u64 \<Rightarrow> spin_pc"

definition spin_thread :: "u64 \<Rightarrow> bool" where
  "spin_thread t \<longleftrightarrow> (\<exists>n i. \<not> is_invalid_node n \<and> t = make_global_owner n i)"

definition goto :: "u64 \<Rightarrow> spin_pc \<Rightarrow> spin_sys \<Rightarrow> spin_sys" where
  "goto t l c = c\<lparr>g_pc := (g_pc c)(t := l)\<rparr>"

abbreviation resume_pc :: "bool \<Rightarrow> spin_pc" where
  "resume_pc h \<equiv> (if h then Holding else Idle)"

inductive spin_step :: "bool \<Rightarrow> spin_sys \<Rightarrow> spin_sys \<Rightarrow> bool" for tk where
  lock_ready: "spin_thread t \<Longrightarrow> g_pc c t = resume_pc h \<Longrightarrow> g_init c = SPIN_READY
    \<Longrightarrow> spin_step tk c (goto t (Checked h) c)"
| lock_start: "g_pc c t = Checked h \<Longrightarrow> g_owner c \<noteq> t \<Longrightarrow> spin_step tk c (goto t (Spinning h) c)"
| lock_recursive: "g_pc c t = Checked h \<Longrightarrow> g_owner c = t \<Longrightarrow> spin_step tk c (goto t (resume_pc h) c)"
| lock_acquire: "g_pc c t = Spinning h \<Longrightarrow> g_owner c = LOCK_INVALID_OWNER
    \<Longrightarrow> spin_step tk c (goto t Holding (c\<lparr>g_owner := t\<rparr>))"
| lock_timeout: "g_pc c t = Spinning h \<Longrightarrow> spin_step tk c (goto t (resume_pc h) c)"
| unlock_ready: "spin_thread t \<Longrightarrow> g_pc c t = resume_pc h \<Longrightarrow> g_init c = SPIN_READY
    \<Longrightarrow> spin_step tk c (goto t (Unlock_ready h) c)"
| unlock_own: "g_pc c t = Unlock_ready h \<Longrightarrow> g_owner c = t \<Longrightarrow> spin_step tk c (goto t (Releasing h) c)"
| unlock_foreign: "g_pc c t = Unlock_ready h \<Longrightarrow> g_owner c \<noteq> t \<Longrightarrow> spin_step tk c (goto t (resume_pc h) c)"
| unlock_release: "g_pc c t = Releasing h \<Longrightarrow> g_owner c = t
    \<Longrightarrow> spin_step tk c (goto t Idle (c\<lparr>g_owner := LOCK_INVALID_OWNER\<rparr>))"
| unlock_changed: "g_pc c t = Releasing h \<Longrightarrow> g_owner c \<noteq> t \<Longrightarrow> spin_step tk c (goto t (resume_pc h) c)"
| init_load: "spin_thread t \<Longrightarrow> g_pc c t = Idle \<Longrightarrow> g_init c \<noteq> SPIN_READY \<Longrightarrow> g_init c \<noteq> SPIN_INITING
    \<Longrightarrow> spin_step tk c (goto t (Init_seen (g_init c)) c)"
| init_win: "g_pc c t = Init_seen v \<Longrightarrow> g_init c = v
    \<Longrightarrow> spin_step tk c (goto t Init_won (c\<lparr>g_init := SPIN_INITING\<rparr>))"
| init_lose: "g_pc c t = Init_seen v \<Longrightarrow> g_init c \<noteq> v \<Longrightarrow> spin_step tk c (goto t Idle c)"
| init_owner: "g_pc c t = Init_won
    \<Longrightarrow> spin_step tk c (goto t Init_owner_written (c\<lparr>g_owner := LOCK_INVALID_OWNER\<rparr>))"
| init_ready: "g_pc c t = Init_owner_written
    \<Longrightarrow> spin_step tk c (goto t Idle (c\<lparr>g_init := SPIN_READY\<rparr>))"
| init_wait: "spin_thread t \<Longrightarrow> g_pc c t = Idle \<Longrightarrow> g_init c = SPIN_INITING
    \<Longrightarrow> spin_step tk c (goto t Init_waiting c)"
| init_done: "g_pc c t = Init_waiting \<Longrightarrow> g_init c \<noteq> SPIN_INITING \<Longrightarrow> spin_step tk c (goto t Idle c)"
| init_takeover: "tk \<Longrightarrow> g_pc c t = Init_waiting \<Longrightarrow> g_init c = SPIN_INITING
    \<Longrightarrow> spin_step tk c (goto t Idle (c\<lparr>g_init := SPIN_INIT_EMPTY\<rparr>))"

definition spin_start :: "spin_sys \<Rightarrow> bool" where
  "spin_start c \<longleftrightarrow> g_init c \<noteq> SPIN_READY \<and> (\<forall>t. g_pc c t = Idle)"

fun holder :: "spin_pc \<Rightarrow> bool" where
  "holder (Checked h) = h"
| "holder (Spinning h) = h"
| "holder Holding = True"
| "holder (Unlock_ready h) = h"
| "holder (Releasing h) = True"
| "holder _ = False"

fun using_lock :: "spin_pc \<Rightarrow> bool" where
  "using_lock (Checked h) = True"
| "using_lock (Spinning h) = True"
| "using_lock Holding = True"
| "using_lock (Unlock_ready h) = True"
| "using_lock (Releasing h) = True"
| "using_lock _ = False"

fun initialising :: "spin_pc \<Rightarrow> bool" where
  "initialising Init_won = True"
| "initialising Init_owner_written = True"
| "initialising _ = False"

text \<open>What holds of a thread at location \<open>l\<close>, given the two shared words.\<close>

definition pc_ok :: "int \<Rightarrow> u64 \<Rightarrow> u64 \<Rightarrow> spin_pc \<Rightarrow> bool" where
  "pc_ok i w t l \<longleftrightarrow>
     (l \<noteq> Idle \<longrightarrow> spin_thread t) \<and>
     (i \<noteq> SPIN_READY \<longrightarrow> \<not> using_lock l) \<and>
     (i = SPIN_READY \<longrightarrow> (holder l \<longleftrightarrow> w = t \<and> spin_thread t)) \<and>
     (initialising l \<longrightarrow> i = SPIN_INITING) \<and>
     (\<forall>v. l = Init_seen v \<longrightarrow> v \<noteq> SPIN_READY \<and> v \<noteq> SPIN_INITING) \<and>
     (l = Init_owner_written \<longrightarrow> w = LOCK_INVALID_OWNER)"

definition spin_inv :: "spin_sys \<Rightarrow> bool" where
  "spin_inv c \<longleftrightarrow>
     (\<forall>t. pc_ok (g_init c) (g_owner c) t (g_pc c t)) \<and>
     (\<forall>t u. initialising (g_pc c t) \<longrightarrow> initialising (g_pc c u) \<longrightarrow> t = u)"

lemma spin_thread_valid: "spin_thread t \<Longrightarrow> t \<noteq> LOCK_INVALID_OWNER"
  by (auto simp: spin_thread_def is_invalid_node_def not_le intro!: make_global_owner_valid node_lt_16_valid)

lemma goto_simps [simp]:
  "g_init (goto t l c) = g_init c" "g_owner (goto t l c) = g_owner c" "g_pc (goto t l c) = (g_pc c)(t := l)"
  by (simp_all add: goto_def)

lemma spin_inv_start: "spin_start c \<Longrightarrow> spin_inv c"
  by (simp add: spin_start_def spin_inv_def pc_ok_def)

lemma holder_using: "holder l \<Longrightarrow> using_lock l"
  by (cases l) auto

text \<open>A step that moves thread \<open>t\<close> and leaves the others as they are.\<close>

lemma spin_inv_goto:
  assumes "spin_inv c" and "pc_ok (g_init c') (g_owner c') t l"
    and "g_pc c' = g_pc c"
    and "\<And>u. u \<noteq> t \<Longrightarrow> pc_ok (g_init c) (g_owner c) u (g_pc c u) \<Longrightarrow> pc_ok (g_init c') (g_owner c') u (g_pc c u)"
    and "initialising l \<Longrightarrow> initialising (g_pc c t) \<or> (\<forall>u. \<not> initialising (g_pc c u))"
  shows "spin_inv (goto t l c')"
  using assms unfolding spin_inv_def by (auto split: if_splits)

lemma spin_inv_pc: "spin_inv c \<Longrightarrow> g_pc c t = l \<Longrightarrow> pc_ok (g_init c) (g_owner c) t l"
  by (auto simp: spin_inv_def)

lemma no_initialiser: "spin_inv c \<Longrightarrow> g_init c \<noteq> SPIN_INITING \<Longrightarrow> \<not> initialising (g_pc c u)"
  by (simp add: spin_inv_def pc_ok_def)

lemma ready_not_initing: "SPIN_READY \<noteq> SPIN_INITING"
  by (simp add: spin_consts)

lemma spin_inv_step: "spin_step False c c' \<Longrightarrow> spin_inv c \<Longrightarrow> spin_inv c'"
proof (induction rule: spin_step.induct)
  case (lock_acquire c t h)
  note ok = spin_inv_pc [OF lock_acquire(3) lock_acquire(1)]
  then have t: "spin_thread t" by (simp add: pc_ok_def)
  show ?case
    using lock_acquire ok spin_thread_valid [OF t] ready_not_initing
    by (intro spin_inv_goto [of c]) (auto simp: pc_ok_def dest: spin_thread_valid)
next
  case (unlock_release c t h)
  note ok = spin_inv_pc [OF unlock_release(3) unlock_release(1)]
  then show ?case
    using unlock_release
    by (intro spin_inv_goto [of c]) (auto simp: pc_ok_def dest: spin_thread_valid)
next
  case (init_win c t v)
  note ok = spin_inv_pc [OF init_win(3) init_win(1)]
  then have v: "v \<noteq> SPIN_READY" "v \<noteq> SPIN_INITING" by (simp_all add: pc_ok_def)
  show ?case
    using init_win ok v no_initialiser [OF init_win(3)] ready_not_initing
    by (intro spin_inv_goto [of c]) (auto simp: pc_ok_def)
next
  case (init_owner c t)
  note ok = spin_inv_pc [OF init_owner(2) init_owner(1)]
  have "g_pc c u \<noteq> Init_owner_written" if "u \<noteq> t" for u
    using init_owner that unfolding spin_inv_def by (metis initialising.simps(1,2))
  then show ?case
    using init_owner ok ready_not_initing by (intro spin_inv_goto [of c]) (auto simp: pc_ok_def)
next
  case (init_ready c t)
  note ok = spin_inv_pc [OF init_ready(2) init_ready(1)]
  then have w: "g_owner c = LOCK_INVALID_OWNER" "g_init c \<noteq> SPIN_READY"
    using ready_not_initing by (auto simp: pc_ok_def)
  have "\<not> initialising (g_pc c u)" if "u \<noteq> t" for u
    using init_ready that unfolding spin_inv_def by (metis initialising.simps(2))
  then show ?case
    using init_ready ok w by (intro spin_inv_goto [of c]) (auto simp: pc_ok_def holder_using dest: spin_thread_valid holder_using)
next
  case (unlock_ready t c h)
  then show ?case
    using spin_inv_pc [OF unlock_ready(4,2)]
    by (intro spin_inv_goto [of c]) (auto simp: pc_ok_def split: if_splits)
next
  case (unlock_foreign c t h)
  then show ?case
    using spin_inv_pc [OF unlock_foreign(3,1)]
    by (intro spin_inv_goto [of c]) (auto simp: pc_ok_def split: if_splits)
next
  case (unlock_changed c t h)
  then show ?case
    using spin_inv_pc [OF unlock_changed(3,1)]
    by (intro spin_inv_goto [of c]) (auto simp: pc_ok_def split: if_splits)
next
  case (unlock_own c t h)
  then show ?case
    using spin_inv_pc [OF unlock_own(3,1)] by (intro spin_inv_goto [of c]) (auto simp: pc_ok_def)
next
  case (lock_ready t c h)
  then show ?case
    using spin_inv_pc [OF lock_ready(4,2)]
    by (intro spin_inv_goto [of c]) (auto simp: pc_ok_def split: if_splits)
next
  case (lock_start c t h)
  then show ?case
    using spin_inv_pc [OF lock_start(3,1)] by (intro spin_inv_goto [of c]) (auto simp: pc_ok_def)
next
  case (lock_recursive c t h)
  then show ?case
    using spin_inv_pc [OF lock_recursive(3,1)]
    by (intro spin_inv_goto [of c]) (auto simp: pc_ok_def split: if_splits)
next
  case (lock_timeout c t h)
  then show ?case
    using spin_inv_pc [OF lock_timeout(2,1)]
    by (intro spin_inv_goto [of c]) (auto simp: pc_ok_def split: if_splits)
qed (force intro!: spin_inv_goto simp: pc_ok_def dest: spin_inv_pc)+

lemma spin_inv_reach: "(spin_step False)\<^sup>*\<^sup>* c c' \<Longrightarrow> spin_inv c \<Longrightarrow> spin_inv c'"
  by (induction rule: rtranclp_induct) (auto dest: spin_inv_step)

definition sample_sys :: spin_sys where
  "sample_sys = \<lparr>g_init = SPIN_INIT_EMPTY, g_owner = 77, g_pc = (\<lambda>_. Idle)\<rparr>"

lemma sample_start: "spin_start sample_sys"
  by (simp add: spin_start_def sample_sys_def spin_consts)

lemma spin_thread_node: "unat n < 16 \<Longrightarrow> spin_thread (make_global_owner n i)"
  by (auto simp: spin_thread_def is_invalid_node_def UB_MAX_NODES_def intro!: exI [of _ n])

lemma unlock_outcome:
  "spin_unlock location w = (res, w') \<Longrightarrow>
   (if res = UB_LOCK_SUCCESS
    then \<exists>w1. env_only w w1 \<and> lock_owner (st w1) = make_global_owner (node_id location) (tid location)
            \<and> w' = modify (set_owner LOCK_INVALID_OWNER) w1
    else env_only w w')"
proof -
  let ?i = "make_global_owner (node_id location) (tid location)"
  assume u: "spin_unlock location w = (res, w')"
  obtain rs w1 where l1: "load init_state w = (rs, w1)" by force
  obtain ow w2 where l2: "load lock_owner w1 = (ow, w2)" by force
  obtain ok e w3 where c: "cas_strong lock_owner set_owner ?i LOCK_INVALID_OWNER w2 = (ok, e, w3)"
    by (metis prod_cases3)
  have p1: "env_only w w1" using l1 by (rule env_only_load)
  then have p2: "env_only w w2" using env_only_load [OF l2] by (rule env_only_trans)
  show ?thesis
  proof (cases ok)
    case True
    then obtain w0 where "env_only w2 w0" and w0: "lock_owner (st w0) = ?i"
        "w3 = modify (set_owner LOCK_INVALID_OWNER) w0"
      using cas_strong_ok [of lock_owner set_owner ?i LOCK_INVALID_OWNER w2 e w3] c by auto
    then have "env_only w w0" using p2 by (metis env_only_trans)
    then show ?thesis
      using u p1 p2 True w0 by (auto simp: spin_unlock_def is_ready_def l1 l2 c Let_def split: if_splits)
  next
    case False
    with c have "cas_strong lock_owner set_owner ?i LOCK_INVALID_OWNER w2 = (False, e, w3)" by simp
    then have "env_only w w3" by (rule env_only_trans [OF p2 env_only_cas_strong])
    then show ?thesis
      using u p1 p2 False by (auto simp: spin_unlock_def is_ready_def l1 l2 c Let_def split: if_splits)
  qed
qed

lemma lock_outcome:
  assumes "spin_lock timeout_ms location w = Some (res, w')"
  shows "took_or_left (make_global_owner (node_id location) (tid location)) w res w' \<and>
         (res = UB_LOCK_SUCCESS \<longrightarrow> \<not> is_invalid_node (node_id location))"
proof -
  let ?i = "make_global_owner (node_id location) (tid location)"
  obtain rs w1 where l1: "load init_state w = (rs, w1)" by force
  obtain ow w2 where l2: "load lock_owner w1 = (ow, w2)" by force
  obtain now w3 where l3: "load clock w2 = (now, w3)" by force
  have p1: "env_only w w1" using l1 by (rule env_only_load)
  then have p2: "env_only w w2" using env_only_load [OF l2] by (rule env_only_trans)
  then have p3: "env_only w w3" using env_only_load [OF l3] by (rule env_only_trans)
  have "took_or_left ?i w UB_LOCK_ERROR x" if "env_only w x" for x
    using that by (simp add: took_or_left_def)
  then show ?thesis
    using assms p1 p2 took_or_left_trans [OF p3]
    by (auto simp: spin_lock_def is_ready_def l1 l2 l3 Let_def split: if_splits dest: lock_loop_outcome)
qed

text \<open>The initialiser that stays away: \<open>A\<close> wins the initialisation and stalls, \<open>B\<close> takes over,
  initialises and locks, then \<open>A\<close> finishes its initialisation and locks as well.\<close>

definition thread_A :: u64 where "thread_A = make_global_owner 0 1"
definition thread_B :: u64 where "thread_B = make_global_owner 1 1"

lemma threads_distinct: "thread_A \<noteq> thread_B" "spin_thread thread_A" "spin_thread thread_B"
    "thread_A \<noteq> LOCK_INVALID_OWNER" "thread_B \<noteq> LOCK_INVALID_OWNER"
  by (simp_all add: thread_A_def thread_B_def spin_thread_node spin_thread_valid)

definition two :: "int \<Rightarrow> u64 \<Rightarrow> spin_pc \<Rightarrow> spin_pc \<Rightarrow> spin_sys" where
  "two i w a b = \<lparr>g_init = i, g_owner = w, g_pc = (\<lambda>_. Idle)(thread_A := a, thread_B := b)\<rparr>"

lemma two_simps [simp]:
  "g_init (two i w a b) = i" "g_owner (two i w a b) = w"
  "g_pc (two i w a b) thread_A = a" "g_pc (two i w a b) thread_B = b"
  "goto thread_A l (two i w a b) = two i w l b" "goto thread_B l (two i w a b) = two i w a l"
  "(two i w a b)\<lparr>g_owner := w'\<rparr> = two i w' a b" "(two i w a b)\<lparr>g_init := i'\<rparr> = two i' w a b"
  using threads_distinct(1) by (auto simp: two_def goto_def fun_eq_iff)

lemma two_steps:
  assumes "t = thread_A \<and> G = (\<lambda>i w l. two i w l b) \<or> t = thread_B \<and> G = (\<lambda>i w l. two i w b l)"
  shows "i \<noteq> SPIN_READY \<Longrightarrow> i \<noteq> SPIN_INITING \<Longrightarrow> (spin_step tk)\<^sup>*\<^sup>* (G i w Idle) (G SPIN_INITING w Init_won)"
    and "(spin_step tk)\<^sup>*\<^sup>* (G i w Init_won) (G SPIN_READY LOCK_INVALID_OWNER Idle)"
    and "tk \<Longrightarrow> (spin_step tk)\<^sup>*\<^sup>* (G SPIN_INITING w Idle) (G SPIN_INIT_EMPTY w Idle)"
    and "(spin_step tk)\<^sup>*\<^sup>* (G SPIN_READY LOCK_INVALID_OWNER Idle) (G SPIN_READY t Holding)"
proof -
  have t: "spin_thread t" "t \<noteq> LOCK_INVALID_OWNER" using assms threads_distinct by auto
  have G: "g_init (G i w l) = i" "g_owner (G i w l) = w" "g_pc (G i w l) t = l" "goto t l' (G i w l) = G i w l'"
    "(G i w l)\<lparr>g_owner := w'\<rparr> = G i w' l" "(G i w l)\<lparr>g_init := i'\<rparr> = G i' w l" for i w l l' w' i'
    using assms by auto
  show "(spin_step tk)\<^sup>*\<^sup>* (G i w Idle) (G SPIN_INITING w Init_won)" if "i \<noteq> SPIN_READY" "i \<noteq> SPIN_INITING"
    using init_load [of t "G i w Idle" tk] init_win [of "G i w (Init_seen i)" t i tk] t that by (simp add: G)
  show "(spin_step tk)\<^sup>*\<^sup>* (G i w Init_won) (G SPIN_READY LOCK_INVALID_OWNER Idle)"
    using init_owner [of "G i w Init_won" t tk] init_ready [of "G i LOCK_INVALID_OWNER Init_owner_written" t tk]
    by (simp add: G)
  show "(spin_step tk)\<^sup>*\<^sup>* (G SPIN_INITING w Idle) (G SPIN_INIT_EMPTY w Idle)" if "tk"
    using init_wait [of t "G SPIN_INITING w Idle" tk] init_takeover [of tk "G SPIN_INITING w Init_waiting" t] t that
    by (simp add: G)
  show "(spin_step tk)\<^sup>*\<^sup>* (G SPIN_READY LOCK_INVALID_OWNER Idle) (G SPIN_READY t Holding)"
    using lock_ready [of t "G SPIN_READY LOCK_INVALID_OWNER Idle" False tk]
      lock_start [of "G SPIN_READY LOCK_INVALID_OWNER (Checked False)" t False tk]
      lock_acquire [of "G SPIN_READY LOCK_INVALID_OWNER (Spinning False)" t False tk] t
    by (simp add: G)
qed

lemma sample_two: "sample_sys = two SPIN_INIT_EMPTY 77 Idle Idle"
  by (simp add: sample_sys_def two_def fun_eq_iff)

lemma lock_init_quiet_initing:
  "init_state s \<noteq> SPIN_READY \<Longrightarrow> init_state s \<noteq> SPIN_INITING \<Longrightarrow>
   lock_init (quiet s) = quiet (set_init SPIN_READY (set_owner LOCK_INVALID_OWNER s))"
  by (subst lock_init.simps) (auto simp: set_init_def set_owner_def)

lemma drop_bit_owner: "drop_bit 32 (make_global_owner n t) = ucast n"
  unfolding make_global_owner_def by (rule bit_word_eqI) (auto simp: bit_simps dest: bit_imp_le_length)

lemma low_owner: "make_global_owner n t AND mask 32 = ucast t"
  unfolding make_global_owner_def by (rule bit_word_eqI) (auto simp: bit_simps dest: bit_imp_le_length)

lemma lock_loop_expired:
  "lock_owner s \<noteq> LOCK_INVALID_OWNER \<Longrightarrow> deadline \<le> int (clock s) \<Longrightarrow>
   lock_loop identify deadline r (quiet s) = Some (UB_LOCK_TIMEOUT, quiet s)"
proof (induction identify deadline r "quiet s" rule: lock_loop.induct)
  case (1 identify deadline r)
  then show ?case
    by (subst lock_loop.simps) (simp add: dump_spin_timeout_info_def)
qed

lemma sint_high_half:
  assumes "(t :: u64) \<ge> 2 ^ 63"
  shows "sint t = uint t - 2 ^ 64"
proof -
  have "uint t \<ge> 2 ^ 63" "uint t < 2 ^ 64"
    using assms uint_lt2p [of t] by (simp_all add: word_le_def)
  then have "uint t div 2 ^ 63 = 1" by simp
  then have "bit (uint t) 63" by (simp add: bit_iff_odd)
  moreover have "take_bit 64 (uint t) = uint t" using uint_lt2p [of t] by (simp add: take_bit_int_eq_self_iff)
  ultimately show ?thesis
    by (simp add: sint_uint signed_take_bit_eq_take_bit_minus)
qed

lemma sint_of_int_eq:
  assumes "- (2 ^ 63) \<le> k" "k < 2 ^ 63"
  shows "sint (word_of_int k :: u64) = k"
proof -
  have "sint (word_of_int k :: u64) = signed_take_bit 63 k" by transfer simp
  then show ?thesis using assms by (simp add: signed_take_bit_int_eq_self_iff)
qed

text \<open>Below the overflow the deadline is the sum.\<close>

lemma spin_deadline_exact:
  assumes "eff = (if timeout_ms = 0 then DEFAULT_SPIN_TIMEOUT_MS else timeout_ms)"
    and "now + unat eff * 1000000 < 2 ^ 63"
  shows "spin_deadline now timeout_ms = int (now + unat eff * 1000000)"
proof -
  have "unat eff < 2 ^ 63" using assms(2) by linarith
  then have "int (unat eff) < int (2 ^ 63)" by (simp only: of_nat_less_iff)
  then have "uint eff < 2 ^ 63" by simp
  moreover have "- (2 ^ 63) \<le> uint eff" by (rule order_trans [of _ 0]) simp_all
  ultimately have "sint eff = uint eff"
    unfolding sint_uint by (intro signed_take_bit_int_eq_self) simp_all
  then have s: "sint eff = int (unat eff)" by simp
  let ?n = "now + unat eff * 1000000"
  have "int ?n < int (2 ^ 63)" using assms(2) by (simp only: of_nat_less_iff)
  moreover have "- (2 ^ 63) \<le> int ?n" by (rule order_trans [of _ 0]) simp_all
  ultimately have "sint (word_of_int (int ?n) :: u64) = int ?n" by (intro sint_of_int_eq) simp_all
  then show ?thesis unfolding spin_deadline_def Let_def assms(1) [symmetric] by (simp add: s)
qed

lemma deadline_in_the_past:
  assumes "uint timeout_ms \<ge> 2 ^ 64 - 9223372036854" and "now < 2 ^ 63"
  shows "spin_deadline now timeout_ms < int now"
proof -
  have t: "uint timeout_ms \<ge> 2 ^ 64 - 9223372036854" "uint timeout_ms < 2 ^ 64"
    using assms(1) uint_lt2p [of timeout_ms] by simp_all
  have ne: "timeout_ms \<noteq> 0" using t(1) by auto
  have "timeout_ms \<ge> 2 ^ 63" using t by (simp add: word_le_def)
  then have "sint timeout_ms = uint timeout_ms - 2 ^ 64" by (rule sint_high_half)
  then have s: "- 9223372036854 \<le> sint timeout_ms" "sint timeout_ms < 0" using t by simp_all
  then have "- (2 ^ 63) \<le> int now + sint timeout_ms * 1000000" "int now + sint timeout_ms * 1000000 < 2 ^ 63"
    using assms(2) by simp_all
  then have "sint (word_of_int (int now + sint timeout_ms * 1000000) :: u64) = int now + sint timeout_ms * 1000000"
    by (rule sint_of_int_eq)
  then show ?thesis using s ne by (simp add: spin_deadline_def)
qed

section \<open>Properties\<close>

text \<open>C3. Mutual exclusion: however the accesses of any number of initialisers, lockers and
  unlockers interleave, from uninitialised memory on and as long as no waiting initialiser
  takes over, at most one thread holds the spin lock.\<close>

theorem spin_mutual_exclusion:
  assumes "spin_start c" and "(spin_step False)\<^sup>*\<^sup>* c c'"
    and "g_pc c' t = Holding" and "g_pc c' u = Holding"
  shows "t = u"
proof -
  have inv: "spin_inv c'" using assms spin_inv_start spin_inv_reach by blast
  have "g_init c' = SPIN_READY" using spin_inv_pc [OF inv assms(3)] by (auto simp: pc_ok_def)
  then show ?thesis
    using spin_inv_pc [OF inv assms(3)] spin_inv_pc [OF inv assms(4)] by (simp add: pc_ok_def)
qed

theorem spin_mutual_exclusion_witness:
  "(spin_step False)\<^sup>*\<^sup>* sample_sys (two SPIN_READY thread_A Holding Idle) \<and>
   {u. g_pc (two SPIN_READY thread_A Holding Idle) u = Holding} = {thread_A}"
proof -
  note s = two_steps [of thread_A "\<lambda>i w l. two i w l Idle" Idle, simplified]
  have run: "(spin_step False)\<^sup>*\<^sup>* sample_sys (two SPIN_READY thread_A Holding Idle)"
    using rtranclp_trans [OF rtranclp_trans [OF s(1) s(2)] s(4)] unfolding sample_two
    by (simp add: spin_consts)
  have hold: "g_pc (two SPIN_READY thread_A Holding Idle) thread_A = Holding" by simp
  have "u = thread_A" if "g_pc (two SPIN_READY thread_A Holding Idle) u = Holding" for u
    using that hold by (rule spin_mutual_exclusion [OF sample_start run])
  with run hold show ?thesis by blast
qed

text \<open>C27. The takeover breaks mutual exclusion: if an initialiser stalls between winning the
  initialisation and writing the owner word, and a waiter takes over, a run leads to two
  different threads that hold the lock at once.\<close>

theorem spin_takeover_two_holders:
  "\<exists>c. (spin_step True)\<^sup>*\<^sup>* sample_sys c \<and> thread_A \<noteq> thread_B \<and>
       g_pc c thread_A = Holding \<and> g_pc c thread_B = Holding"
proof -
  note a = two_steps [of thread_A "\<lambda>i w l. two i w l b" b for b, simplified]
  note b = two_steps [of thread_B "\<lambda>i w l. two i w a l" a for a, simplified]
  have "(spin_step True)\<^sup>*\<^sup>* sample_sys (two SPIN_INITING 77 Init_won Idle)"
    using a(1) [of SPIN_INIT_EMPTY] unfolding sample_two by (simp add: spin_consts)
  also have "(spin_step True)\<^sup>*\<^sup>* (two SPIN_INITING 77 Init_won Idle) (two SPIN_INIT_EMPTY 77 Init_won Idle)"
    by (rule b(3)) simp
  also have "(spin_step True)\<^sup>*\<^sup>* (two SPIN_INIT_EMPTY 77 Init_won Idle) (two SPIN_INITING 77 Init_won Init_won)"
    by (rule b(1)) (simp_all add: spin_consts)
  also have "(spin_step True)\<^sup>*\<^sup>* (two SPIN_INITING 77 Init_won Init_won) (two SPIN_READY LOCK_INVALID_OWNER Init_won Idle)"
    by (rule b(2))
  also have "(spin_step True)\<^sup>*\<^sup>* (two SPIN_READY LOCK_INVALID_OWNER Init_won Idle) (two SPIN_READY thread_B Init_won Holding)"
    by (rule b(4))
  also have "(spin_step True)\<^sup>*\<^sup>* (two SPIN_READY thread_B Init_won Holding) (two SPIN_READY LOCK_INVALID_OWNER Idle Holding)"
    by (rule a(2))
  also have "(spin_step True)\<^sup>*\<^sup>* (two SPIN_READY LOCK_INVALID_OWNER Idle Holding) (two SPIN_READY thread_A Holding Holding)"
    by (rule a(4))
  finally show ?thesis
    using threads_distinct(1) by (intro exI [of _ "two SPIN_READY thread_A Holding Holding"]) simp
qed

text \<open>C18. Whatever the environment does, \<open>SpinLock::lock\<close> that returns \<open>UB_LOCK_SUCCESS\<close> has
  replaced \<open>LOCK_INVALID_OWNER\<close> by the caller's identity in one atomic step, as its last
  access; with any other result it has written nothing.\<close>

theorem spin_lock_takes_free_lock:
  assumes "spin_lock timeout_ms location w = Some (res, w')"
  shows "if res = UB_LOCK_SUCCESS
         then \<exists>w1. env_only w w1 \<and> lock_owner (st w1) = LOCK_INVALID_OWNER \<and>
                   w' = modify (set_owner (make_global_owner (node_id location) (tid location))) w1
         else env_only w w'"
  using lock_outcome [OF assms] by (simp add: took_or_left_def)

theorem spin_lock_takes_free_lock_witness:
  "\<exists>w'. spin_lock 5 \<lparr>tid = 7, node_id = 1\<rparr>
      (quiet \<lparr>init_state = SPIN_READY, lock_owner = LOCK_INVALID_OWNER, clock = 0\<rparr>) = Some (UB_LOCK_SUCCESS, w') \<and>
      lock_owner (st w') = make_global_owner 1 7"
proof -
  let ?w = "quiet \<lparr>init_state = SPIN_READY, lock_owner = LOCK_INVALID_OWNER, clock = 0\<rparr>"
  have "LOCK_INVALID_OWNER \<noteq> make_global_owner 1 7"
    using make_global_owner_valid [of 1 7] by simp
  then obtain w' where r: "spin_lock 5 \<lparr>tid = 7, node_id = 1\<rparr> ?w = Some (UB_LOCK_SUCCESS, w')"
    by (simp add: spin_lock_def is_ready_def is_invalid_node_def UB_MAX_NODES_def lock_loop.simps Let_def)
  with spin_lock_takes_free_lock [OF r] show ?thesis by auto
qed

text \<open>C19. \<open>SpinLock::unlock\<close> releases the lock only for its owner: with \<open>UB_LOCK_SUCCESS\<close> it has
  replaced the caller's identity by \<open>LOCK_INVALID_OWNER\<close> in one atomic step, with any other
  result it has written nothing, whatever the environment does.\<close>

theorem spin_unlock_only_own:
  assumes "spin_unlock location w = (res, w')"
  shows "if res = UB_LOCK_SUCCESS
         then \<exists>w1. env_only w w1 \<and> lock_owner (st w1) = make_global_owner (node_id location) (tid location) \<and>
                   w' = modify (set_owner LOCK_INVALID_OWNER) w1
         else env_only w w'"
  using assms by (rule unlock_outcome)

theorem spin_unlock_only_own_witness:
  "\<exists>w'. spin_unlock \<lparr>tid = 7, node_id = 1\<rparr>
      (quiet \<lparr>init_state = SPIN_READY, lock_owner = make_global_owner 1 7, clock = 0\<rparr>) = (UB_LOCK_SUCCESS, w') \<and>
      lock_owner (st w') = LOCK_INVALID_OWNER"
proof -
  let ?w = "quiet \<lparr>init_state = SPIN_READY, lock_owner = make_global_owner 1 7, clock = 0\<rparr>"
  obtain w' where r: "spin_unlock \<lparr>tid = 7, node_id = 1\<rparr> ?w = (UB_LOCK_SUCCESS, w')"
    by (simp add: spin_unlock_def is_ready_def is_invalid_node_def UB_MAX_NODES_def Let_def)
  with spin_unlock_only_own [OF r] show ?thesis by auto
qed

text \<open>C20. \<open>SpinLock::lock\<close> returns: if the clock at the end of the environment's script has
  reached the deadline (the clock when the call reads it, after its first two loads, plus
  the timeout in nanoseconds, where 0 means 10 seconds, in signed 64-bit arithmetic), the
  call ends with some result; it never spins for ever, however the lock is held or released meanwhile.\<close>

theorem spin_lock_returns:
  assumes "spin_deadline (clock (fold act (take 3 (script w)) (st w))) timeout_ms
           \<le> int (clock (fold act (script w) (st w)))"
  shows "\<exists>res w'. spin_lock timeout_ms location w = Some (res, w')"
proof -
  obtain rs w1 where l1: "load init_state w = (rs, w1)" by force
  obtain ow w2 where l2: "load lock_owner w1 = (ow, w2)" by force
  obtain now w3 where l3: "load clock w2 = (now, w3)" by force
  have step: "st w' = fold act (take 1 (script v)) (st v) \<and> script w' = drop 1 (script v) \<and> x = get (st w')"
    if "load get v = (x, w')" for get :: "spin_shm \<Rightarrow> 'a" and v x w'
    using that by (cases "script v") (auto simp: load_def tick_def Let_def)
  have p3: "env_only w w3"
    using env_only_load [OF l1] env_only_load [OF l2] env_only_load [OF l3] by (blast intro: env_only_trans)
  have "now = clock (fold act (take 3 (script w)) (st w))"
  proof (cases "script w")
    case (Cons e1 es)
    then show ?thesis
      using step [OF l1] step [OF l2] step [OF l3] load_script [OF l3]
      by (cases es; cases "tl es") (auto simp: numeral_3_eq_3)
  qed (use step [OF l1] step [OF l2] step [OF l3] in auto)
  then have "spin_deadline now timeout_ms \<le> int (clock (fold act (script w3) (st w3)))"
    using assms env_only_end [OF p3] by simp
  from lock_loop_returns [OF this, of "make_global_owner (node_id location) (tid location)" 0]
  show ?thesis by (auto simp: spin_lock_def is_ready_def l1 l2 l3 Let_def)
qed

theorem spin_lock_returns_witness:
  "\<exists>res w'. spin_lock 1 \<lparr>tid = 7, node_id = 1\<rparr>
     \<lparr>st = \<lparr>init_state = SPIN_READY, lock_owner = 99, clock = 0\<rparr>,
      script = [Event id False, Event id False, Event id False, Event (clock_update (\<lambda>_. 2000000)) False]\<rparr>
     = Some (res, w')"
  by (rule spin_lock_returns) (simp add: numeral_3_eq_3 spin_deadline_def)

text \<open>C28. The longest timeouts expire at once. A timeout within about 292 years of \<open>2 ^ 64\<close>
  milliseconds is read as a negative number, so that the deadline lies in the past: \<open>lock\<close> on
  a ready lock that another thread holds answers \<open>UB_LOCK_TIMEOUT\<close> although no time passes.\<close>

theorem spin_lock_huge_timeout_expires:
  assumes "uint timeout_ms \<ge> 2 ^ 64 - 9223372036854" and "clock s < 2 ^ 63"
    and "\<not> is_invalid_node (node_id location)" and "init_state s = SPIN_READY"
    and "lock_owner s \<noteq> LOCK_INVALID_OWNER"
    and "lock_owner s \<noteq> make_global_owner (node_id location) (tid location)"
  shows "spin_lock timeout_ms location (quiet s) = Some (UB_LOCK_TIMEOUT, quiet s)"
  using assms deadline_in_the_past [OF assms(1,2)]
  by (simp add: spin_lock_def is_ready_def lock_loop_expired)

theorem spin_lock_huge_timeout_expires_witness:
  "spin_lock (- 1) \<lparr>tid = 7, node_id = 1\<rparr> (quiet \<lparr>init_state = SPIN_READY, lock_owner = 99, clock = 5000\<rparr>)
   = Some (UB_LOCK_TIMEOUT, quiet \<lparr>init_state = SPIN_READY, lock_owner = 99, clock = 5000\<rparr>)"
  by (rule spin_lock_huge_timeout_expires)
     (simp_all add: is_invalid_node_def UB_MAX_NODES_def LOCK_INVALID_OWNER_def make_global_owner_def
        unsigned_minus_1_eq_mask mask_eq_exp_minus_1)

text \<open>C29. Initialisation in a quiet environment always ends with a ready lock: it leaves a
  ready lock alone, and otherwise, from any other value of the state word, including that
  of an initialiser which died half-way, it frees the lock and marks it ready.\<close>

theorem lock_init_ends_ready:
  "lock_init (quiet s) =
     quiet (if init_state s = SPIN_READY then s
            else set_init SPIN_READY (set_owner LOCK_INVALID_OWNER s))"
proof (cases "init_state s = SPIN_INITING")
  case True
  have "lock_init (quiet s) = lock_init (quiet (set_init SPIN_INIT_EMPTY s))"
    using True by (subst lock_init.simps) (simp add: init_wait_quiet spin_consts)
  also have "\<dots> = quiet (set_init SPIN_READY (set_owner LOCK_INVALID_OWNER (set_init SPIN_INIT_EMPTY s)))"
    by (rule lock_init_quiet_initing) (simp_all add: spin_consts)
  finally show ?thesis using True by (simp add: set_init_def set_owner_def spin_consts)
next
  case False
  then show ?thesis
    using lock_init_quiet_initing [of s] by (subst lock_init.simps) (auto simp: set_init_def set_owner_def)
qed

text \<open>C30. The owner word decodes to what was packed: for a valid node the node and the
  thread reported in diagnostics are the holder's.\<close>

theorem spin_owner_roundtrip:
  assumes "\<not> is_invalid_node n"
  shows "spin_owner_node (make_global_owner n t) = ucast n \<and> spin_owner_tid (make_global_owner n t) = t"
proof -
  have "make_global_owner n t \<noteq> LOCK_INVALID_OWNER"
    using assms by (intro make_global_owner_valid node_lt_16_valid) (simp add: is_invalid_node_def)
  moreover have "(ucast (ucast n :: u64) :: u32) = ucast n" "(ucast (ucast t :: u64) :: u32) = t"
    by (rule bit_word_eqI, auto simp: bit_simps dest: bit_imp_le_length)+
  ultimately show ?thesis
    by (simp add: spin_owner_node_def spin_owner_tid_def drop_bit_owner low_owner)
qed

theorem spin_owner_roundtrip_witness:
  "spin_owner_node (make_global_owner 3 42) = 3 \<and> spin_owner_tid (make_global_owner 3 42) = 42"
  using spin_owner_roundtrip [of 3 42] by (simp add: is_invalid_node_def UB_MAX_NODES_def)

end
