(* ===== verification/Lock_Lanes.thy ===== *)
theory Lock_Lanes
  imports Atomic_Prelude
begin

text \<open>
  The state word of a node-local lock, \<open>LocalLockStateWord\<close> of \<open>src/ub_lock/local_lock.h\<close> with the single-attempt
  operations of \<open>src/ub_lock/lock_optimization.cpp\<close>. The 64-bit word has four 16-bit lanes, each with
  a 14-bit count of readers and a sentinel bit; readers work on their own lane only, a writer on
  the whole word. Then the accesses of all threads as a step relation, and the exclusion that
  the sentinels give although readers and writers compare different parts of the word.
\<close>

section \<open>Lanes\<close>

definition LOCAL_LOCK_READER_LANES :: nat where "LOCAL_LOCK_READER_LANES = 4"
definition LOCAL_LOCK_READER_LANE_BITS :: nat where "LOCAL_LOCK_READER_LANE_BITS = 16"
definition LOCAL_LOCK_READER_COUNT_MASK :: u16 where "LOCAL_LOCK_READER_COUNT_MASK = 0x3FFF"
definition LOCAL_LOCK_READER_SENTINEL :: u16 where "LOCAL_LOCK_READER_SENTINEL = 0x4000"
definition LOCAL_LOCK_SX_LANE :: nat where "LOCAL_LOCK_SX_LANE = 0"
definition LOCAL_LOCK_SX_FLAG :: u16 where "LOCAL_LOCK_SX_FLAG = 0x8000"
definition LOCAL_LOCK_X_FLAG :: u64 where "LOCAL_LOCK_X_FLAG = push_bit LOCAL_LOCK_READER_LANE_BITS 0x8000"

definition make_local_lock_lane_mask :: "u64 \<Rightarrow> u64" where
  "make_local_lock_lane_mask lane_mask =
     fold (\<lambda>i m. m OR push_bit (i * LOCAL_LOCK_READER_LANE_BITS) lane_mask) [0..<LOCAL_LOCK_READER_LANES] 0"

definition LOCAL_LOCK_READER_SENTINEL_MASK :: u64 where
  "LOCAL_LOCK_READER_SENTINEL_MASK = make_local_lock_lane_mask (ucast LOCAL_LOCK_READER_SENTINEL)"

definition LOCAL_LOCK_X_STATE :: u64 where
  "LOCAL_LOCK_X_STATE = LOCAL_LOCK_X_FLAG OR LOCAL_LOCK_READER_SENTINEL_MASK"

lemmas lane_consts =
  LOCAL_LOCK_READER_LANES_def LOCAL_LOCK_READER_LANE_BITS_def LOCAL_LOCK_READER_COUNT_MASK_def
  LOCAL_LOCK_READER_SENTINEL_def LOCAL_LOCK_SX_LANE_def LOCAL_LOCK_SX_FLAG_def

definition local_lock_lane_for_tid :: "tid_t \<Rightarrow> nat" where
  "local_lock_lane_for_tid t = unat (t AND (of_nat LOCAL_LOCK_READER_LANES - 1))"

definition local_lock_lane_value :: "u64 \<Rightarrow> nat \<Rightarrow> u16" where
  "local_lock_lane_value state lane = ucast (drop_bit (lane * LOCAL_LOCK_READER_LANE_BITS) state AND 0xFFFF)"

definition local_lock_reader_count :: "u64 \<Rightarrow> u32" where
  "local_lock_reader_count state =
     fold (\<lambda>lane count. count + ucast (local_lock_lane_value state lane AND LOCAL_LOCK_READER_COUNT_MASK))
       [0..<LOCAL_LOCK_READER_LANES] 0"

text \<open>Writing one lane through the 16-bit pointer into the word.\<close>

definition set_lane :: "nat \<Rightarrow> u16 \<Rightarrow> u64 \<Rightarrow> u64" where
  "set_lane lane v state =
     (state AND NOT (push_bit (lane * LOCAL_LOCK_READER_LANE_BITS) 0xFFFF)) OR
     push_bit (lane * LOCAL_LOCK_READER_LANE_BITS) (ucast v)"

section \<open>Single attempts\<close>

text \<open>A reference to a state word in a larger state.\<close>

record 's word_ref =
  rd :: "'s \<Rightarrow> u64"
  wr :: "u64 \<Rightarrow> 's \<Rightarrow> 's"

definition lane_get :: "'s word_ref \<Rightarrow> nat \<Rightarrow> 's \<Rightarrow> u16" where
  "lane_get r lane s = local_lock_lane_value (rd r s) lane"

definition lane_put :: "'s word_ref \<Rightarrow> nat \<Rightarrow> u16 \<Rightarrow> 's \<Rightarrow> 's" where
  "lane_put r lane v s = wr r (set_lane lane v (rd r s)) s"

definition compare_exchange_lane_weak ::
  "'s word_ref \<Rightarrow> nat \<Rightarrow> u16 \<Rightarrow> u16 \<Rightarrow> 's world \<Rightarrow> bool \<times> u16 \<times> 's world" where
  "compare_exchange_lane_weak r lane = cas_weak (lane_get r lane) (lane_put r lane)"

definition compare_exchange_lane_strong ::
  "'s word_ref \<Rightarrow> nat \<Rightarrow> u16 \<Rightarrow> u16 \<Rightarrow> 's world \<Rightarrow> bool \<times> u16 \<times> 's world" where
  "compare_exchange_lane_strong r lane = cas_strong (lane_get r lane) (lane_put r lane)"

definition fetch_and_lane :: "'s word_ref \<Rightarrow> nat \<Rightarrow> u16 \<Rightarrow> 's world \<Rightarrow> u16 \<times> 's world" where
  "fetch_and_lane r lane m = fetch (lane_get r lane) (\<lambda>s. lane_put r lane (lane_get r lane s AND m) s)"

definition local_lock_state_is_idle :: "u64 \<Rightarrow> bool" where
  "local_lock_state_is_idle state \<longleftrightarrow> state = 0"

text \<open>What a reader that sees a lane value may do with it, and what it wants to write.\<close>

definition reader_may_enter :: "u64 \<Rightarrow> u16 \<Rightarrow> bool" where
  "reader_may_enter state v \<longleftrightarrow>
     \<not> state AND LOCAL_LOCK_X_FLAG \<noteq> 0 \<and> \<not> v AND LOCAL_LOCK_READER_SENTINEL \<noteq> 0 \<and>
     v AND LOCAL_LOCK_READER_COUNT_MASK \<noteq> LOCAL_LOCK_READER_COUNT_MASK"

definition lane_count_plus :: "u16 \<Rightarrow> u16" where
  "lane_count_plus v = (v AND NOT LOCAL_LOCK_READER_COUNT_MASK) OR ((v AND LOCAL_LOCK_READER_COUNT_MASK) + 1)"

definition lane_count_minus :: "u16 \<Rightarrow> u16" where
  "lane_count_minus v = (v AND NOT LOCAL_LOCK_READER_COUNT_MASK) OR ((v AND LOCAL_LOCK_READER_COUNT_MASK) - 1)"

definition local_lock_try_acquire_s :: "'s word_ref \<Rightarrow> tid_t \<Rightarrow> 's world \<Rightarrow> bool \<times> 's world" where
  "local_lock_try_acquire_s r t w =
     (let lane = local_lock_lane_for_tid t;
          (state, w1) = load (rd r) w;
          v = local_lock_lane_value state lane in
      if \<not> reader_may_enter state v then (False, w1)
      else let (ok, v', w2) = compare_exchange_lane_weak r lane v (lane_count_plus v) w1 in (ok, w2))"

text \<open>The retry loop of a release; \<open>None\<close> is the answer false, \<open>Some\<close> the state after the release.\<close>

function release_s_loop :: "'s word_ref \<Rightarrow> nat \<Rightarrow> u16 \<Rightarrow> 's world \<Rightarrow> u64 option \<times> 's world" where
  "release_s_loop r lane v w =
     (if v AND LOCAL_LOCK_READER_SENTINEL \<noteq> 0 then (None, w)
      else if v AND LOCAL_LOCK_READER_COUNT_MASK = 0 then (None, w)
      else let (ok, v', w1) = compare_exchange_lane_strong r lane v (lane_count_minus v) w in
        if ok then let (state, w2) = load (rd r) w1 in (Some state, w2)
        else release_s_loop r lane v' w1)"
  by auto

lemma cas_strong_retry:
  assumes "cas_strong get put e d w = (False, v, w')"
  shows "get (st w') = v"
    and "length (script w') < length (script w) \<or> script w' = script w \<and> get (st w) \<noteq> e"
proof -
  show "get (st w') = v"
    using assms by (auto simp: cas_strong_def Let_def split: prod.splits if_splits)
  have "script w' = tl (script w)" using assms by (rule cas_strong_script)
  moreover have "get (st w) \<noteq> e" if "script w = []"
    using assms that by (auto simp: cas_strong_def tick_Nil split: if_splits)
  ultimately show "length (script w') < length (script w) \<or> script w' = script w \<and> get (st w) \<noteq> e"
    by (cases "script w") auto
qed

termination release_s_loop
  by (relation "measures [\<lambda>(r, lane, v, w). length (script w), \<lambda>(r, lane, v, w). if lane_get r lane (st w) = v then 0 else 1]")
    (auto simp: compare_exchange_lane_strong_def dest!: sym [of "(_, _, _)"] dest: cas_strong_retry)

declare release_s_loop.simps [simp del]

definition local_lock_try_release_s :: "'s word_ref \<Rightarrow> tid_t \<Rightarrow> 's world \<Rightarrow> u64 option \<times> 's world" where
  "local_lock_try_release_s r t w =
     (let lane = local_lock_lane_for_tid t; (state, w1) = load (rd r) w
      in release_s_loop r lane (local_lock_lane_value state lane) w1)"

definition local_lock_try_acquire_x :: "'s word_ref \<Rightarrow> 's world \<Rightarrow> bool \<times> 's world" where
  "local_lock_try_acquire_x r w =
     (let (state, w1) = load (rd r) w in
      if \<not> local_lock_state_is_idle state then (False, w1)
      else let (ok, v, w2) = cas_weak (rd r) (wr r) state LOCAL_LOCK_X_STATE w1 in (ok, w2))"

definition sx_may_enter :: "u64 \<Rightarrow> u16 \<Rightarrow> bool" where
  "sx_may_enter state v \<longleftrightarrow>
     \<not> state AND (ucast LOCAL_LOCK_SX_FLAG OR LOCAL_LOCK_X_FLAG OR LOCAL_LOCK_READER_SENTINEL_MASK) \<noteq> 0 \<and>
     \<not> v AND (LOCAL_LOCK_SX_FLAG OR LOCAL_LOCK_READER_SENTINEL) \<noteq> 0"

definition local_lock_try_acquire_sx :: "'s word_ref \<Rightarrow> 's world \<Rightarrow> bool \<times> 's world" where
  "local_lock_try_acquire_sx r w =
     (let (state, w1) = load (rd r) w; v = local_lock_lane_value state LOCAL_LOCK_SX_LANE in
      if \<not> sx_may_enter state v then (False, w1)
      else let (ok, v', w2) = compare_exchange_lane_weak r LOCAL_LOCK_SX_LANE v (v OR LOCAL_LOCK_SX_FLAG) w1
           in (ok, w2))"

definition local_lock_try_release_sx :: "'s word_ref \<Rightarrow> 's world \<Rightarrow> u64 option \<times> 's world" where
  "local_lock_try_release_sx r w =
     (let (old_lane, w1) = fetch_and_lane r LOCAL_LOCK_SX_LANE (NOT LOCAL_LOCK_SX_FLAG) w in
      if old_lane AND LOCAL_LOCK_SX_FLAG = 0 then (None, w1)
      else let (state, w2) = load (rd r) w1 in (Some state, w2))"

section \<open>Lanes of a word\<close>

lemma bit_lane_value: "bit (local_lock_lane_value s l) i \<longleftrightarrow> i < 16 \<and> bit s (l * 16 + i)"
proof -
  have m: "(0xFFFF :: u64) = mask 16" by (simp add: mask_eq_exp_minus_1)
  show ?thesis
    unfolding local_lock_lane_value_def m by (auto simp: lane_consts bit_simps dest: bit_imp_le_length)
qed

lemma bit_set_lane:
  "l < 4 \<Longrightarrow> bit (set_lane l v s) n \<longleftrightarrow> (if l * 16 \<le> n \<and> n < l * 16 + 16 then bit v (n - l * 16) else bit s n)"
proof -
  assume l: "l < 4"
  have m: "(0xFFFF :: u64) = mask 16" by (simp add: mask_eq_exp_minus_1)
  show ?thesis
    using l unfolding set_lane_def m
    by (auto simp: lane_consts bit_simps not_le dest: bit_imp_le_length)
qed

lemma lane_set_same [simp]: "l < 4 \<Longrightarrow> local_lock_lane_value (set_lane l v s) l = v"
  by (rule bit_word_eqI) (auto simp: bit_lane_value bit_set_lane dest: bit_imp_le_length)

lemma lane_set_other [simp]:
  "l < 4 \<Longrightarrow> m \<noteq> l \<Longrightarrow> local_lock_lane_value (set_lane l v s) m = local_lock_lane_value s m"
proof -
  assume l: "l < 4" "m \<noteq> l"
  have "\<not> (l * 16 \<le> m * 16 + i \<and> m * 16 + i < l * 16 + 16)" if "i < 16" for i using l(2) that by auto
  then show ?thesis by (intro bit_word_eqI) (auto simp: bit_lane_value bit_set_lane [OF l(1)])
qed

lemma lanes_eqI: "(\<And>l. l < 4 \<Longrightarrow> local_lock_lane_value a l = local_lock_lane_value b l) \<Longrightarrow> a = b"
proof (rule bit_word_eqI)
  fix n assume eq: "\<And>l. l < 4 \<Longrightarrow> local_lock_lane_value a l = local_lock_lane_value b l" and "n < LENGTH(64)"
  then have n: "n div 16 < 4" by simp
  have "bit (local_lock_lane_value a (n div 16)) (n mod 16) = bit (local_lock_lane_value b (n div 16)) (n mod 16)"
    using eq [OF n] by simp
  then show "bit a n = bit b n" by (simp add: bit_lane_value)
qed

lemma lane_zero [simp]: "local_lock_lane_value 0 l = 0"
  by (rule bit_word_eqI) (simp add: bit_lane_value)

lemma lane_x_state: "l < 4 \<Longrightarrow> local_lock_lane_value LOCAL_LOCK_X_STATE l = (if l = 1 then 0xC000 else 0x4000)"
proof -
  assume "l < 4"
  then consider "l = 0" | "l = 1" | "l = 2" | "l = 3" by linarith
  then show ?thesis
    by cases (simp_all add: LOCAL_LOCK_X_STATE_def LOCAL_LOCK_X_FLAG_def LOCAL_LOCK_READER_SENTINEL_MASK_def
        make_local_lock_lane_mask_def local_lock_lane_value_def lane_consts upt_conv_Cons)
qed

lemma lane_for_tid_less [simp]: "local_lock_lane_for_tid t < 4"
proof -
  have m: "(of_nat LOCAL_LOCK_READER_LANES - 1 :: u32) = mask 2" by (simp add: mask_eq_exp_minus_1 lane_consts)
  show ?thesis unfolding local_lock_lane_for_tid_def m unat_and_mask by simp
qed

lemma count_mask: "LOCAL_LOCK_READER_COUNT_MASK = mask 14"
  by (simp add: lane_consts mask_eq_exp_minus_1)

lemma unat_count: "unat (v AND LOCAL_LOCK_READER_COUNT_MASK) = unat v mod 2 ^ 14"
  by (simp add: count_mask unat_and_mask)

lemma and_not_plus: "(v AND NOT m) + (v AND m) = (v :: u16)"
proof -
  have "(v AND NOT m) AND (v AND m) = 0" by (rule bit_word_eqI) (simp add: bit_simps)
  then have "(v AND NOT m) + (v AND m) = (v AND NOT m) OR (v AND m)" by (rule disjunctive_add_eq_or)
  also have "\<dots> = v" by (rule bit_word_eqI) (auto simp: bit_simps)
  finally show ?thesis .
qed

lemma below_mask: "unat (x :: u16) < 2 ^ 14 \<Longrightarrow> x AND LOCAL_LOCK_READER_COUNT_MASK = x"
  by (simp add: word_unat_eq_iff unat_count)

lemma lane_merge:
  assumes "unat (x :: u16) < 2 ^ 14"
  shows "(v AND NOT LOCAL_LOCK_READER_COUNT_MASK) OR x = v - (v AND LOCAL_LOCK_READER_COUNT_MASK) + x"
proof -
  let ?m = LOCAL_LOCK_READER_COUNT_MASK
  have "(v AND NOT ?m) AND (x AND ?m) = 0" by (rule bit_word_eqI) (simp add: bit_simps)
  then have "(v AND NOT ?m) AND x = 0" using below_mask [OF assms] by simp
  then have "(v AND NOT ?m) OR x = (v AND NOT ?m) + x" by (rule disjunctive_add_eq_or [symmetric])
  moreover have "v AND NOT ?m = v - (v AND ?m)" using and_not_plus [of v ?m] by (simp add: eq_diff_eq)
  ultimately show ?thesis by simp
qed

lemma count_bound: "unat (v AND LOCAL_LOCK_READER_COUNT_MASK) < 2 ^ 14"
  by (simp add: unat_count)

lemma lane_count_plus_eq:
  assumes "v AND LOCAL_LOCK_READER_COUNT_MASK \<noteq> LOCAL_LOCK_READER_COUNT_MASK"
  shows "lane_count_plus v = v + 1"
proof -
  let ?c = "v AND LOCAL_LOCK_READER_COUNT_MASK"
  have "unat ?c \<noteq> unat LOCAL_LOCK_READER_COUNT_MASK" using assms by (simp add: word_unat_eq_iff)
  then have "unat ?c < 2 ^ 14 - 1" using count_bound [of v] by (simp add: lane_consts)
  then have "unat (?c + 1) < 2 ^ 14" by (simp add: unat_word_ariths)
  from lane_merge [OF this, of v] show ?thesis by (simp add: lane_count_plus_def)
qed

lemma lane_count_plus_no_wrap:
  assumes "v AND LOCAL_LOCK_READER_COUNT_MASK \<noteq> LOCAL_LOCK_READER_COUNT_MASK"
  shows "unat (lane_count_plus v) = unat v + 1"
proof -
  have "unat v \<noteq> 2 ^ 16 - 1"
  proof
    assume "unat v = 2 ^ 16 - 1"
    then have "v = 0xFFFF" by (simp add: word_unat_eq_iff)
    then show False using assms by (simp add: lane_consts)
  qed
  then have "Suc (unat v) < 2 ^ 16" using unat_less_exp [of v] by simp
  then show ?thesis using lane_count_plus_eq [OF assms] by (simp add: unat_word_ariths)
qed

lemma lane_count_minus_eq:
  assumes "v AND LOCAL_LOCK_READER_COUNT_MASK \<noteq> 0"
  shows "lane_count_minus v = v - 1"
proof -
  let ?c = "v AND LOCAL_LOCK_READER_COUNT_MASK"
  have "unat (?c - 1) = unat ?c - 1" using assms by (rule unat_minus_one)
  then have "unat (?c - 1) < 2 ^ 14" using count_bound [of v] by simp
  from lane_merge [OF this, of v] show ?thesis by (simp add: lane_count_minus_def)
qed

section \<open>All threads together\<close>

text \<open>A thread may hold the lock several times over, shared more than once or shared next to
  shared-exclusive: the system has one location per attempt, a thread and a number, and the
  attempts of one thread need not even follow each other.\<close>

type_synonym attempt = "tid_t \<times> u32"

declare split_paired_All [simp del] split_paired_Ex [simp del]

text \<open>Where an attempt is between its accesses to the word; \<open>S_seen\<close>, \<open>SX_seen\<close> and \<open>S_leaving\<close> carry the lane
  value it has read, and \<open>L_failed\<close> is the answer false of a release.\<close>

datatype lane_pc =
  L_idle | S_seen u16 | S_held | S_leaving u16 | X_seen | X_held | SX_seen u16 | SX_held | L_failed

record lane_sys =
  lw_word :: u64
  lw_pc :: "attempt \<Rightarrow> lane_pc"

definition lw_goto :: "attempt \<Rightarrow> lane_pc \<Rightarrow> lane_sys \<Rightarrow> lane_sys" where
  "lw_goto t p c = c\<lparr>lw_pc := (lw_pc c)(t := p)\<rparr>"

definition my_lane :: "attempt \<Rightarrow> lane_sys \<Rightarrow> u16" where
  "my_lane t c = local_lock_lane_value (lw_word c) (local_lock_lane_for_tid (fst t))"

definition sx_lane :: "lane_sys \<Rightarrow> u16" where
  "sx_lane c = local_lock_lane_value (lw_word c) LOCAL_LOCK_SX_LANE"

text \<open>The store with which \<open>unlock_x\<close> gives the whole word back.\<close>

definition release_x_store :: "lane_sys \<Rightarrow> lane_sys" where
  "release_x_store c = c\<lparr>lw_word := 0\<rparr>"

text \<open>One access of one attempt. A weak compare-and-swap may fail at any time.\<close>

inductive lane_step :: "lane_sys \<Rightarrow> lane_sys \<Rightarrow> bool" where
  s_load: "lw_pc c t = L_idle \<Longrightarrow> reader_may_enter (lw_word c) (my_lane t c) \<Longrightarrow> lane_step c (lw_goto t (S_seen (my_lane t c)) c)"
| s_cas: "lw_pc c t = S_seen v \<Longrightarrow> my_lane t c = v \<Longrightarrow>
    lane_step c (lw_goto t S_held (c\<lparr>lw_word := set_lane (local_lock_lane_for_tid (fst t)) (lane_count_plus v) (lw_word c)\<rparr>))"
| s_retry: "lw_pc c t = S_seen v \<Longrightarrow> lane_step c (lw_goto t L_idle c)"
| s_leave: "lw_pc c t = S_held \<Longrightarrow> lane_step c (lw_goto t (S_leaving (my_lane t c)) c)"
| s_release: "lw_pc c t = S_leaving v \<Longrightarrow> \<not> v AND LOCAL_LOCK_READER_SENTINEL \<noteq> 0 \<Longrightarrow>
    v AND LOCAL_LOCK_READER_COUNT_MASK \<noteq> 0 \<Longrightarrow> my_lane t c = v \<Longrightarrow>
    lane_step c (lw_goto t L_idle (c\<lparr>lw_word := set_lane (local_lock_lane_for_tid (fst t)) (lane_count_minus v) (lw_word c)\<rparr>))"
| s_again: "lw_pc c t = S_leaving v \<Longrightarrow> \<not> v AND LOCAL_LOCK_READER_SENTINEL \<noteq> 0 \<Longrightarrow>
    v AND LOCAL_LOCK_READER_COUNT_MASK \<noteq> 0 \<Longrightarrow> my_lane t c \<noteq> v \<Longrightarrow> lane_step c (lw_goto t (S_leaving (my_lane t c)) c)"
| s_reject: "lw_pc c t = S_leaving v \<Longrightarrow> v AND LOCAL_LOCK_READER_SENTINEL \<noteq> 0 \<or> v AND LOCAL_LOCK_READER_COUNT_MASK = 0 \<Longrightarrow>
    lane_step c (lw_goto t L_failed c)"
| x_load: "lw_pc c t = L_idle \<Longrightarrow> local_lock_state_is_idle (lw_word c) \<Longrightarrow> lane_step c (lw_goto t X_seen c)"
| x_cas: "lw_pc c t = X_seen \<Longrightarrow> lw_word c = 0 \<Longrightarrow> lane_step c (lw_goto t X_held (c\<lparr>lw_word := LOCAL_LOCK_X_STATE\<rparr>))"
| x_retry: "lw_pc c t = X_seen \<Longrightarrow> lane_step c (lw_goto t L_idle c)"
| x_release: "lw_pc c t = X_held \<Longrightarrow> lane_step c (lw_goto t L_idle (release_x_store c))"
| sx_load: "lw_pc c t = L_idle \<Longrightarrow> sx_may_enter (lw_word c) (sx_lane c) \<Longrightarrow> lane_step c (lw_goto t (SX_seen (sx_lane c)) c)"
| sx_cas: "lw_pc c t = SX_seen v \<Longrightarrow> sx_lane c = v \<Longrightarrow>
    lane_step c (lw_goto t SX_held (c\<lparr>lw_word := set_lane LOCAL_LOCK_SX_LANE (v OR LOCAL_LOCK_SX_FLAG) (lw_word c)\<rparr>))"
| sx_retry: "lw_pc c t = SX_seen v \<Longrightarrow> lane_step c (lw_goto t L_idle c)"
| sx_release: "lw_pc c t = SX_held \<Longrightarrow> sx_lane c AND LOCAL_LOCK_SX_FLAG \<noteq> 0 \<Longrightarrow>
    lane_step c (lw_goto t L_idle (c\<lparr>lw_word := set_lane LOCAL_LOCK_SX_LANE (sx_lane c AND NOT LOCAL_LOCK_SX_FLAG) (lw_word c)\<rparr>))"
| sx_reject: "lw_pc c t = SX_held \<Longrightarrow> sx_lane c AND LOCAL_LOCK_SX_FLAG = 0 \<Longrightarrow>
    lane_step c (lw_goto t L_failed (c\<lparr>lw_word := set_lane LOCAL_LOCK_SX_LANE (sx_lane c AND NOT LOCAL_LOCK_SX_FLAG) (lw_word c)\<rparr>))"

definition lane_start :: "lane_sys \<Rightarrow> bool" where
  "lane_start c \<longleftrightarrow> lw_word c = 0 \<and> (\<forall>t. lw_pc c t = L_idle)"

fun holds_s :: "lane_pc \<Rightarrow> bool" where
  "holds_s S_held = True"
| "holds_s (S_leaving v) = True"
| "holds_s _ = False"

definition readers :: "nat \<Rightarrow> lane_sys \<Rightarrow> attempt set" where
  "readers l c = {t. holds_s (lw_pc c t) \<and> local_lock_lane_for_tid (fst t) = l}"

definition sx_bit :: "lane_sys \<Rightarrow> nat" where
  "sx_bit c = (if \<exists>t. lw_pc c t = SX_held then 2 ^ 15 else 0)"

text \<open>What a thread may rely on about the lane value it has read.\<close>

fun pc_ok :: "lane_pc \<Rightarrow> bool" where
  "pc_ok (S_seen v) \<longleftrightarrow> \<not> bit v 14 \<and> v AND LOCAL_LOCK_READER_COUNT_MASK \<noteq> LOCAL_LOCK_READER_COUNT_MASK"
| "pc_ok (SX_seen v) \<longleftrightarrow> \<not> bit v 14 \<and> \<not> bit v 15"
| "pc_ok (S_leaving v) \<longleftrightarrow> \<not> bit v 14 \<and> v AND LOCAL_LOCK_READER_COUNT_MASK \<noteq> 0"
| "pc_ok L_failed \<longleftrightarrow> False"
| "pc_ok _ \<longleftrightarrow> True"

definition shared_word :: "lane_sys \<Rightarrow> bool" where
  "shared_word c \<longleftrightarrow> (\<forall>t. lw_pc c t \<noteq> X_held) \<and>
     (\<forall>l < 4. card (readers l c) < 2 ^ 14 \<and>
        unat (local_lock_lane_value (lw_word c) l) = card (readers l c) + (if l = 0 then sx_bit c else 0)) \<and>
     (\<forall>t u. lw_pc c t = SX_held \<longrightarrow> lw_pc c u = SX_held \<longrightarrow> t = u)"

definition exclusive_word :: "lane_sys \<Rightarrow> bool" where
  "exclusive_word c \<longleftrightarrow> lw_word c = LOCAL_LOCK_X_STATE \<and>
     (\<exists>t. lw_pc c t = X_held \<and> (\<forall>u. u \<noteq> t \<longrightarrow> lw_pc c u \<noteq> X_held \<and> lw_pc c u \<noteq> SX_held \<and> \<not> holds_s (lw_pc c u)))"

definition lane_inv :: "lane_sys \<Rightarrow> bool" where
  "lane_inv c \<longleftrightarrow> (shared_word c \<or> exclusive_word c) \<and> (\<forall>t. pc_ok (lw_pc c t))"

section \<open>The invariant\<close>

lemma flag_bits [simp]:
  "v AND LOCAL_LOCK_READER_SENTINEL = 0 \<longleftrightarrow> \<not> bit v 14" "v AND LOCAL_LOCK_SX_FLAG = 0 \<longleftrightarrow> \<not> bit v 15"
  using and_exp_eq_0_iff_not_bit [of v 14] and_exp_eq_0_iff_not_bit [of v 15] by (simp_all add: lane_consts)

lemma bit_u16: "n < 16 \<Longrightarrow> bit (v :: u16) n \<longleftrightarrow> odd (unat v div 2 ^ n)"
  using bit_unsigned_iff [of v n, where 'a = nat] by (auto simp: bit_iff_odd possible_bit_def)

lemma lane_parts:
  assumes "unat v = k + b" "k < 2 ^ 14" "b = 0 \<or> b = 2 ^ 15"
  shows "\<not> bit v 14" "bit v 15 \<longleftrightarrow> b = 2 ^ 15" "unat (v AND LOCAL_LOCK_READER_COUNT_MASK) = k"
proof -
  have "(k + b) div 2 ^ 14 = b div 2 ^ 14" "(k + b) div 2 ^ 15 = b div 2 ^ 15"
    using assms(2,3) by auto
  moreover have "(k + b) mod 2 ^ 14 = k"
  proof -
    have "b mod 2 ^ 14 = 0" using assms(3) by auto
    then show ?thesis using assms(2) by (metis add.right_neutral mod_add_right_eq mod_less)
  qed
  ultimately show "\<not> bit v 14" "bit v 15 \<longleftrightarrow> b = 2 ^ 15" "unat (v AND LOCAL_LOCK_READER_COUNT_MASK) = k"
    using assms(1,3) by (auto simp: bit_u16 unat_count)
qed

lemma sx_bit_cases: "sx_bit c = 0 \<or> sx_bit c = 2 ^ 15"
  by (simp add: sx_bit_def)

lemma lw_goto_simps [simp]:
  "lw_word (lw_goto t p c) = lw_word c" "lw_pc (lw_goto t p c) = (lw_pc c)(t := p)"
  by (simp_all add: lw_goto_def)

lemma shared_lane:
  assumes "shared_word c" "l < 4"
  shows "card (readers l c) < 2 ^ 14"
    "unat (local_lock_lane_value (lw_word c) l) = card (readers l c) + (if l = 0 then sx_bit c else 0)"
  using assms by (simp_all add: shared_word_def)

lemma shared_lane_parts:
  assumes "shared_word c" "l < 4"
  shows "\<not> bit (local_lock_lane_value (lw_word c) l) 14"
    "bit (local_lock_lane_value (lw_word c) l) 15 \<longleftrightarrow> l = 0 \<and> (\<exists>t. lw_pc c t = SX_held)"
    "unat (local_lock_lane_value (lw_word c) l AND LOCAL_LOCK_READER_COUNT_MASK) = card (readers l c)"
  using lane_parts [OF shared_lane(2) [OF assms] shared_lane(1) [OF assms]] by (auto simp: sx_bit_def)

text \<open>Steps that leave the word and the holders alone.\<close>

lemma lane_inv_move:
  assumes "lane_inv c" "pc_ok p" "holds_s p = holds_s (lw_pc c t)" "p = X_held \<longleftrightarrow> lw_pc c t = X_held"
    "p = SX_held \<longleftrightarrow> lw_pc c t = SX_held"
  shows "lane_inv (lw_goto t p c)"
proof -
  have h: "holds_s (lw_pc (lw_goto t p c) u) = holds_s (lw_pc c u)" "lw_pc (lw_goto t p c) u = X_held \<longleftrightarrow> lw_pc c u = X_held"
    "lw_pc (lw_goto t p c) u = SX_held \<longleftrightarrow> lw_pc c u = SX_held" for u
    using assms by auto
  have "readers l (lw_goto t p c) = readers l c" for l unfolding readers_def h(1) ..
  moreover have "sx_bit (lw_goto t p c) = sx_bit c" unfolding sx_bit_def h(3) ..
  ultimately have "shared_word (lw_goto t p c) = shared_word c" "exclusive_word (lw_goto t p c) = exclusive_word c"
    unfolding shared_word_def exclusive_word_def h by simp_all
  then show ?thesis using assms(1,2) by (simp add: lane_inv_def)
qed

lemma readers_add:
  assumes "\<not> holds_s (lw_pc c t)" "holds_s p"
  shows "readers l (lw_goto t p c) = (if l = local_lock_lane_for_tid (fst t) then insert t (readers l c) else readers l c)"
    "t \<notin> readers l c"
  using assms by (auto simp: readers_def)

lemma readers_remove:
  assumes "\<not> holds_s p"
  shows "readers l (lw_goto t p c) = (if l = local_lock_lane_for_tid (fst t) then readers l c - {t} else readers l c)"
  using assms by (auto simp: readers_def)

lemma readers_word [simp]: "readers l (c\<lparr>lw_word := x\<rparr>) = readers l c" "sx_bit (c\<lparr>lw_word := x\<rparr>) = sx_bit c"
  by (simp_all add: readers_def sx_bit_def)

lemma sx_bit_goto: "p \<noteq> SX_held \<Longrightarrow> lw_pc c t \<noteq> SX_held \<Longrightarrow> sx_bit (lw_goto t p c) = sx_bit c"
  unfolding sx_bit_def by (rule arg_cong [where f = "\<lambda>b. if b then _ else _"]) auto

lemma holder_shared:
  assumes "lane_inv c" "holds_s (lw_pc c t) \<or> lw_pc c t = SX_held"
  shows "shared_word c"
proof (rule ccontr)
  assume "\<not> shared_word c"
  then obtain u where u: "lw_pc c u = X_held" "\<forall>u'. u' \<noteq> u \<longrightarrow> lw_pc c u' \<noteq> SX_held \<and> \<not> holds_s (lw_pc c u')"
    using assms(1) by (auto simp: lane_inv_def exclusive_word_def)
  then show False using assms(2) by (cases "t = u") auto
qed

lemma lane_inv_s_cas:
  assumes inv: "lane_inv c" and pc: "lw_pc c t = S_seen v" and v: "my_lane t c = v"
  shows "lane_inv (lw_goto t S_held (c\<lparr>lw_word := set_lane (local_lock_lane_for_tid (fst t)) (lane_count_plus v) (lw_word c)\<rparr>))"
proof -
  let ?l = "local_lock_lane_for_tid (fst t)"
  let ?c' = "lw_goto t S_held (c\<lparr>lw_word := set_lane ?l (lane_count_plus v) (lw_word c)\<rparr>)"
  have ok: "\<not> bit v 14" "v AND LOCAL_LOCK_READER_COUNT_MASK \<noteq> LOCAL_LOCK_READER_COUNT_MASK"
    using inv pc by (metis lane_inv_def pc_ok.simps(1))+
  have sh: "shared_word c"
    using inv ok(1) v lane_x_state [of ?l] bit_u16 [of 14 v]
    by (auto simp: lane_inv_def exclusive_word_def my_lane_def split: if_splits)
  have nh: "\<not> holds_s (lw_pc c t)" "lw_pc c t \<noteq> SX_held" using pc by simp_all
  have r: "readers l ?c' = (if l = ?l then insert t (readers l c) else readers l c)" "t \<notin> readers l c" for l
    using readers_add [OF nh(1), of S_held l] by (auto simp: readers_def)
  have cnt: "unat (v AND LOCAL_LOCK_READER_COUNT_MASK) = card (readers ?l c)"
    using shared_lane_parts(3) [OF sh, of ?l] v by (simp add: my_lane_def)
  have small: "Suc (card (readers ?l c)) < 2 ^ 14"
  proof -
    have "card (readers ?l c) \<noteq> 2 ^ 14 - 1" using cnt ok(2) by (auto simp: word_unat_eq_iff lane_consts)
    then show ?thesis using shared_lane(1) [OF sh, of ?l] by simp
  qed
  have up: "unat (v + 1) = Suc (unat v)"
    using shared_lane(2) [OF sh, of ?l] small v by (simp add: my_lane_def unat_word_ariths sx_bit_def split: if_splits)
  have sx: "sx_bit ?c' = sx_bit c" using sx_bit_goto [of S_held _ t] nh by simp
  have "shared_word ?c'"
    unfolding shared_word_def
  proof (intro conjI allI impI)
    show "lw_pc ?c' u \<noteq> X_held" for u using sh by (simp add: shared_word_def)
    show "u = u'" if "lw_pc ?c' u = SX_held" "lw_pc ?c' u' = SX_held" for u u'
      using sh that by (auto simp: shared_word_def split: if_splits)
    fix l :: nat assume l: "l < 4"
    show "card (readers l ?c') < 2 ^ 14" using r small shared_lane(1) [OF sh l] by simp
    show "unat (local_lock_lane_value (lw_word ?c') l) = card (readers l ?c') + (if l = 0 then sx_bit ?c' else 0)"
    proof (cases "l = ?l")
      case True
      have "card (readers l ?c') = Suc (card (readers l c))" using r [of l] True by simp
      moreover have "unat (local_lock_lane_value (lw_word ?c') l) = Suc (unat (local_lock_lane_value (lw_word c) l))"
        using True up v lane_count_plus_eq [OF ok(2)] by (simp add: my_lane_def)
      ultimately show ?thesis using shared_lane(2) [OF sh l] sx by simp
    next
      case False
      then show ?thesis using r [of l] shared_lane(2) [OF sh l] sx by simp
    qed
  qed
  then show ?thesis using inv by (simp add: lane_inv_def)
qed

lemma lane_inv_s_release:
  assumes inv: "lane_inv c" and pc: "lw_pc c t = S_leaving v" and v: "my_lane t c = v"
  shows "lane_inv (lw_goto t L_idle (c\<lparr>lw_word := set_lane (local_lock_lane_for_tid (fst t)) (lane_count_minus v) (lw_word c)\<rparr>))"
proof -
  let ?l = "local_lock_lane_for_tid (fst t)"
  let ?c' = "lw_goto t L_idle (c\<lparr>lw_word := set_lane ?l (lane_count_minus v) (lw_word c)\<rparr>)"
  have ok: "v AND LOCAL_LOCK_READER_COUNT_MASK \<noteq> 0" using inv pc by (metis lane_inv_def pc_ok.simps(3))
  have sh: "shared_word c" by (rule holder_shared [OF inv, of t]) (simp add: pc)
  have r: "readers l ?c' = (if l = ?l then readers l c - {t} else readers l c)" for l
    using readers_remove [of L_idle l t] by simp
  have mem: "t \<in> readers ?l c" using pc by (simp add: readers_def)
  have "v \<noteq> 0" using ok by auto
  then have down: "unat (v - 1) = unat v - 1" by (rule unat_minus_one)
  have sx: "sx_bit ?c' = sx_bit c" using sx_bit_goto [of L_idle _ t] pc by simp
  have pos: "0 < card (readers ?l c)" using mem by (auto simp: card_gt_0_iff)
  have "shared_word ?c'"
    unfolding shared_word_def
  proof (intro conjI allI impI)
    show "lw_pc ?c' u \<noteq> X_held" for u using sh by (simp add: shared_word_def)
    show "u = u'" if "lw_pc ?c' u = SX_held" "lw_pc ?c' u' = SX_held" for u u'
      using sh that by (auto simp: shared_word_def split: if_splits)
    fix l :: nat assume l: "l < 4"
    show "card (readers l ?c') < 2 ^ 14" using r [of l] shared_lane(1) [OF sh l] mem by auto
    show "unat (local_lock_lane_value (lw_word ?c') l) = card (readers l ?c') + (if l = 0 then sx_bit ?c' else 0)"
    proof (cases "l = ?l")
      case True
      have "card (readers l ?c') = card (readers l c) - 1" using r [of l] True mem by simp
      moreover have "unat (local_lock_lane_value (lw_word ?c') l) = unat (local_lock_lane_value (lw_word c) l) - 1"
        using True down v lane_count_minus_eq [OF ok] by (simp add: my_lane_def)
      moreover have "0 < card (readers l c)" using pos True by simp
      ultimately show ?thesis
        using shared_lane(2) [OF sh l] unfolding sx by (simp only: Suc_le_eq add_diff_assoc2 One_nat_def)
    next
      case False
      then show ?thesis using r [of l] shared_lane(2) [OF sh l] sx by simp
    qed
  qed
  then show ?thesis using inv by (simp add: lane_inv_def)
qed

lemma lane_inv_x_cas:
  assumes inv: "lane_inv c" and zero: "lw_word c = 0"
  shows "lane_inv (lw_goto t X_held (c\<lparr>lw_word := LOCAL_LOCK_X_STATE\<rparr>))"
proof -
  have "local_lock_lane_value LOCAL_LOCK_X_STATE 0 \<noteq> 0" by (simp add: lane_x_state)
  then have "LOCAL_LOCK_X_STATE \<noteq> 0" by (metis lane_zero)
  then have sh: "shared_word c" using inv zero by (auto simp: lane_inv_def exclusive_word_def)
  have r: "readers l c = {}" if "l < 4" for l using shared_lane(2) [OF sh that] zero by simp
  have "\<not> holds_s (lw_pc c u)" for u using r [OF lane_for_tid_less [of "fst u"]] by (auto simp: readers_def)
  moreover have "lw_pc c u \<noteq> SX_held" for u
  proof
    assume "lw_pc c u = SX_held"
    then have "sx_bit c \<noteq> 0" by (auto simp: sx_bit_def)
    then show False using shared_lane(2) [OF sh, of 0] zero by simp
  qed
  moreover have "lw_pc c u \<noteq> X_held" for u using sh by (simp add: shared_word_def)
  ultimately have "exclusive_word (lw_goto t X_held (c\<lparr>lw_word := LOCAL_LOCK_X_STATE\<rparr>))"
    unfolding exclusive_word_def by (intro conjI exI [of _ t]) simp_all
  then show ?thesis using inv by (simp add: lane_inv_def)
qed

lemma lane_inv_x_release:
  assumes inv: "lane_inv c" and pc: "lw_pc c t = X_held"
  shows "lane_inv (lw_goto t L_idle (c\<lparr>lw_word := 0\<rparr>))"
proof -
  have "\<not> shared_word c" using pc by (auto simp: shared_word_def)
  then obtain u where u: "lw_pc c u = X_held" "\<forall>u'. u' \<noteq> u \<longrightarrow> lw_pc c u' \<noteq> X_held \<and> lw_pc c u' \<noteq> SX_held \<and> \<not> holds_s (lw_pc c u')"
    using inv by (auto simp: lane_inv_def exclusive_word_def)
  then have "u = t" using pc by metis
  then have n: "lw_pc (lw_goto t L_idle (c\<lparr>lw_word := 0\<rparr>)) u' \<noteq> X_held \<and> lw_pc (lw_goto t L_idle (c\<lparr>lw_word := 0\<rparr>)) u' \<noteq> SX_held \<and>
      \<not> holds_s (lw_pc (lw_goto t L_idle (c\<lparr>lw_word := 0\<rparr>)) u')" for u'
    using u by simp
  then have "readers l (lw_goto t L_idle (c\<lparr>lw_word := 0\<rparr>)) = {}" for l unfolding readers_def by simp
  moreover have "sx_bit (lw_goto t L_idle (c\<lparr>lw_word := 0\<rparr>)) = 0" unfolding sx_bit_def using n by auto
  ultimately have "shared_word (lw_goto t L_idle (c\<lparr>lw_word := 0\<rparr>))" using n by (simp add: shared_word_def)
  then show ?thesis using inv by (simp add: lane_inv_def)
qed

lemma shared_sx_update:
  assumes sh: "shared_word c" and ns: "\<not> holds_s (lw_pc c t)" "\<not> holds_s p" and nx: "p \<noteq> X_held"
    and one: "\<And>u. u \<noteq> t \<Longrightarrow> lw_pc c u \<noteq> SX_held"
    and v: "unat v = card (readers 0 c) + (if p = SX_held then 2 ^ 15 else 0)"
  shows "shared_word (lw_goto t p (c\<lparr>lw_word := set_lane LOCAL_LOCK_SX_LANE v (lw_word c)\<rparr>))"
proof -
  let ?c' = "lw_goto t p (c\<lparr>lw_word := set_lane LOCAL_LOCK_SX_LANE v (lw_word c)\<rparr>)"
  have r: "readers l ?c' = readers l c" for l using ns by (auto simp: readers_def)
  have sx: "sx_bit ?c' = (if p = SX_held then 2 ^ 15 else 0)" using one by (auto simp: sx_bit_def)
  show ?thesis
    unfolding shared_word_def
  proof (intro conjI allI impI)
    show "lw_pc ?c' u \<noteq> X_held" for u using sh nx by (simp add: shared_word_def)
    show "u = u'" if "lw_pc ?c' u = SX_held" "lw_pc ?c' u' = SX_held" for u u'
      using that one by (auto split: if_splits)
    fix l :: nat assume l: "l < 4"
    show "card (readers l ?c') < 2 ^ 14" using r shared_lane(1) [OF sh l] by simp
    show "unat (local_lock_lane_value (lw_word ?c') l) = card (readers l ?c') + (if l = 0 then sx_bit ?c' else 0)"
      using r [of l] shared_lane(2) [OF sh l] sx v by (cases "l = 0") (simp_all add: LOCAL_LOCK_SX_LANE_def)
  qed
qed

lemma lane_inv_sx_cas:
  assumes inv: "lane_inv c" and pc: "lw_pc c t = SX_seen v" and v: "sx_lane c = v"
  shows "lane_inv (lw_goto t SX_held (c\<lparr>lw_word := set_lane LOCAL_LOCK_SX_LANE (v OR LOCAL_LOCK_SX_FLAG) (lw_word c)\<rparr>))"
proof -
  have ok: "\<not> bit v 14" "\<not> bit v 15" using inv pc by (metis lane_inv_def pc_ok.simps(2))+
  have v0: "local_lock_lane_value (lw_word c) 0 = v" using v by (simp add: sx_lane_def LOCAL_LOCK_SX_LANE_def)
  have sh: "shared_word c"
    using inv ok(1) v0 lane_x_state [of 0] bit_u16 [of 14 v]
    by (auto simp: lane_inv_def exclusive_word_def)
  have none: "lw_pc c u \<noteq> SX_held" for u using shared_lane_parts(2) [OF sh, of 0] ok(2) v0 by auto
  have "unat v = card (readers 0 c)" using shared_lane(2) [OF sh, of 0] none v0 by (simp add: sx_bit_def)
  moreover have "v AND LOCAL_LOCK_SX_FLAG = 0" using ok by simp
  then have "v OR LOCAL_LOCK_SX_FLAG = v + LOCAL_LOCK_SX_FLAG" by (rule disjunctive_add_eq_or [symmetric])
  ultimately have "unat (v OR LOCAL_LOCK_SX_FLAG) = card (readers 0 c) + 2 ^ 15"
    using shared_lane(1) [OF sh, of 0] by (simp add: lane_consts unat_word_ariths)
  then have "shared_word (lw_goto t SX_held (c\<lparr>lw_word := set_lane LOCAL_LOCK_SX_LANE (v OR LOCAL_LOCK_SX_FLAG) (lw_word c)\<rparr>))"
    using none pc by (intro shared_sx_update [OF sh]) simp_all
  then show ?thesis using inv by (simp add: lane_inv_def)
qed

lemma lane_inv_sx_release:
  assumes inv: "lane_inv c" and pc: "lw_pc c t = SX_held"
  shows "lane_inv (lw_goto t L_idle (c\<lparr>lw_word := set_lane LOCAL_LOCK_SX_LANE (sx_lane c AND NOT LOCAL_LOCK_SX_FLAG) (lw_word c)\<rparr>))"
    "sx_lane c AND LOCAL_LOCK_SX_FLAG \<noteq> 0"
proof -
  have sh: "shared_word c" by (rule holder_shared [OF inv, of t]) (simp add: pc)
  let ?v = "sx_lane c"
  have v0: "local_lock_lane_value (lw_word c) 0 = ?v" by (simp add: sx_lane_def LOCAL_LOCK_SX_LANE_def)
  show b: "?v AND LOCAL_LOCK_SX_FLAG \<noteq> 0" using shared_lane_parts(2) [OF sh, of 0] pc v0 by auto
  have one: "lw_pc c u \<noteq> SX_held" if "u \<noteq> t" for u using sh pc that by (auto simp: shared_word_def)
  have "unat ?v = card (readers 0 c) + 2 ^ 15" using shared_lane(2) [OF sh, of 0] pc v0 by (auto simp: sx_bit_def)
  moreover have "?v AND LOCAL_LOCK_SX_FLAG = LOCAL_LOCK_SX_FLAG"
  proof -
    have "bit ?v 15" using b by simp
    moreover have f: "LOCAL_LOCK_SX_FLAG = 2 ^ 15" by (simp add: lane_consts)
    ultimately show ?thesis unfolding f by (intro bit_word_eqI) (simp only: bit_and_iff bit_exp_iff, auto)
  qed
  then have "?v AND NOT LOCAL_LOCK_SX_FLAG = ?v - LOCAL_LOCK_SX_FLAG"
    using and_not_plus [of ?v LOCAL_LOCK_SX_FLAG] by (simp add: eq_diff_eq)
  ultimately have "unat (?v AND NOT LOCAL_LOCK_SX_FLAG) = card (readers 0 c)"
    by (simp add: lane_consts unat_sub word_le_nat_alt)
  then have "shared_word (lw_goto t L_idle (c\<lparr>lw_word := set_lane LOCAL_LOCK_SX_LANE (?v AND NOT LOCAL_LOCK_SX_FLAG) (lw_word c)\<rparr>))"
    using one pc by (intro shared_sx_update [OF sh]) simp_all
  then show "lane_inv (lw_goto t L_idle (c\<lparr>lw_word := set_lane LOCAL_LOCK_SX_LANE (?v AND NOT LOCAL_LOCK_SX_FLAG) (lw_word c)\<rparr>))"
    using inv by (simp add: lane_inv_def)
qed

lemma reader_leaving:
  assumes inv: "lane_inv c" and "holds_s (lw_pc c t)"
  shows "pc_ok (S_leaving (my_lane t c))"
proof -
  let ?l = "local_lock_lane_for_tid (fst t)"
  have sh: "shared_word c" by (rule holder_shared [OF inv, of t]) (use assms in simp)
  have "t \<in> readers ?l c" using assms by (simp add: readers_def)
  then have "card (readers ?l c) \<noteq> 0" by auto
  then have "my_lane t c AND LOCAL_LOCK_READER_COUNT_MASK \<noteq> 0"
    using shared_lane_parts(3) [OF sh, of ?l] by (auto simp: my_lane_def)
  then show ?thesis using shared_lane_parts(1) [OF sh, of ?l] by (simp add: my_lane_def)
qed

lemma lane_inv_start: "lane_start c \<Longrightarrow> lane_inv c"
  by (simp add: lane_start_def lane_inv_def shared_word_def readers_def sx_bit_def)

lemma cas_weak_after:
  assumes "env_only w w1" "cas_weak get put e d w1 = (ok, v, w')"
  shows "if ok then \<exists>w2. env_only w w2 \<and> get (st w2) = e \<and> w' = modify (put d) w2 else env_only w w'"
proof (cases ok)
  case True
  then have "cas_weak get put e d w1 = (True, v, w')" using assms(2) by simp
  from cas_weak_ok [OF this] obtain w2 where "env_only w1 w2" "get (st w2) = e" "w' = modify (put d) w2" by blast
  then show ?thesis using True env_only_trans [OF assms(1)] by auto
next
  case False
  then have "cas_weak get put e d w1 = (False, v, w')" using assms(2) by simp
  from env_only_trans [OF assms(1) env_only_cas_weak [OF this]] show ?thesis using False by simp
qed

lemma sx_may_enter_bits: "sx_may_enter state v \<Longrightarrow> \<not> bit v 14 \<and> \<not> bit v 15"
proof -
  assume "sx_may_enter state v"
  then have "v AND (LOCAL_LOCK_SX_FLAG OR LOCAL_LOCK_READER_SENTINEL) = 0" by (simp add: sx_may_enter_def)
  then have "v AND LOCAL_LOCK_SX_FLAG = 0 \<and> v AND LOCAL_LOCK_READER_SENTINEL = 0"
    by (simp only: bit.conj_disj_distrib or_eq_0_iff)
  then show ?thesis by simp
qed

lemma lane_inv_step: "lane_step c c' \<Longrightarrow> lane_inv c \<Longrightarrow> lane_inv c'"
proof (induction rule: lane_step.induct)
  case (s_load c t)
  then show ?case by (intro lane_inv_move) (auto simp: reader_may_enter_def)
next
  case (s_leave c t)
  then show ?case using reader_leaving [of c t] by (intro lane_inv_move) auto
next
  case (s_again c t v)
  then show ?case using reader_leaving [of c t] by (intro lane_inv_move) auto
next
  case (s_reject c t v)
  then have "pc_ok (S_leaving v)" by (metis lane_inv_def)
  then show ?case using s_reject by auto
next
  case (s_release c t v)
  then show ?case by (intro lane_inv_s_release)
next
  case (x_release c t)
  then show ?case unfolding release_x_store_def by (intro lane_inv_x_release)
next
  case (sx_load c t)
  then have "\<not> bit (sx_lane c) 14" "\<not> bit (sx_lane c) 15" using sx_may_enter_bits by blast+
  then show ?case using sx_load by (intro lane_inv_move) auto
next
  case (sx_release c t)
  then show ?case by (intro lane_inv_sx_release(1))
next
  case (sx_reject c t)
  then show ?case using lane_inv_sx_release(2) by blast
qed (auto intro: lane_inv_move lane_inv_s_cas lane_inv_x_cas lane_inv_sx_cas)

lemma lane_inv_reachable: "lane_step\<^sup>*\<^sup>* c c' \<Longrightarrow> lane_start c \<Longrightarrow> lane_inv c'"
  by (induction rule: rtranclp_induct) (auto intro: lane_inv_start lane_inv_step)

section \<open>Properties\<close>

text \<open>C4. The local lock excludes. However any number of threads, each with any number of nested
  attempts, interleave their single accesses to the lanes and to the whole word, with
  compare-and-swaps failing at any time: an attempt that holds the exclusive lock is alone, at
  most one holds the shared-exclusive lock, no release by a holder is ever rejected, and while nobody holds the exclusive lock the counts
  in the lanes are exactly the numbers of readers.\<close>

theorem local_lock_exclusion:
  assumes "lane_step\<^sup>*\<^sup>* c c'" and "lane_start c"
  shows "(lw_pc c' t = X_held \<longrightarrow> u \<noteq> t \<longrightarrow> lw_pc c' u \<noteq> X_held \<and> lw_pc c' u \<noteq> SX_held \<and> \<not> holds_s (lw_pc c' u)) \<and>
    (lw_pc c' t = SX_held \<longrightarrow> lw_pc c' u = SX_held \<longrightarrow> t = u) \<and> lw_pc c' t \<noteq> L_failed \<and>
    ((\<forall>x. lw_pc c' x \<noteq> X_held) \<longrightarrow> l < 4 \<longrightarrow>
       unat (local_lock_lane_value (lw_word c') l AND LOCAL_LOCK_READER_COUNT_MASK) = card (readers l c'))"
proof -
  have inv: "lane_inv c'" using assms by (rule lane_inv_reachable)
  have "lw_pc c' t \<noteq> L_failed" using inv by (metis lane_inv_def pc_ok.simps(4))
  moreover consider "shared_word c'" | "exclusive_word c'" using inv by (auto simp: lane_inv_def)
  then have "(lw_pc c' t = X_held \<longrightarrow> u \<noteq> t \<longrightarrow> lw_pc c' u \<noteq> X_held \<and> lw_pc c' u \<noteq> SX_held \<and> \<not> holds_s (lw_pc c' u)) \<and>
    (lw_pc c' t = SX_held \<longrightarrow> lw_pc c' u = SX_held \<longrightarrow> t = u) \<and>
    ((\<forall>x. lw_pc c' x \<noteq> X_held) \<longrightarrow> l < 4 \<longrightarrow>
       unat (local_lock_lane_value (lw_word c') l AND LOCAL_LOCK_READER_COUNT_MASK) = card (readers l c'))"
  proof cases
    case 1
    then show ?thesis using shared_lane_parts(3) [OF 1, of l] by (auto simp: shared_word_def)
  next
    case 2
    then obtain h where h: "lw_pc c' h = X_held"
      "\<forall>u. u \<noteq> h \<longrightarrow> lw_pc c' u \<noteq> X_held \<and> lw_pc c' u \<noteq> SX_held \<and> \<not> holds_s (lw_pc c' u)"
      by (auto simp: exclusive_word_def)
    then have "lw_pc c' x = X_held \<Longrightarrow> x = h" "lw_pc c' x \<noteq> SX_held" for x by (metis, metis lane_pc.distinct)
    then show ?thesis using h by metis
  qed
  ultimately show ?thesis by blast
qed

definition lane_initial :: lane_sys where
  "lane_initial = \<lparr>lw_word = 0, lw_pc = (\<lambda>_. L_idle)\<rparr>"

theorem local_lock_exclusion_witness:
  "\<exists>c'. lane_step\<^sup>*\<^sup>* lane_initial c' \<and> lw_pc c' (5, 0) = X_held \<and> lw_pc c' (7, 0) \<noteq> SX_held \<and>
     \<not> holds_s (lw_pc c' (7, 0)) \<and> \<not> holds_s (lw_pc c' (5, 1))"
proof -
  let ?c1 = "lw_goto (5, 0) X_seen lane_initial"
  let ?c2 = "lw_goto (5, 0) X_held (?c1\<lparr>lw_word := LOCAL_LOCK_X_STATE\<rparr>)"
  have "lane_step lane_initial ?c1" by (rule x_load) (simp_all add: lane_initial_def local_lock_state_is_idle_def)
  moreover have "lane_step ?c1 ?c2" by (rule x_cas) (simp_all add: lane_initial_def)
  ultimately have run: "lane_step\<^sup>*\<^sup>* lane_initial ?c2" by (rule converse_rtranclp_into_rtranclp [OF _ r_into_rtranclp])
  have start: "lane_start lane_initial" by (simp add: lane_start_def lane_initial_def)
  have "lw_pc ?c2 (5, 0) = X_held" by simp
  then show ?thesis
    using run local_lock_exclusion [OF run start, of "(5, 0)" "(7, 0)" 0]
      local_lock_exclusion [OF run start, of "(5, 0)" "(5, 1)" 0] by (intro exI [of _ ?c2]) simp
qed

lemma try_acquire_x_atomic:
  assumes "local_lock_try_acquire_x r w = (ok, w')"
  shows "if ok then \<exists>w1. env_only w w1 \<and> rd r (st w1) = 0 \<and> w' = modify (wr r LOCAL_LOCK_X_STATE) w1 else env_only w w'"
proof -
  obtain state w1 where l: "load (rd r) w = (state, w1)" by (rule prod.exhaust)
  have e1: "env_only w w1" using l by (rule env_only_load)
  consider "ok = False" "w' = w1" | v where "state = 0" "cas_weak (rd r) (wr r) 0 LOCAL_LOCK_X_STATE w1 = (ok, v, w')"
    using assms l by (auto simp: local_lock_try_acquire_x_def local_lock_state_is_idle_def split: if_splits prod.splits)
  then show ?thesis
  proof cases
    case 2
    then show ?thesis using cas_weak_after [OF e1 2(2)] by simp
  qed (use e1 in simp)
qed

lemma try_acquire_s_atomic:
  assumes "local_lock_try_acquire_s r t w = (ok, w')"
  shows "if ok then \<exists>w1 v. env_only w w1 \<and> lane_get r (local_lock_lane_for_tid t) (st w1) = v \<and> \<not> bit v 14 \<and>
      unat (lane_count_plus v) = unat v + 1 \<and> w' = modify (lane_put r (local_lock_lane_for_tid t) (lane_count_plus v)) w1 else env_only w w'"
proof -
  let ?l = "local_lock_lane_for_tid t"
  obtain state w1 where l: "load (rd r) w = (state, w1)" by (rule prod.exhaust)
  have e1: "env_only w w1" using l by (rule env_only_load)
  define v where "v = local_lock_lane_value state ?l"
  consider "ok = False" "w' = w1"
    | v' where "reader_may_enter state v" "cas_weak (lane_get r ?l) (lane_put r ?l) v (lane_count_plus v) w1 = (ok, v', w')"
    using assms l by (auto simp: local_lock_try_acquire_s_def compare_exchange_lane_weak_def v_def Let_def split: if_splits prod.splits)
  then show ?thesis
  proof cases
    case 2
    then have v: "\<not> bit v 14" "v AND LOCAL_LOCK_READER_COUNT_MASK \<noteq> LOCAL_LOCK_READER_COUNT_MASK"
      by (auto simp: reader_may_enter_def)
    have "unat (lane_count_plus v) = unat v + 1"
      using v(2) lane_count_plus_no_wrap by simp
    then show ?thesis using cas_weak_after [OF e1 2(2)] v(1) by auto
  qed (use e1 in simp)
qed

lemma try_acquire_sx_atomic:
  assumes "local_lock_try_acquire_sx r w = (ok, w')"
  shows "if ok then \<exists>w1 v. env_only w w1 \<and> lane_get r LOCAL_LOCK_SX_LANE (st w1) = v \<and> \<not> bit v 14 \<and> \<not> bit v 15 \<and>
      w' = modify (lane_put r LOCAL_LOCK_SX_LANE (v OR LOCAL_LOCK_SX_FLAG)) w1 else env_only w w'"
proof -
  obtain state w1 where l: "load (rd r) w = (state, w1)" by (rule prod.exhaust)
  have e1: "env_only w w1" using l by (rule env_only_load)
  define v where "v = local_lock_lane_value state LOCAL_LOCK_SX_LANE"
  consider "ok = False" "w' = w1"
    | v' where "sx_may_enter state v"
        "cas_weak (lane_get r LOCAL_LOCK_SX_LANE) (lane_put r LOCAL_LOCK_SX_LANE) v (v OR LOCAL_LOCK_SX_FLAG) w1 = (ok, v', w')"
    using assms l by (auto simp: local_lock_try_acquire_sx_def compare_exchange_lane_weak_def v_def Let_def split: if_splits prod.splits)
  then show ?thesis
  proof cases
    case 2
    then show ?thesis using sx_may_enter_bits [of state v] cas_weak_after [OF e1 2(2)] by auto
  qed (use e1 in simp)
qed

text \<open>C17. An attempt changes the word once or not at all. Whatever the other threads do, an attempt to
  acquire that succeeds ends with a single atomic change of the word: a reader adds one to
  its lane, in which there was no sentinel; a writer replaces an idle word by the exclusive
  state; a shared-exclusive holder sets its flag where neither the flag nor the sentinel was. An
  attempt that fails has written nothing.\<close>

theorem acquire_attempts_atomic:
  "(local_lock_try_acquire_s r t w = (ok, w') \<longrightarrow>
      (if ok then \<exists>w1 v. env_only w w1 \<and> lane_get r (local_lock_lane_for_tid t) (st w1) = v \<and> \<not> bit v 14 \<and>
           unat (lane_count_plus v) = unat v + 1 \<and> w' = modify (lane_put r (local_lock_lane_for_tid t) (lane_count_plus v)) w1
       else env_only w w')) \<and>
   (local_lock_try_acquire_x r w = (ok, w') \<longrightarrow>
      (if ok then \<exists>w1. env_only w w1 \<and> rd r (st w1) = 0 \<and> w' = modify (wr r LOCAL_LOCK_X_STATE) w1 else env_only w w')) \<and>
   (local_lock_try_acquire_sx r w = (ok, w') \<longrightarrow>
      (if ok then \<exists>w1 v. env_only w w1 \<and> lane_get r LOCAL_LOCK_SX_LANE (st w1) = v \<and> \<not> bit v 14 \<and> \<not> bit v 15 \<and>
           w' = modify (lane_put r LOCAL_LOCK_SX_LANE (v OR LOCAL_LOCK_SX_FLAG)) w1
       else env_only w w'))"
  using try_acquire_s_atomic [of r t w ok w'] try_acquire_x_atomic [of r w ok w'] try_acquire_sx_atomic [of r w ok w']
  by blast

definition word_itself :: "u64 word_ref" where
  "word_itself = \<lparr>rd = id, wr = (\<lambda>v _. v)\<rparr>"

theorem acquire_attempts_atomic_witness:
  "(\<exists>w1 v. env_only (quiet 0) w1 \<and> lane_get word_itself 1 (st w1) = v \<and> \<not> bit v 14 \<and>
      unat (lane_count_plus v) = unat v + 1 \<and> quiet 0x10000 = modify (lane_put word_itself 1 (lane_count_plus v)) w1) \<and>
   (\<exists>w1. env_only (quiet 0) w1 \<and> rd word_itself (st w1) = 0 \<and>
      quiet LOCAL_LOCK_X_STATE = modify (wr word_itself LOCAL_LOCK_X_STATE) w1) \<and>
   (\<exists>w1 v. env_only (quiet 0) w1 \<and> lane_get word_itself LOCAL_LOCK_SX_LANE (st w1) = v \<and> \<not> bit v 14 \<and> \<not> bit v 15 \<and>
      quiet 0x8000 = modify (lane_put word_itself LOCAL_LOCK_SX_LANE (v OR LOCAL_LOCK_SX_FLAG)) w1)"
proof (intro conjI)
  have lane: "local_lock_lane_for_tid 1 = 1"
    by (simp add: local_lock_lane_for_tid_def LOCAL_LOCK_READER_LANES_def)
  then have "local_lock_try_acquire_s word_itself 1 (quiet 0) = (True, quiet 0x10000)"
    by (simp add: local_lock_try_acquire_s_def word_itself_def reader_may_enter_def compare_exchange_lane_weak_def
        lane_get_def lane_put_def lane_count_plus_def set_lane_def lane_consts)
  with lane show "\<exists>w1 v. env_only (quiet 0) w1 \<and> lane_get word_itself 1 (st w1) = v \<and> \<not> bit v 14 \<and>
      unat (lane_count_plus v) = unat v + 1 \<and> quiet 0x10000 = modify (lane_put word_itself 1 (lane_count_plus v)) w1"
    using acquire_attempts_atomic [of word_itself 1 "quiet 0" True "quiet 0x10000"] by simp
  have "local_lock_try_acquire_x word_itself (quiet 0) = (True, quiet LOCAL_LOCK_X_STATE)"
    by (simp add: local_lock_try_acquire_x_def word_itself_def local_lock_state_is_idle_def)
  then show "\<exists>w1. env_only (quiet 0) w1 \<and> rd word_itself (st w1) = 0 \<and>
      quiet LOCAL_LOCK_X_STATE = modify (wr word_itself LOCAL_LOCK_X_STATE) w1"
    using acquire_attempts_atomic [of word_itself 0 "quiet 0" True "quiet LOCAL_LOCK_X_STATE"] by simp
  have "local_lock_try_acquire_sx word_itself (quiet 0) = (True, quiet 0x8000)"
    by (simp add: local_lock_try_acquire_sx_def word_itself_def sx_may_enter_def compare_exchange_lane_weak_def
        lane_get_def lane_put_def set_lane_def lane_consts)
  then show "\<exists>w1 v. env_only (quiet 0) w1 \<and> lane_get word_itself LOCAL_LOCK_SX_LANE (st w1) = v \<and> \<not> bit v 14 \<and> \<not> bit v 15 \<and>
      quiet 0x8000 = modify (lane_put word_itself LOCAL_LOCK_SX_LANE (v OR LOCAL_LOCK_SX_FLAG)) w1"
    using acquire_attempts_atomic [of word_itself 0 "quiet 0" True "quiet 0x8000"] by simp
qed

end
