(* ===== verification/Mpsc_Ring.thy ===== *)
theory Mpsc_Ring
  imports Atomic_Prelude
begin

text \<open>
  The multi-producer single-consumer ring buffer, \<open>src/ub_comm_queue/MPSCRingBuffer.cpp\<close>:
  byte-level entries in shared memory, reservation of a slot by compare-and-swap on the
  64-bit tail, commit through the entry's \<open>ready_seq\<close>, flow control by a congestion
  threshold, and the consumer's recovery from half-written entries. Operations run in a
  world of interference; a write outside an entry's memory is an outcome of its own.
\<close>

section \<open>Return codes and byte encodings\<close>

definition UB_COMM_OK :: int where "UB_COMM_OK = 0"
definition UB_COMM_SEND_CONGESTED :: int where "UB_COMM_SEND_CONGESTED = 1"
definition UB_COMM_ERR_RING_FULL :: int where "UB_COMM_ERR_RING_FULL = - 4096"
definition UB_COMM_ERR_RING_BUSY :: int where "UB_COMM_ERR_RING_BUSY = - 4097"
definition UB_COMM_ERR_PEER_NODE_NOT_FOUND :: int where "UB_COMM_ERR_PEER_NODE_NOT_FOUND = - 4098"
definition UB_COMM_ERR_PEER_NOT_READY :: int where "UB_COMM_ERR_PEER_NOT_READY = - 4099"
definition UB_COMM_ERR_RING_NOT_FOUND :: int where "UB_COMM_ERR_RING_NOT_FOUND = - 4100"

text \<open>The Linux error numbers the code returns, negated.\<close>

definition EINVAL :: int where "EINVAL = - 22"
definition EMSGSIZE :: int where "EMSGSIZE = - 90"

lemmas comm_codes =
  UB_COMM_OK_def UB_COMM_SEND_CONGESTED_def UB_COMM_ERR_RING_FULL_def UB_COMM_ERR_RING_BUSY_def
  UB_COMM_ERR_PEER_NODE_NOT_FOUND_def UB_COMM_ERR_PEER_NOT_READY_def
  UB_COMM_ERR_RING_NOT_FOUND_def EINVAL_def EMSGSIZE_def

text \<open>Little-endian bytes of a machine word.\<close>

definition le_bytes :: "nat \<Rightarrow> 'a::len word \<Rightarrow> u8 list" where
  "le_bytes n w = map (\<lambda>i. ucast (drop_bit (8 * i) w)) [0..<n]"

fun of_le :: "u8 list \<Rightarrow> 'a::len word" where
  "of_le [] = 0"
| "of_le (b # bs) = ucast b OR push_bit 8 (of_le bs)"

text \<open>The message header (\<open>message_header_t\<close>), 16 bytes without padding.\<close>

record message_header_t =
  src_thread_id :: u64
  body_length :: u32
  dest_node_id :: u8
  src_node_id :: u8
  msg_type :: u8
  priority :: u8

definition MSG_HEADER_LEN :: nat where "MSG_HEADER_LEN = 16"

definition header_bytes :: "message_header_t \<Rightarrow> u8 list" where
  "header_bytes h = le_bytes 8 (src_thread_id h) @ le_bytes 4 (body_length h) @
     [dest_node_id h, src_node_id h, msg_type h, priority h]"

definition header_of_bytes :: "u8 list \<Rightarrow> message_header_t" where
  "header_of_bytes bs = \<lparr>src_thread_id = of_le (take 8 bs), body_length = of_le (take 4 (drop 8 bs)),
     dest_node_id = bs ! 12, src_node_id = bs ! 13, msg_type = bs ! 14, priority = bs ! 15\<rparr>"

section \<open>State\<close>

record ring_entry =
  ready_seq :: u64
  data :: "u8 list"

record mpsc =
  r_head :: u64
  r_tail :: u64
  r_entry_stride :: u64
  r_entry_num :: u64
  r_max_msg_size :: u64
  r_index_mask :: u32
  r_cached_head :: u64
  r_threshold :: u32
  r_threshold_version :: u64
  r_congested :: u8
  r_max_depth :: u64
  r_entries :: "ring_entry list"
  r_clock_us :: u64

text \<open>A remote producer sees the ring through its process's \<open>RemoteRingCache\<close>.\<close>

record remote_view = mpsc +
  v_shadow_head :: u64
  v_threshold :: u32
  v_threshold_version :: u64

definition CACHELINE_SIZE :: u64 where "CACHELINE_SIZE = 64"
definition ENTRY_HEADER :: u64 where "ENTRY_HEADER = 8"
definition MAX_CAS_RETRIES :: nat where "MAX_CAS_RETRIES = 1000"
definition DEFAULT_CONGESTION_THRESHOLD_PERCENT :: u32 where "DEFAULT_CONGESTION_THRESHOLD_PERCENT = 80"
definition FLOW_CONFIG_REFRESH_INTERVAL :: u64 where "FLOW_CONFIG_REFRESH_INTERVAL = 1024"
definition HALF_WRITE_TIMEOUT_US :: u64 where "HALF_WRITE_TIMEOUT_US = 5000000"
definition STALE_RESERVED_PROBE_MASK :: u32 where "STALE_RESERVED_PROBE_MASK = 511"
definition LOCAL_STALE_STATE_SLOTS :: nat where "LOCAL_STALE_STATE_SLOTS = 32"

text \<open>\<open>sizeof(MPSCRingBuffer)\<close>: head and tail on cache lines of their own, the constants behind
  the tail, the flow-control words on a third line.\<close>

definition SIZEOF_MPSC :: u64 where "SIZEOF_MPSC = 192"

definition GetDataOffset :: u64 where
  "GetDataOffset = (SIZEOF_MPSC + 63) AND NOT 63"

definition get_entry :: "u64 \<Rightarrow> ('z) mpsc_scheme \<Rightarrow> ring_entry" where
  "get_entry idx s = r_entries s ! unat idx"

definition upd_entry :: "u64 \<Rightarrow> (ring_entry \<Rightarrow> ring_entry) \<Rightarrow> 'z mpsc_scheme \<Rightarrow> 'z mpsc_scheme" where
  "upd_entry idx f s = s\<lparr>r_entries := (r_entries s)[unat idx := f (get_entry idx s)]\<rparr>"

text \<open>The byte address of an entry relative to the ring object.\<close>

definition entry_offset :: "u64 \<Rightarrow> u64 \<Rightarrow> u64" where
  "entry_offset stride idx = GetDataOffset + idx * stride"

section \<open>Construction\<close>

definition calculate_flow_threshold :: "u32 \<Rightarrow> u32 \<Rightarrow> u32" where
  "calculate_flow_threshold capacity percent =
     (let threshold = ((ucast capacity :: u64) * ucast percent + 99) div 100;
          threshold = (if percent \<noteq> 0 \<and> threshold = 0 then 1 else threshold);
          threshold = (if threshold > ucast capacity then ucast capacity else threshold)
      in ucast threshold)"

definition align_cacheline :: "u64 \<Rightarrow> u64" where
  "align_cacheline n =
     (if n mod CACHELINE_SIZE \<noteq> 0 then n + (CACHELINE_SIZE - n mod CACHELINE_SIZE) else n)"

definition CalculateMemorySize :: "u32 \<Rightarrow> u32 \<Rightarrow> u64" where
  "CalculateMemorySize capacity max_msg_size =
     (let single_entry_size = align_cacheline (ENTRY_HEADER + ucast max_msg_size)
      in GetDataOffset + single_entry_size * ucast capacity)"

text \<open>The constructor: \<open>None\<close> is the exception for a capacity that is not a power of two. The
  bytes behind the object are whatever the memory held (\<open>mem\<close>); the clock keeps running.\<close>

definition MPSCRingBuffer :: "(nat \<Rightarrow> u8) \<Rightarrow> u64 \<Rightarrow> u32 \<Rightarrow> u32 \<Rightarrow> mpsc option" where
  "MPSCRingBuffer mem now capacity max_msg_size =
     (if capacity = 0 \<or> capacity AND (capacity - 1) \<noteq> 0 then None
      else let stride = align_cacheline (ENTRY_HEADER + ucast max_msg_size) in
        Some \<lparr>r_head = 0, r_tail = 0, r_entry_stride = stride, r_entry_num = ucast capacity,
              r_max_msg_size = ucast max_msg_size, r_index_mask = capacity - 1, r_cached_head = 0,
              r_threshold = calculate_flow_threshold capacity DEFAULT_CONGESTION_THRESHOLD_PERCENT,
              r_threshold_version = 1, r_congested = 0, r_max_depth = 0,
              r_entries = map (\<lambda>i. \<lparr>ready_seq = 0,
                  data = map (\<lambda>j. mem (unat (entry_offset stride (of_nat i)) + 8 + j)) [0..<unat stride - 8]\<rparr>)
                [0..<unat capacity],
              r_clock_us = now\<rparr>)"

section \<open>Flow control\<close>

definition get_flow_threshold :: "'z mpsc_scheme world \<Rightarrow> u32 \<times> 'z mpsc_scheme world" where
  "get_flow_threshold w = load r_threshold w"

definition get_congestion_threshold :: "'z mpsc_scheme world \<Rightarrow> u32 \<times> 'z mpsc_scheme world" where
  "get_congestion_threshold w = get_flow_threshold w"

definition get_congestion_threshold_version :: "'z mpsc_scheme world \<Rightarrow> u64 \<times> 'z mpsc_scheme world" where
  "get_congestion_threshold_version w = load r_threshold_version w"

function record_depth_loop :: "u64 \<Rightarrow> u64 \<Rightarrow> 'z mpsc_scheme world \<Rightarrow> 'z mpsc_scheme world" where
  "record_depth_loop used old w =
     (if used > old
      then let (ok, old', w') = cas_weak r_max_depth (\<lambda>v s. s\<lparr>r_max_depth := v\<rparr>) old used w
           in if ok then w' else record_depth_loop used old' w'
      else w)"
  by auto
termination
  by (relation "measures [\<lambda>(used, old, w). length (script w),
                          \<lambda>(used, old, w). if r_max_depth (st w) = old then 0 else 1]")
    (auto dest!: sym [of "(_, _, _)"] dest: cas_weak_retry)

definition record_depth :: "u64 \<Rightarrow> 'z mpsc_scheme world \<Rightarrow> 'z mpsc_scheme world" where
  "record_depth used w = (let (old, w1) = load r_max_depth w in record_depth_loop used old w1)"

text \<open>The logging of a congestion edge has no effect on the state.\<close>

definition sample_flow_state :: "u64 \<Rightarrow> 'z mpsc_scheme world \<Rightarrow> int \<times> 'z mpsc_scheme world" where
  "sample_flow_state used w =
     (let used = (if used > r_entry_num (st w) then r_entry_num (st w) else used);
          w1 = record_depth used w;
          (threshold, w2) = get_flow_threshold w1 in
      if used \<ge> ucast threshold then
        let (c, w3) = load r_congested w2 in
        if c \<noteq> 0 then (UB_COMM_SEND_CONGESTED, w3)
        else let (ok, e, w4) = cas_strong r_congested (\<lambda>v s. s\<lparr>r_congested := v\<rparr>) 0 1 w3
             in (UB_COMM_SEND_CONGESTED, w4)
      else
        let (c, w3) = load r_congested w2 in
        if c = 0 then (UB_COMM_OK, w3)
        else let (ok, e, w4) = cas_strong r_congested (\<lambda>v s. s\<lparr>r_congested := v\<rparr>) 1 0 w3 in
          if ok then (UB_COMM_OK, w4)
          else let (c', w5) = load r_congested w4
               in (if c' \<noteq> 0 then UB_COMM_SEND_CONGESTED else UB_COMM_OK, w5))"

definition approximate_used :: "'z mpsc_scheme world \<Rightarrow> u64 \<times> 'z mpsc_scheme world" where
  "approximate_used w =
     (let (t, w1) = load r_tail w; (h, w2) = load r_head w1;
          used = (if t \<ge> h then t - h else 0)
      in (if used > r_entry_num (st w2) then r_entry_num (st w2) else used, w2))"

definition flow_result_after_enqueue ::
  "u64 \<Rightarrow> 'z mpsc_scheme world \<Rightarrow> int \<times> 'z mpsc_scheme world" where
  "flow_result_after_enqueue new_tail w =
     (let (threshold, w1) = get_flow_threshold w;
          (cached, w2) = load r_cached_head w1;
          used = (if new_tail \<ge> cached then new_tail - cached else 0) in
      if used < ucast threshold then (UB_COMM_OK, w2)
      else let (fresh, w3) = load r_head w2;
               w4 = store (\<lambda>s. s\<lparr>r_cached_head := fresh\<rparr>) w3;
               used = (if new_tail \<ge> fresh then new_tail - fresh else 0)
           in sample_flow_state used w4)"

definition refresh_cached_threshold ::
  "'z remote_view_scheme world \<Rightarrow> u32 \<times> 'z remote_view_scheme world" where
  "refresh_cached_threshold w =
     (let (remote_version, w1) = load r_threshold_version w;
          (version, w2) = load v_threshold_version w1;
          w3 = (if remote_version \<noteq> version
                then let (t, wa) = get_flow_threshold w2
                     in store (\<lambda>s. s\<lparr>v_threshold_version := remote_version\<rparr>)
                          (store (\<lambda>s. s\<lparr>v_threshold := t\<rparr>) wa)
                else w2)
      in load v_threshold w3)"

definition flow_result_after_enqueue_cached ::
  "u64 \<Rightarrow> 'z remote_view_scheme world \<Rightarrow> int \<times> 'z remote_view_scheme world" where
  "flow_result_after_enqueue_cached new_tail w =
     (let (threshold, w1) = load v_threshold w;
          (version, w2) = load v_threshold_version w1;
          (threshold, w3) =
            (if version = 0 \<or> new_tail AND (FLOW_CONFIG_REFRESH_INTERVAL - 1) = 0
             then refresh_cached_threshold w2 else (threshold, w2)) in
      if threshold = 0 then (UB_COMM_SEND_CONGESTED, w3)
      else
        let (cached, w4) = load v_shadow_head w3;
            used = (if new_tail \<ge> cached then new_tail - cached else 0) in
        if used < ucast threshold then (UB_COMM_OK, w4)
        else
          let (threshold, w5) = refresh_cached_threshold w4;
              (fresh, w6) = load r_head w5;
              w7 = store (\<lambda>s. s\<lparr>v_shadow_head := fresh\<rparr>) w6;
              used = (if new_tail \<ge> fresh then new_tail - fresh else 0)
          in sample_flow_state used w7)"

definition configure_congestion_threshold :: "u32 \<Rightarrow> 'z mpsc_scheme world \<Rightarrow> int \<times> 'z mpsc_scheme world" where
  "configure_congestion_threshold percent w =
     (if percent > 100 then (EINVAL, w)
      else
        let w1 = store (\<lambda>s. s\<lparr>r_threshold := calculate_flow_threshold (ucast (r_entry_num s)) percent\<rparr>) w;
            w2 = store (\<lambda>s. s\<lparr>r_threshold_version := r_threshold_version s + 1\<rparr>) w1;
            (used, w3) = approximate_used w2;
            (r, w4) = sample_flow_state used w3
        in (UB_COMM_OK, w4))"

datatype ub_comm_queue_state_t =
  UB_COMM_QUEUE_IDLE | UB_COMM_QUEUE_NORMAL | UB_COMM_QUEUE_CONGESTED | UB_COMM_QUEUE_FULL

record ub_comm_queue_status_t =
  s_used :: u64
  s_total :: u64
  s_free :: u64
  s_state :: ub_comm_queue_state_t
  s_congestion_threshold :: u64
  s_max_depth :: u64

definition get_status :: "'z mpsc_scheme world \<Rightarrow> ub_comm_queue_status_t \<times> 'z mpsc_scheme world" where
  "get_status w =
     (let (used, w1) = approximate_used w;
          w2 = record_depth used w1;
          total = r_entry_num (st w2);
          (threshold, w3) = get_flow_threshold w2;
          (depth, w4) = load r_max_depth w3;
          state = (if used \<ge> total then UB_COMM_QUEUE_FULL
                   else if threshold = 0 \<or> used \<ge> ucast threshold then UB_COMM_QUEUE_CONGESTED
                   else if used = 0 then UB_COMM_QUEUE_IDLE
                   else UB_COMM_QUEUE_NORMAL)
      in (\<lparr>s_used = used, s_total = total, s_free = (if used \<ge> total then 0 else total - used),
           s_state = state, s_congestion_threshold = ucast threshold, s_max_depth = depth\<rparr>, w4))"

section \<open>Producers\<close>

text \<open>How a producer's call ends: with a return code, or with a write beyond the entry's
  memory, after which nothing is known.\<close>

datatype outcome = Returned int | Out_of_bounds

definition write_at :: "nat \<Rightarrow> u8 list \<Rightarrow> u8 list \<Rightarrow> u8 list" where
  "write_at off bs d = take off d @ bs @ drop (off + length bs) d"

text \<open>Copying header and body into a reserved entry and committing it; a null body pointer is
  never read because the body is then empty.\<close>

definition body_bytes :: "(nat \<Rightarrow> u8) option \<Rightarrow> u32 \<Rightarrow> u8 list" where
  "body_bytes body body_len = (case body of None \<Rightarrow> [] | Some b \<Rightarrow> map b [0..<unat body_len])"

definition write_message ::
  "u64 \<Rightarrow> message_header_t \<Rightarrow> (nat \<Rightarrow> u8) option \<Rightarrow> u32 \<Rightarrow> u64 \<Rightarrow> 'z mpsc_scheme world
   \<Rightarrow> 'z mpsc_scheme world option" where
  "write_message idx hdr body body_len seqv w =
     (let w1 = store (upd_entry idx (\<lambda>e. e\<lparr>data := write_at 0 (header_bytes hdr) (data e)\<rparr>)) w in
      if MSG_HEADER_LEN + unat body_len > length (data (get_entry idx (st w1))) then None
      else
        let w2 = (if body_len > 0
                  then store (upd_entry idx (\<lambda>e. e\<lparr>data :=
                         write_at MSG_HEADER_LEN (body_bytes body body_len) (data e)\<rparr>)) w1
                  else w1)
        in Some (store (upd_entry idx (\<lambda>e. e\<lparr>ready_seq := seqv\<rparr>)) w2))"

text \<open>The reservation loop of a local producer: \<open>None\<close> when the ring is full.\<close>

definition local_room :: "u64 \<Rightarrow> 'z mpsc_scheme world \<Rightarrow> bool \<times> 'z mpsc_scheme world" where
  "local_room curr_tail w =
     (let (cached_head, w1) = load r_cached_head w in
      if cached_head + r_entry_num (st w1) \<le> curr_tail then
        let (fresh_head, w2) = load r_head w1;
            w3 = store (\<lambda>s. s\<lparr>r_cached_head := fresh_head\<rparr>) w2
        in (\<not> fresh_head + r_entry_num (st w3) \<le> curr_tail, w3)
      else (True, w1))"

lemma local_room_script: "local_room t w = (b, w') \<Longrightarrow> length (script w') \<le> length (script w)"
  by (auto simp: local_room_def Let_def dest!: load_script split: prod.splits if_splits)

lemma local_room_quiet:
  "local_room t (quiet s) =
     (if r_cached_head s + r_entry_num s \<le> t
      then (\<not> r_head s + r_entry_num s \<le> t, quiet (s\<lparr>r_cached_head := r_head s\<rparr>))
      else (True, quiet s))"
  by (simp add: local_room_def)

function reserve_local :: "u64 \<Rightarrow> 'z mpsc_scheme world \<Rightarrow> u64 option \<times> 'z mpsc_scheme world" where
  "reserve_local curr_tail w =
     (let (room, w1) = local_room curr_tail w in
      if \<not> room then (None, snd (sample_flow_state (r_entry_num (st w1)) w1))
      else let (ok, t', w2) = cas_weak r_tail (\<lambda>v s. s\<lparr>r_tail := v\<rparr>) curr_tail (curr_tail + 1) w1
           in if ok then (Some curr_tail, w2) else reserve_local t' w2)"
  by auto

lemma reserve_local_round:
  assumes r: "local_room t w = (True, w1)"
    and c: "cas_weak r_tail (\<lambda>v s. s\<lparr>r_tail := v\<rparr>) t d w1 = (False, t', w2)"
  shows "length (script w2) < length (script w) \<or>
         length (script w2) = length (script w) \<and> r_tail (st w2) = t' \<and> r_tail (st w) \<noteq> t"
proof (cases "script w")
  case Nil
  then obtain s where w: "w = quiet s" by (metis quiet_eq)
  show ?thesis using assms by (auto simp: w local_room_quiet split: if_splits)
next
  case (Cons e es)
  have "length (script w1) \<le> length (script w)" using r by (rule local_room_script)
  moreover have "script w2 = tl (script w1)" using c by (rule cas_weak_script)
  ultimately show ?thesis using Cons by (intro disjI1) (cases "script w1"; simp)
qed

termination reserve_local
proof (relation "measures [\<lambda>(t, w). length (script w), \<lambda>(t, w). if r_tail (st w) = t then 0 else 1]", goal_cases)
  case 1
  then show ?case by simp
next
  case (2 t w x room w1 y ok z t' w2)
  then have "local_room t w = (True, w1)"
    "cas_weak r_tail (\<lambda>v s. s\<lparr>r_tail := v\<rparr>) t (t + 1) w1 = (False, t', w2)"
    by simp_all
  from reserve_local_round [OF this] show ?case by auto
qed

definition enqueue_local ::
  "message_header_t option \<Rightarrow> (nat \<Rightarrow> u8) option \<Rightarrow> u32 \<Rightarrow> 'z mpsc_scheme world
   \<Rightarrow> outcome \<times> 'z mpsc_scheme world" where
  "enqueue_local hdr body body_len w =
     (let total_len = (of_nat MSG_HEADER_LEN :: u32) + body_len in
      case hdr of
        None \<Rightarrow> (Returned EINVAL, w)
      | Some h \<Rightarrow>
          if body_len > 0 \<and> body = None then (Returned EINVAL, w)
          else if ucast total_len > r_max_msg_size (st w) then (Returned EMSGSIZE, w)
          else let (t0, w1) = load r_tail w in
            case reserve_local t0 w1 of
              (None, w2) \<Rightarrow> (Returned UB_COMM_ERR_RING_FULL, w2)
            | (Some t, w2) \<Rightarrow>
                (case write_message (t AND ucast (r_index_mask (st w2))) h body body_len (t + 1) w2 of
                   None \<Rightarrow> (Out_of_bounds, w2)
                 | Some w3 \<Rightarrow> (let (r, w4) = flow_result_after_enqueue (t + 1) w3 in (Returned r, w4))))"

text \<open>The loop of a remote producer gives up after \<open>MAX_CAS_RETRIES + 1\<close> attempts.\<close>

definition remote_room :: "u64 \<Rightarrow> u64 \<Rightarrow> 'z remote_view_scheme world \<Rightarrow> bool \<times> 'z remote_view_scheme world" where
  "remote_room capacity curr_tail w =
     (let (cached_head, w1) = load v_shadow_head w in
      if cached_head + capacity \<le> curr_tail then
        let (fresh_head, w2) = load r_head w1;
            w3 = store (\<lambda>s. s\<lparr>v_shadow_head := fresh_head\<rparr>) w2
        in (\<not> fresh_head + capacity \<le> curr_tail, w3)
      else (True, w1))"

fun reserve_remote ::
  "nat \<Rightarrow> u64 \<Rightarrow> u64 \<Rightarrow> 'z remote_view_scheme world \<Rightarrow> (int + u64) \<times> 'z remote_view_scheme world" where
  "reserve_remote 0 capacity curr_tail w = (Inl UB_COMM_ERR_RING_BUSY, w)"
| "reserve_remote (Suc n) capacity curr_tail w =
     (let (room, w1) = remote_room capacity curr_tail w in
      if \<not> room then (Inl UB_COMM_ERR_RING_FULL, snd (sample_flow_state capacity w1))
      else let (ok, t', w2) = cas_weak r_tail (\<lambda>v s. s\<lparr>r_tail := v\<rparr>) curr_tail (curr_tail + 1) w1
           in if ok then (Inr curr_tail, w2) else reserve_remote n capacity t' w2)"

text \<open>\<open>remote_this\<close> is \<open>None\<close> for the null pointer; \<open>mask\<close>, \<open>stride\<close> and \<open>max_size\<close> are the values
  the caller cached. With a stride that is not the ring's, or an index beyond its entries, the
  computed address is not an entry.\<close>

definition enqueue_remote ::
  "message_header_t option \<Rightarrow> (nat \<Rightarrow> u8) option \<Rightarrow> u32 \<Rightarrow> u64 \<Rightarrow> u64 \<Rightarrow> u64
   \<Rightarrow> 'z remote_view_scheme world option \<Rightarrow> outcome \<times> 'z remote_view_scheme world option" where
  "enqueue_remote hdr body body_len mask_v stride max_size remote_this =
     (case remote_this of
        None \<Rightarrow> (Returned EINVAL, None)
      | Some w \<Rightarrow>
        (case hdr of
           None \<Rightarrow> (Returned EINVAL, Some w)
         | Some h \<Rightarrow>
           if body_len > 0 \<and> body = None then (Returned EINVAL, Some w)
           else if ucast ((of_nat MSG_HEADER_LEN :: u32) + body_len) > max_size then (Returned EMSGSIZE, Some w)
           else
             let (t0, w1) = load r_tail w; capacity = (ucast (ucast (mask_v + 1) :: u32) :: u64) in
             case reserve_remote (MAX_CAS_RETRIES + 1) capacity t0 w1 of
               (Inl e, w2) \<Rightarrow> (Returned e, Some w2)
             | (Inr t, w2) \<Rightarrow>
                 if stride \<noteq> r_entry_stride (st w2) \<or> length (r_entries (st w2)) \<le> unat (t AND mask_v)
                 then (Out_of_bounds, Some w2)
                 else (case write_message (t AND mask_v) h body body_len (t + 1) w2 of
                    None \<Rightarrow> (Out_of_bounds, Some w2)
                  | Some w3 \<Rightarrow>
                      (let (r, w4) = flow_result_after_enqueue_cached (t + 1) w3 in (Returned r, Some w4)))))"

section \<open>The consumer\<close>

text \<open>The consumer thread's private table of suspected half-written entries, indexed by a hash
  of the ring's address; address 0 is the null pointer.\<close>

record stale_state =
  ss_ring :: u64
  ss_head_seq :: u64
  ss_first_seen_us :: u64

definition stale_initial :: stale_state where
  "stale_initial = \<lparr>ss_ring = 0, ss_head_seq = -1, ss_first_seen_us = 0\<rparr>"

record consumer =
  c_probe :: u32
  c_states :: "stale_state list"

definition consumer_initial :: consumer where
  "consumer_initial = \<lparr>c_probe = 0, c_states = replicate LOCAL_STALE_STATE_SLOTS stale_initial\<rparr>"

definition stale_start :: "u64 \<Rightarrow> nat" where
  "stale_start ring = unat (drop_bit 6 ring AND (of_nat LOCAL_STALE_STATE_SLOTS - 1))"

text \<open>The slot of a ring and the table after claiming it.\<close>

definition get_local_stale_state :: "u64 \<Rightarrow> stale_state list \<Rightarrow> nat \<times> stale_state list" where
  "get_local_stale_state ring states =
     (let start = stale_start ring;
          slots = map (\<lambda>i. (start + i) mod LOCAL_STALE_STATE_SLOTS) [0..<LOCAL_STALE_STATE_SLOTS] in
      case find (\<lambda>idx. ss_ring (states ! idx) = ring \<or> ss_ring (states ! idx) = 0) slots of
        Some idx \<Rightarrow> (idx, states[idx := (states ! idx)\<lparr>ss_ring := ring\<rparr>])
      | None \<Rightarrow> (start, states[start := stale_initial\<lparr>ss_ring := ring\<rparr>]))"

definition try_skip_stale_reserved_entry ::
  "u64 \<Rightarrow> u64 \<Rightarrow> u64 \<Rightarrow> stale_state list \<Rightarrow> 'z mpsc_scheme world
   \<Rightarrow> bool \<times> stale_state list \<times> 'z mpsc_scheme world" where
  "try_skip_stale_reserved_entry ring idx cur_head states w =
     (let (t, w1) = load r_tail w in
      if t \<le> cur_head then (False, states, w1)
      else
        let expected_seq = cur_head + 1; (q, w2) = load (ready_seq \<circ> get_entry idx) w1 in
        if q = expected_seq then (False, states, w2)
        else
          let (k, states1) = get_local_stale_state ring states;
              state = states1 ! k;
              (now, w3) = load r_clock_us w2 in
          if ss_head_seq state \<noteq> cur_head
          then (False, states1[k := state\<lparr>ss_head_seq := cur_head, ss_first_seen_us := now\<rparr>], w3)
          else if ss_first_seen_us state = 0 \<or> now < ss_first_seen_us state \<or>
                  now - ss_first_seen_us state < HALF_WRITE_TIMEOUT_US
          then (False, states1, w3)
          else
            let forget = states1[k := state\<lparr>ss_head_seq := -1, ss_first_seen_us := 0\<rparr>];
                (q', w4) = load (ready_seq \<circ> get_entry idx) w3 in
            if q' = expected_seq then (False, forget, w4)
            else
              let w5 = store (upd_entry idx (\<lambda>e. e\<lparr>ready_seq := 0\<rparr>)) w4;
                  w6 = store (\<lambda>s. s\<lparr>r_head := expected_seq\<rparr>) w5;
                  (c, w7) = load r_congested w6;
                  w8 = (if c \<noteq> 0 then let (used, wa) = approximate_used w7 in snd (sample_flow_state used wa)
                        else w7)
              in (True, forget, w8))"

text \<open>\<open>dequeue\<close>: the number of bytes copied and the bytes; 0 and none if there is no message.\<close>

definition entry_body_length :: "u8 list \<Rightarrow> u32" where
  "entry_body_length d = body_length (header_of_bytes d)"

definition retire_head :: "u64 \<Rightarrow> u64 \<Rightarrow> 'z mpsc_scheme world \<Rightarrow> 'z mpsc_scheme world" where
  "retire_head idx expected_seq w =
     store (\<lambda>s. s\<lparr>r_head := expected_seq\<rparr>) (store (upd_entry idx (\<lambda>e. e\<lparr>ready_seq := 0\<rparr>)) w)"

definition dequeue ::
  "u64 \<Rightarrow> u32 \<Rightarrow> consumer \<Rightarrow> 'z mpsc_scheme world
   \<Rightarrow> (u32 \<times> u8 list) \<times> consumer \<times> 'z mpsc_scheme world" where
  "dequeue ring buffer_cap c w =
     (let (cur_head, w1) = load r_head w;
          idx = cur_head AND ucast (r_index_mask (st w1));
          expected_seq = cur_head + 1;
          (q, w2) = load (ready_seq \<circ> get_entry idx) w1 in
      if q \<noteq> expected_seq then
        let c' = c\<lparr>c_probe := c_probe c + 1\<rparr> in
        if c_probe c' AND STALE_RESERVED_PROBE_MASK \<noteq> 0 then ((0, []), c', w2)
        else let (b, states, w3) = try_skip_stale_reserved_entry ring idx cur_head (c_states c') w2
             in ((0, []), c'\<lparr>c_states := states\<rparr>, w3)
      else
        let (d, w3) = load (data \<circ> get_entry idx) w2;
            real_len = (of_nat MSG_HEADER_LEN :: u64) + ucast (entry_body_length d) in
        if real_len > r_max_msg_size (st w3) then ((0, []), c, retire_head idx expected_seq w3)
        else
          let copy_len = (if real_len > ucast buffer_cap then buffer_cap else ucast real_len);
              w4 = retire_head idx expected_seq w3;
              (g, w5) = load r_congested w4;
              w6 = (if g \<noteq> 0 then let (used, wa) = approximate_used w5 in snd (sample_flow_state used wa) else w5)
          in ((copy_len, take (unat copy_len) d), c, w6))"

definition trigger_force_full :: "'z mpsc_scheme world \<Rightarrow> 'z mpsc_scheme world" where
  "trigger_force_full w =
     (let (curr_tail, w1) = load r_tail w;
          fake_head = curr_tail - r_entry_num (st w1)
      in store (\<lambda>s. s\<lparr>r_head := fake_head\<rparr>) w1)"

declare record_depth_loop.simps [simp del] reserve_local.simps [simp del]

end
