(* ===== verification/Mpsc_Refine.thy ===== *)
theory Mpsc_Refine
  imports Mpsc_Ring
begin

text \<open>
  The ring buffer as a bounded FIFO channel of messages: round trips of the byte encodings,
  the sizes and the layout of the ring in memory, the flow-control results, and the
  refinement of an abstract channel by \<open>enqueue_local\<close>, \<open>enqueue_remote\<close> and \<open>dequeue\<close> run one
  after the other. Also what goes wrong with a body length near \<open>2 ^ 32\<close>, and with the
  forged head of \<open>trigger_force_full\<close>.
\<close>

section \<open>Bytes\<close>

lemma length_le_bytes [simp]: "length (le_bytes n w) = n"
  by (simp add: le_bytes_def)

lemma bit_of_le:
  "bit (of_le bs :: 'a::len word) i \<longleftrightarrow> i < LENGTH('a) \<and> i < 8 * length bs \<and> bit (bs ! (i div 8)) (i mod 8)"
proof (induction bs arbitrary: i)
  case (Cons b bs)
  show ?case
  proof (cases "i < 8")
    case True
    then show ?thesis by (auto simp: bit_simps dest: bit_imp_le_length)
  next
    case False
    then obtain j where j: "i = 8 + j" by (metis add.commute le_Suc_ex not_less)
    have "\<not> bit b i" using False by (auto dest: bit_imp_le_length)
    moreover have "(8 + j) div 8 = Suc (j div 8)" by simp
    ultimately show ?thesis using Cons [of j] by (auto simp: j bit_simps)
  qed
qed simp

lemma of_le_bytes: "LENGTH('a) \<le> 8 * n \<Longrightarrow> of_le (le_bytes n w) = (w :: 'a::len word)"
proof (rule bit_word_eqI)
  fix i assume "LENGTH('a) \<le> 8 * n" "i < LENGTH('a)"
  then show "bit (of_le (le_bytes n w) :: 'a word) i = bit w i"
    by (simp add: bit_of_le le_bytes_def bit_simps less_mult_imp_div_less mult.commute)
qed

lemma length_header_bytes [simp]: "length (header_bytes h) = MSG_HEADER_LEN"
  by (simp add: header_bytes_def MSG_HEADER_LEN_def)

lemma header_roundtrip: "header_of_bytes (header_bytes h @ rest) = h"
proof -
  let ?z = "[dest_node_id h, src_node_id h, msg_type h, priority h] @ rest"
  have nth: "(le_bytes 8 (src_thread_id h) @ le_bytes 4 (body_length h) @ ?z) ! (12 + i) = ?z ! i" for i
    by (simp add: nth_append)
  have "of_le (le_bytes 8 (src_thread_id h)) = src_thread_id h" "of_le (le_bytes 4 (body_length h)) = body_length h"
    by (simp_all add: of_le_bytes)
  then show ?thesis
    using nth [of 0] nth [of 1] nth [of 2] nth [of 3]
    by (simp add: header_of_bytes_def header_bytes_def)
qed

section \<open>Sizes\<close>

lemma unat_add_small: "unat (a :: 'a::len word) + unat b < 2 ^ LENGTH('a) \<Longrightarrow> unat (a + b) = unat a + unat b"
  by (simp add: unat_word_ariths)

lemma unat_mult_small: "unat (a :: 'a::len word) * unat b < 2 ^ LENGTH('a) \<Longrightarrow> unat (a * b) = unat a * unat b"
  by (simp add: unat_word_ariths)

lemma unat_u32_less: "unat (x :: u32) < 4294967296"
  using unat_less_exp [of x] by simp

lemma unat_ucast_u64 [simp]: "unat (ucast (x :: u32) :: u64) = unat x"
  by (simp add: unat_ucast_up)

lemma unat_flow_threshold:
  assumes p: "unat percent \<le> 100"
  shows "unat (calculate_flow_threshold capacity percent) = (unat capacity * unat percent + 99) div 100"
proof -
  let ?c = "unat capacity" and ?p = "unat percent"
  let ?t = "((ucast capacity :: u64) * ucast percent + 99) div 100"
  have c: "?c < 4294967296" by (rule unat_u32_less)
  have prod: "?c * ?p \<le> ?c * 100" using p by simp
  have b: "?c * ?p \<le> 4294967296 * 100" using c p by (intro mult_le_mono) auto
  then have m: "unat ((ucast capacity :: u64) * ucast percent) = ?c * ?p"
    by (subst unat_mult_small) simp_all
  have "unat ((ucast capacity :: u64) * ucast percent + 99) = ?c * ?p + 99"
    using b m by (subst unat_add_small) simp_all
  then have t: "unat ?t = (?c * ?p + 99) div 100" by (simp add: unat_div_distrib)
  have "(?c * ?p + 99) div 100 \<le> (?c * 100 + 99) div 100"
    by (rule div_le_mono) (use prod in linarith)
  then have le: "(?c * ?p + 99) div 100 \<le> ?c" by simp
  then have tle: "\<not> ?t > ucast capacity" using t by (simp add: word_less_nat_alt)
  have "?t \<noteq> 0 \<or> percent = 0 \<or> capacity = 0"
  proof (cases "percent = 0 \<or> capacity = 0")
    case False
    then have "0 < ?c * ?p" by (simp add: unat_gt_0)
    then have "unat ?t \<noteq> 0" unfolding t by linarith
    then show ?thesis by auto
  qed auto
  moreover have "unat (ucast ?t :: u32) = (?c * ?p + 99) div 100"
    using le c t by (simp add: unsigned_ucast_eq take_bit_nat_eq_self)
  moreover have "?t = 0" if "capacity = 0" using t that by (simp add: unat_eq_zero)
  ultimately show ?thesis
    using tle by (auto simp: calculate_flow_threshold_def Let_def)
qed

lemma data_offset: "unat GetDataOffset = 192"
  by (simp add: GetDataOffset_def SIZEOF_MPSC_def)

lemma round_up_64:
  fixes n :: nat
  shows "n \<le> (n + 63) div 64 * 64" and "(n + 63) div 64 * 64 \<le> n + 63"
    and "0 < n mod 64 \<Longrightarrow> n + (64 - n mod 64) = (n + 63) div 64 * 64"
    and "n mod 64 = 0 \<Longrightarrow> n = (n + 63) div 64 * 64"
proof -
  have q: "(n + 63) div 64 * 64 + (n + 63) mod 64 = n + 63" by simp
  have b: "(n + 63) mod 64 \<le> 63" by (simp add: less_Suc_eq_le [symmetric])
  show "n \<le> (n + 63) div 64 * 64" "(n + 63) div 64 * 64 \<le> n + 63" using q b by linarith+
  show "n mod 64 = 0 \<Longrightarrow> n = (n + 63) div 64 * 64" by auto
  assume r: "0 < n mod 64"
  define u v where "u = n div 64" and "v = n mod 64"
  have n: "n = u * 64 + v" and v: "0 < v" "v < 64" using r by (simp_all add: u_def v_def)
  have "(u * 64 + v + 63) div 64 = u + 1" using v by (intro div_nat_eqI) auto
  then show "n + (64 - n mod 64) = (n + 63) div 64 * 64" using n v unfolding v_def [symmetric] by simp
qed

lemma unat_align:
  assumes "unat n + 64 < 2 ^ 64"
  shows "unat (align_cacheline n) = (unat n + 63) div 64 * 64"
proof -
  have m: "unat (n mod 64) = unat n mod 64" by (simp add: unat_mod_distrib)
  show ?thesis
  proof (cases "n mod 64 = 0")
    case True
    then have "unat n mod 64 = 0" using m by (metis unat_0)
    then show ?thesis using True round_up_64(4) [of "unat n"] by (simp add: align_cacheline_def CACHELINE_SIZE_def)
  next
    case False
    then have nz: "0 < unat n mod 64" using m by (metis unat_gt_0)
    have "n mod 64 \<le> 64" using m by (simp add: word_le_nat_alt)
    then have d: "unat (64 - n mod 64) = 64 - unat n mod 64" using m by (simp add: unat_diff_le)
    have "unat (n + (64 - n mod 64)) = unat n + (64 - unat n mod 64)"
      using assms d by (subst unat_add_small) auto
    moreover have "unat n + (64 - unat n mod 64) = (unat n + 63) div 64 * 64"
      using nz by (rule round_up_64(3))
    ultimately show ?thesis using False by (simp add: align_cacheline_def CACHELINE_SIZE_def)
  qed
qed

definition ring_stride :: "u32 \<Rightarrow> u64" where
  "ring_stride max_msg_size = align_cacheline (ENTRY_HEADER + ucast max_msg_size)"

lemma unat_stride: "unat (ring_stride m) = (unat m + 71) div 64 * 64"
proof -
  have "unat (ENTRY_HEADER + ucast m) = 8 + unat m"
    using unat_u32_less [of m] by (subst unat_add_small) (simp_all add: ENTRY_HEADER_def)
  then show ?thesis
    using unat_align [of "ENTRY_HEADER + ucast m"] unat_u32_less [of m]
    by (simp add: ring_stride_def add.commute)
qed

lemma stride_bounds: "8 + unat m \<le> unat (ring_stride m)" "64 dvd unat (ring_stride m)"
    "unat (ring_stride m) \<le> 4294967360"
  using unat_u32_less [of m] round_up_64(1,2) [of "unat m + 8"] unfolding unat_stride by simp_all

lemma unat_memory_size:
  assumes "k < 32" and "unat capacity = 2 ^ k"
  shows "unat (CalculateMemorySize capacity m) = 192 + unat (ring_stride m) * 2 ^ k"
proof -
  have "(2::nat) ^ k \<le> 2 ^ 31" using assms by (intro power_increasing) auto
  then have b: "unat (ring_stride m) * 2 ^ k \<le> 4294967360 * 2147483648"
    using stride_bounds(3) [of m] by (intro mult_le_mono) auto
  then have "unat (ring_stride m * ucast capacity) = unat (ring_stride m) * 2 ^ k"
    using assms by (subst unat_mult_small) auto
  then show ?thesis
    using b unfolding CalculateMemorySize_def Let_def ring_stride_def [symmetric]
    by (subst unat_add_small) (simp_all add: data_offset)
qed

section \<open>Flow control in a quiet environment\<close>

text \<open>What the flow-control words are not: the ring proper and its threshold.\<close>

definition core :: "'z mpsc_scheme \<Rightarrow> u64 \<times> u64 \<times> ring_entry list \<times> u64 \<times> u32 \<times> u64 \<times> u64 \<times> u32 \<times> u64" where
  "core s = (r_head s, r_tail s, r_entries s, r_entry_num s, r_index_mask s, r_entry_stride s,
             r_max_msg_size s, r_threshold s, r_threshold_version s)"

lemma record_depth_quiet:
  "record_depth used (quiet s) =
     quiet (if used > r_max_depth s then s\<lparr>r_max_depth := used\<rparr> else s)"
  by (simp add: record_depth_def record_depth_loop.simps)

definition sampled :: "u64 \<Rightarrow> 'z mpsc_scheme \<Rightarrow> u64" where
  "sampled used s = (if used > r_entry_num s then r_entry_num s else used)"

definition sample_state :: "u64 \<Rightarrow> 'z mpsc_scheme \<Rightarrow> 'z mpsc_scheme" where
  "sample_state used s = s
     \<lparr>r_max_depth := (if sampled used s > r_max_depth s then sampled used s else r_max_depth s),
      r_congested := (if sampled used s \<ge> ucast (r_threshold s)
                      then (if r_congested s = 0 then 1 else r_congested s)
                      else (if r_congested s = 1 then 0 else r_congested s))\<rparr>"

lemma sample_state_core:
  "core (sample_state used s) = core s" "r_cached_head (sample_state used s) = r_cached_head s"
  "r_congested s = 0 \<or> r_congested s = 1 \<Longrightarrow>
     r_congested (sample_state used s) = 0 \<or> r_congested (sample_state used s) = 1"
  by (auto simp: sample_state_def core_def)

lemma sample_state_more: "mpsc.more (sample_state used s) = mpsc.more s"
  by (simp add: sample_state_def)

lemma sample_quiet:
  assumes "r_congested s = 0 \<or> r_congested s = 1"
  shows "sample_flow_state used (quiet s) =
           (if sampled used s \<ge> ucast (r_threshold s) then UB_COMM_SEND_CONGESTED else UB_COMM_OK,
            quiet (sample_state used s))"
proof -
  define u where "u = sampled used s"
  let ?d = "if u > r_max_depth s then u else r_max_depth s"
  have d: "record_depth u (quiet s) = quiet (s\<lparr>r_max_depth := ?d\<rparr>)"
    by (simp add: record_depth_quiet)
  have u: "(if r_entry_num (st (quiet s)) < used then r_entry_num (st (quiet s)) else used) = u"
    by (simp add: u_def sampled_def)
  show ?thesis
    using assms unfolding sample_flow_state_def u sample_state_def u_def [symmetric]
    by (cases "r_congested s = 0") (simp_all add: d get_flow_threshold_def)
qed

lemma approximate_used_quiet:
  "approximate_used (quiet s) =
     (sampled (if r_tail s \<ge> r_head s then r_tail s - r_head s else 0) s, quiet s)"
  by (simp add: approximate_used_def sampled_def)

lemma sampled_le: "unat x \<le> unat (r_entry_num s) \<Longrightarrow> sampled x s = x"
  by (simp add: sampled_def word_less_nat_alt)

text \<open>A producer learns exactly whether the ring, including its own message, is at the
  threshold, although it looks at a cached head first.\<close>

lemma flow_local_quiet:
  assumes c: "r_congested s = 0 \<or> r_congested s = 1"
    and h: "unat (r_cached_head s) \<le> unat (r_head s)" "unat (r_head s) \<le> unat new_tail"
    and n: "unat new_tail - unat (r_head s) \<le> unat (r_entry_num s)"
  shows "\<exists>s'. flow_result_after_enqueue new_tail (quiet s) =
           (if unat (r_threshold s) \<le> unat new_tail - unat (r_head s)
            then UB_COMM_SEND_CONGESTED else UB_COMM_OK, quiet s') \<and>
         core s' = core s \<and> unat (r_cached_head s') \<le> unat (r_head s) \<and>
         (r_congested s' = 0 \<or> r_congested s' = 1) \<and> mpsc.more s' = mpsc.more s"
proof -
  let ?c = "r_cached_head s" and ?h = "r_head s"
  let ?used = "if new_tail \<ge> ?c then new_tail - ?c else 0"
  have le: "?c \<le> new_tail" "?h \<le> new_tail" using h by (simp_all add: word_le_nat_alt)
  have d: "unat (new_tail - ?c) = unat new_tail - unat ?c" "unat (new_tail - ?h) = unat new_tail - unat ?h"
    using le by (simp_all add: unat_diff_le)
  show ?thesis
  proof (cases "new_tail - ?c < ucast (r_threshold s)")
    case True
    then have "unat new_tail - unat ?h < unat (r_threshold s)"
      using h d by (simp add: word_less_nat_alt)
    then show ?thesis
      using True c h le by (simp add: flow_result_after_enqueue_def get_flow_threshold_def)
  next
    case False
    let ?s = "s\<lparr>r_cached_head := ?h\<rparr>"
    have "sampled (new_tail - ?h) ?s = new_tail - ?h" using d n by (intro sampled_le) simp
    then have thr: "sampled (new_tail - ?h) ?s \<ge> ucast (r_threshold ?s) \<longleftrightarrow>
        unat (r_threshold s) \<le> unat new_tail - unat ?h"
      using d by (simp add: word_le_nat_alt)
    have "core ?s = core s" by (simp add: core_def)
    then show ?thesis
      using False le c sample_quiet [of ?s "new_tail - ?h"] thr sample_state_core(1,2) [of "new_tail - ?h" ?s]
        sample_state_core(3) [of ?s] sample_state_more [of _ ?s]
      by (simp add: flow_result_after_enqueue_def get_flow_threshold_def)
  qed
qed

text \<open>The same for a remote producer, whose cached threshold may be out of date until the next
  refresh: the result is exact if the cache is empty or current.\<close>

definition refreshed :: "'z remote_view_scheme \<Rightarrow> 'z remote_view_scheme" where
  "refreshed s = (if r_threshold_version s \<noteq> v_threshold_version s
     then s\<lparr>v_threshold := r_threshold s, v_threshold_version := r_threshold_version s\<rparr> else s)"

definition cache_current :: "'z remote_view_scheme \<Rightarrow> bool" where
  "cache_current s \<longleftrightarrow> r_threshold_version s \<noteq> 0 \<and>
     (v_threshold_version s = 0 \<or>
      v_threshold_version s = r_threshold_version s \<and> v_threshold s = r_threshold s)"

lemma refresh_quiet: "refresh_cached_threshold (quiet s) = (v_threshold (refreshed s), quiet (refreshed s))"
  by (simp add: refresh_cached_threshold_def refreshed_def get_flow_threshold_def)

lemma refreshed_fields [simp]:
  "core (refreshed s) = core s" "r_cached_head (refreshed s) = r_cached_head s"
  "r_congested (refreshed s) = r_congested s" "v_shadow_head (refreshed s) = v_shadow_head s"
  "r_head (refreshed s) = r_head s" "r_threshold (refreshed s) = r_threshold s"
  "r_entry_num (refreshed s) = r_entry_num s" "r_threshold_version (refreshed s) = r_threshold_version s"
  "v_threshold_version (refreshed s) = r_threshold_version s"
  by (simp_all add: refreshed_def core_def)

lemma refreshed_current: "cache_current s \<Longrightarrow> v_threshold (refreshed s) = r_threshold s"
  by (auto simp: refreshed_def cache_current_def)

lemma sample_state_view:
  "v_shadow_head (sample_state u s) = v_shadow_head s" "v_threshold (sample_state u s) = v_threshold s"
  "v_threshold_version (sample_state u s) = v_threshold_version s"
  "r_threshold (sample_state u s) = r_threshold s" "r_threshold_version (sample_state u s) = r_threshold_version s"
  by (simp_all add: sample_state_def)

lemma flow_remote_quiet:
  assumes c: "r_congested s = 0 \<or> r_congested s = 1"
    and h: "unat (v_shadow_head s) \<le> unat (r_head s)" "unat (r_head s) \<le> unat new_tail"
    and n: "unat new_tail - unat (r_head s) \<le> unat (r_entry_num s)"
  shows "\<exists>r s'. flow_result_after_enqueue_cached new_tail (quiet s) = (r, quiet s') \<and>
         (r = UB_COMM_OK \<or> r = UB_COMM_SEND_CONGESTED) \<and>
         (cache_current s \<longrightarrow> r = (if unat (r_threshold s) \<le> unat new_tail - unat (r_head s)
                                 then UB_COMM_SEND_CONGESTED else UB_COMM_OK) \<and> cache_current s') \<and>
         core s' = core s \<and> r_cached_head s' = r_cached_head s \<and>
         unat (v_shadow_head s') \<le> unat (r_head s) \<and>
         (r_congested s' = 0 \<or> r_congested s' = 1)"
proof -
  let ?c = "v_shadow_head s" and ?h = "r_head s"
  define s0 where "s0 = (if v_threshold_version s = 0 \<or> new_tail AND (FLOW_CONFIG_REFRESH_INTERVAL - 1) = 0
                         then refreshed s else s)"
  have s0: "core s0 = core s" "r_cached_head s0 = r_cached_head s" "r_congested s0 = r_congested s"
    "v_shadow_head s0 = ?c" "r_head s0 = ?h" "r_threshold s0 = r_threshold s" "r_entry_num s0 = r_entry_num s"
    "r_threshold_version s0 = r_threshold_version s"
    by (simp_all add: s0_def)
  have cur0: "v_threshold s0 = r_threshold s \<and> cache_current s0" if "cache_current s"
    using that refreshed_current [OF that] by (auto simp: s0_def cache_current_def)
  have le: "?c \<le> new_tail" "?h \<le> new_tail" using h by (simp_all add: word_le_nat_alt)
  have d: "unat (new_tail - ?c) = unat new_tail - unat ?c" "unat (new_tail - ?h) = unat new_tail - unat ?h"
    using le by (simp_all add: unat_diff_le)
  let ?run = "flow_result_after_enqueue_cached new_tail (quiet s)"
  have thr0: "(if v_threshold_version s = 0 \<or> new_tail AND (FLOW_CONFIG_REFRESH_INTERVAL - 1) = 0
               then refresh_cached_threshold (quiet s) else (v_threshold s, quiet s)) = (v_threshold s0, quiet s0)"
    by (simp add: s0_def refresh_quiet)
  have run0: "?run = (if v_threshold s0 = 0 then (UB_COMM_SEND_CONGESTED, quiet s0)
      else if new_tail - ?c < ucast (v_threshold s0) then (UB_COMM_OK, quiet s0)
      else sample_flow_state (new_tail - ?h) (quiet ((refreshed s0)\<lparr>v_shadow_head := ?h\<rparr>)))"
    by (simp only: flow_result_after_enqueue_cached_def Let_def load_quiet prod.case thr0)
       (simp add: s0 le refresh_quiet)
  consider (zero) "v_threshold s0 = 0" | (low) "v_threshold s0 \<noteq> 0" "new_tail - ?c < ucast (v_threshold s0)"
    | (high) "v_threshold s0 \<noteq> 0" "\<not> new_tail - ?c < ucast (v_threshold s0)" by blast
  then show ?thesis
  proof cases
    case zero
    then have "?run = (UB_COMM_SEND_CONGESTED, quiet s0)" by (simp add: run0)
    then show ?thesis using zero s0 cur0 c h by auto
  next
    case low
    then have "?run = (UB_COMM_OK, quiet s0)" by (simp add: run0)
    moreover have "unat new_tail - unat ?h < unat (r_threshold s)" if "cache_current s"
      using low(2) d h cur0 [OF that] by (simp add: word_less_nat_alt)
    ultimately show ?thesis using s0 cur0 c h by auto
  next
    case high
    let ?s = "(refreshed s0)\<lparr>v_shadow_head := ?h\<rparr>"
    have "sampled (new_tail - ?h) ?s = new_tail - ?h" using d n s0 by (intro sampled_le) simp
    then have thr: "sampled (new_tail - ?h) ?s \<ge> ucast (r_threshold ?s) \<longleftrightarrow>
        unat (r_threshold s) \<le> unat new_tail - unat ?h"
      using d s0 by (simp add: word_le_nat_alt)
    have c': "r_congested ?s = 0 \<or> r_congested ?s = 1" using c s0 by simp
    have "?run = sample_flow_state (new_tail - ?h) (quiet ?s)" using high by (simp add: run0)
    then have run: "?run = (if unat (r_threshold s) \<le> unat new_tail - unat ?h
        then UB_COMM_SEND_CONGESTED else UB_COMM_OK, quiet (sample_state (new_tail - ?h) ?s))"
      using sample_quiet [OF c', of "new_tail - ?h"] thr by simp
    have "cache_current (sample_state (new_tail - ?h) ?s)" if "cache_current s"
      using refreshed_current [of s0] cur0 [OF that] by (auto simp: cache_current_def sample_state_view s0)
    moreover have "core ?s = core s" using s0 by (simp add: core_def refreshed_def)
    ultimately show ?thesis
      using run s0 sample_state_core(3) [OF c', of "new_tail - ?h"]
      by (auto simp: sample_state_core sample_state_view)
  qed
qed

section \<open>The ring as a list of messages\<close>

definition slot :: "nat \<Rightarrow> 'z mpsc_scheme \<Rightarrow> nat \<Rightarrow> ring_entry" where
  "slot k s i = r_entries s ! (i mod 2 ^ k)"

definition message_of :: "u8 list \<Rightarrow> u8 list" where
  "message_of d = take (MSG_HEADER_LEN + unat (entry_body_length d)) d"

definition messages :: "nat \<Rightarrow> 'z mpsc_scheme \<Rightarrow> u8 list list" where
  "messages k s = map (\<lambda>i. message_of (data (slot k s i))) [unat (r_head s)..<unat (r_tail s)]"

text \<open>The invariant between operations: the slots from head to tail are committed for their
  position, the others are not.\<close>

definition committed :: "nat \<Rightarrow> 'z mpsc_scheme \<Rightarrow> nat \<Rightarrow> bool" where
  "committed k s i \<longleftrightarrow> ready_seq (slot k s i) = of_nat (Suc i) \<and>
     MSG_HEADER_LEN + unat (entry_body_length (data (slot k s i))) \<le> unat (r_max_msg_size s)"

definition mpsc_wf :: "nat \<Rightarrow> 'z mpsc_scheme \<Rightarrow> bool" where
  "mpsc_wf k s \<longleftrightarrow>
     k < 32 \<and> unat (r_entry_num s) = 2 ^ k \<and> r_index_mask s = mask k \<and> length (r_entries s) = 2 ^ k \<and>
     (\<forall>e \<in> set (r_entries s). unat (r_max_msg_size s) \<le> length (data e)) \<and>
     unat (r_max_msg_size s) < 2 ^ 32 \<and>
     unat (r_head s) \<le> unat (r_tail s) \<and> unat (r_tail s) \<le> unat (r_head s) + 2 ^ k \<and>
     (\<forall>i. unat (r_head s) \<le> i \<and> i < unat (r_tail s) \<longrightarrow> committed k s i) \<and>
     (\<forall>i. unat (r_tail s) \<le> i \<and> i < unat (r_head s) + 2 ^ k \<longrightarrow> ready_seq (slot k s i) = 0) \<and>
     unat (r_cached_head s) \<le> unat (r_head s) \<and> (r_congested s = 0 \<or> r_congested s = 1)"

text \<open>The counters are far from wrapping.\<close>

definition young :: "'z mpsc_scheme \<Rightarrow> bool" where
  "young s \<longleftrightarrow> unat (r_tail s) < 2 ^ 63"

lemma messages_core: "core s = core s' \<Longrightarrow> messages k s = messages k s'"
  by (simp add: core_def messages_def slot_def)

lemma mpsc_wf_core:
  "mpsc_wf k s \<Longrightarrow> core s' = core s \<Longrightarrow> unat (r_cached_head s') \<le> unat (r_head s) \<Longrightarrow>
   r_congested s' = 0 \<or> r_congested s' = 1 \<Longrightarrow> mpsc_wf k s'"
  by (simp add: mpsc_wf_def core_def slot_def committed_def)

lemma mask_u64: "k < 32 \<Longrightarrow> (ucast (mask k :: u32) :: u64) = mask k"
  by (rule bit_word_eqI) (auto simp: bit_simps)

lemma ring_index:
  "mpsc_wf k s \<Longrightarrow> unat ((t :: u64) AND ucast (r_index_mask s)) = unat t mod 2 ^ k"
proof -
  assume "mpsc_wf k s"
  then have k: "k < 32" and m: "r_index_mask s = mask k" by (simp_all add: mpsc_wf_def)
  show ?thesis unfolding m mask_u64 [OF k] by (rule unat_and_mask)
qed

definition push :: "nat \<Rightarrow> u8 list \<Rightarrow> 'z mpsc_scheme \<Rightarrow> 'z mpsc_scheme" where
  "push k m s = s\<lparr>r_tail := r_tail s + 1,
     r_entries := (r_entries s)[unat (r_tail s) mod 2 ^ k :=
       \<lparr>ready_seq = r_tail s + 1,
        data = m @ drop (length m) (data (slot k s (unat (r_tail s))))\<rparr>]\<rparr>"

definition pop :: "nat \<Rightarrow> 'z mpsc_scheme \<Rightarrow> 'z mpsc_scheme" where
  "pop k s = s\<lparr>r_head := r_head s + 1,
     r_entries := (r_entries s)[unat (r_head s) mod 2 ^ k :=
       (slot k s (unat (r_head s)))\<lparr>ready_seq := 0\<rparr>]\<rparr>"

lemma push_fields [simp]:
  "r_head (push k m s) = r_head s" "r_tail (push k m s) = r_tail s + 1"
  "r_entry_num (push k m s) = r_entry_num s" "r_index_mask (push k m s) = r_index_mask s"
  "r_max_msg_size (push k m s) = r_max_msg_size s" "r_cached_head (push k m s) = r_cached_head s"
  "r_threshold (push k m s) = r_threshold s" "r_entry_stride (push k m s) = r_entry_stride s"
  "r_congested (push k m s) = r_congested s" "length (r_entries (push k m s)) = length (r_entries s)"
  by (simp_all add: push_def)

lemma pop_fields [simp]:
  "r_head (pop k s) = r_head s + 1" "r_tail (pop k s) = r_tail s"
  "r_entry_num (pop k s) = r_entry_num s" "r_index_mask (pop k s) = r_index_mask s"
  "r_max_msg_size (pop k s) = r_max_msg_size s" "r_cached_head (pop k s) = r_cached_head s"
  "r_threshold (pop k s) = r_threshold s" "r_entry_stride (pop k s) = r_entry_stride s"
  "r_congested (pop k s) = r_congested s" "length (r_entries (pop k s)) = length (r_entries s)"
  by (simp_all add: pop_def)

lemma push_core: "core s = core s' \<Longrightarrow> core (push k m s) = core (push k m s')"
  and push_more: "mpsc.more (push k m s) = mpsc.more s"
  and pop_more: "mpsc.more (pop k s) = mpsc.more s"
  by (simp_all add: core_def push_def pop_def slot_def)

lemma slot_push: "slot k (push k m s) i = (r_entries s)[unat (r_tail s) mod 2 ^ k :=
       \<lparr>ready_seq = r_tail s + 1, data = m @ drop (length m) (data (slot k s (unat (r_tail s))))\<rparr>] ! (i mod 2 ^ k)"
  and slot_pop: "slot k (pop k s) i = (r_entries s)[unat (r_head s) mod 2 ^ k :=
       (slot k s (unat (r_head s)))\<lparr>ready_seq := 0\<rparr>] ! (i mod 2 ^ k)"
  by (simp_all add: slot_def push_def pop_def)

lemma slot_upd:
  assumes "length (r_entries s) = 2 ^ k" "a \<le> i" "i < a + 2 ^ k" "a \<le> j" "j < a + 2 ^ k"
  shows "(r_entries s)[j mod 2 ^ k := e] ! (i mod 2 ^ k) = (if i = j then e else slot k s i)"
  using assms mod_window_inj [of i "2 ^ k" j a] by (auto simp: slot_def nth_list_update)

lemma young_tail: "mpsc_wf k s \<Longrightarrow> young s \<Longrightarrow> unat (r_tail s + 1) = Suc (unat (r_tail s))"
  by (simp add: young_def unat_add_small)

lemma slot_data:
  "mpsc_wf k s \<Longrightarrow> unat (r_max_msg_size s) \<le> length (data (slot k s i))"
  by (simp add: mpsc_wf_def slot_def)

text \<open>A message whose header announces its own length.\<close>

definition well_formed_message :: "u8 list \<Rightarrow> bool" where
  "well_formed_message m \<longleftrightarrow> MSG_HEADER_LEN \<le> length m \<and>
     MSG_HEADER_LEN + unat (entry_body_length m) = length m"

lemma entry_body_length_append:
  "MSG_HEADER_LEN \<le> length m \<Longrightarrow> entry_body_length (m @ d) = entry_body_length m"
  by (simp add: entry_body_length_def header_of_bytes_def MSG_HEADER_LEN_def)

lemma message_of_append: "well_formed_message m \<Longrightarrow> message_of (m @ d) = m"
  by (simp add: well_formed_message_def message_of_def entry_body_length_append)

lemma push_wf:
  assumes wf: "mpsc_wf k s" and y: "young s" and room: "unat (r_tail s) < unat (r_head s) + 2 ^ k"
    and m: "well_formed_message m" "length m \<le> unat (r_max_msg_size s)"
  shows "mpsc_wf k (push k m s)" and "messages k (push k m s) = messages k s @ [m]"
proof -
  let ?h = "unat (r_head s)" and ?t = "unat (r_tail s)" and ?s = "push k m s"
  have t: "unat (r_tail s + 1) = Suc ?t" using wf y by (rule young_tail)
  have len: "length (r_entries s) = 2 ^ k" and ht: "?h \<le> ?t" using wf by (simp_all add: mpsc_wf_def)
  have sl: "slot k ?s i = (if i = ?t then \<lparr>ready_seq = r_tail s + 1,
      data = m @ drop (length m) (data (slot k s ?t))\<rparr> else slot k s i)"
    if "?h \<le> i" "i < ?h + 2 ^ k" for i
    unfolding slot_push using that ht room by (rule slot_upd [OF len])
  have com: "committed k ?s i" if i: "?h \<le> i" "i < Suc ?t" for i
  proof (cases "i = ?t")
    case True
    then show ?thesis
      using sl [of i] i room m by (simp add: committed_def well_formed_message_def entry_body_length_append)
  next
    case False
    then have "committed k s i" using wf i by (simp add: mpsc_wf_def)
    then show ?thesis using sl [of i] i room False by (simp add: committed_def)
  qed
  have lend: "length (m @ drop (length m) d) = length d" if "unat (r_max_msg_size s) \<le> length d" for d
    using that m by simp
  have "unat (r_max_msg_size s) \<le> length (data e)" if "e \<in> set (r_entries ?s)" for e
  proof -
    have "e \<in> insert \<lparr>ready_seq = r_tail s + 1, data = m @ drop (length m) (data (slot k s ?t))\<rparr> (set (r_entries s))"
      using that set_update_subset_insert by (fastforce simp: push_def)
    then show ?thesis using wf slot_data [OF wf, of ?t] lend by (auto simp: mpsc_wf_def)
  qed
  moreover have "ready_seq (slot k ?s i) = 0" if "Suc ?t \<le> i" "i < ?h + 2 ^ k" for i
    using sl [of i] that wf ht by (simp add: mpsc_wf_def)
  ultimately show "mpsc_wf k ?s"
    using wf com room t unfolding mpsc_wf_def by simp
  have "[?h..<Suc ?t] = [?h..<?t] @ [?t]" using ht by simp
  moreover have "map (\<lambda>i. message_of (data (slot k ?s i))) [?h..<?t] = map (\<lambda>i. message_of (data (slot k s i))) [?h..<?t]"
    using sl room by (intro map_cong) auto
  moreover have "message_of (data (slot k ?s ?t)) = m"
    using sl [of ?t] ht room m(1) by (simp add: message_of_append)
  ultimately show "messages k ?s = messages k s @ [m]"
    by (simp add: messages_def t)
qed

lemma pop_wf:
  assumes wf: "mpsc_wf k s" and y: "young s" and ne: "unat (r_head s) < unat (r_tail s)"
  shows "mpsc_wf k (pop k s)"
    and "messages k s = message_of (data (slot k s (unat (r_head s)))) # messages k (pop k s)"
proof -
  let ?h = "unat (r_head s)" and ?t = "unat (r_tail s)" and ?s = "pop k s"
  have h: "unat (r_head s + 1) = Suc ?h" using ne y by (simp add: young_def unat_add_small)
  have len: "length (r_entries s) = 2 ^ k" and th: "?t \<le> ?h + 2 ^ k" using wf by (simp_all add: mpsc_wf_def)
  have sl: "slot k ?s i = (if i = ?h then (slot k s ?h)\<lparr>ready_seq := 0\<rparr> else slot k s i)"
    if "?h \<le> i" "i < ?h + 2 ^ k" for i
    unfolding slot_pop using that by (intro slot_upd [OF len, of ?h]) simp_all
  have wrap: "slot k ?s (?h + 2 ^ k) = slot k ?s ?h" by (simp add: slot_def)
  have com: "committed k ?s i" if "Suc ?h \<le> i" "i < ?t" for i
    using that sl [of i] wf th by (simp add: committed_def mpsc_wf_def)
  have zero: "ready_seq (slot k ?s i) = 0" if "?t \<le> i" "i < Suc (?h + 2 ^ k)" for i
  proof (cases "i = ?h + 2 ^ k")
    case True
    then show ?thesis using sl [of ?h] wrap by simp
  next
    case False
    then show ?thesis using that sl [of i] ne wf by (simp add: mpsc_wf_def)
  qed
  have "unat (r_max_msg_size s) \<le> length (data e)" if "e \<in> set (r_entries ?s)" for e
  proof -
    have "e \<in> insert ((slot k s ?h)\<lparr>ready_seq := 0\<rparr>) (set (r_entries s))"
      using that set_update_subset_insert by (fastforce simp: pop_def)
    then show ?thesis using wf slot_data [OF wf, of ?h] by (auto simp: mpsc_wf_def)
  qed
  then show "mpsc_wf k ?s"
    using wf com zero ne h unfolding mpsc_wf_def by simp
  have "[?h..<?t] = ?h # [Suc ?h..<?t]" using ne by (simp add: upt_conv_Cons)
  moreover have "map (\<lambda>i. message_of (data (slot k ?s i))) [Suc ?h..<?t] = map (\<lambda>i. message_of (data (slot k s i))) [Suc ?h..<?t]"
    using sl th by (intro map_cong) auto
  ultimately show "messages k s = message_of (data (slot k s ?h)) # messages k ?s"
    by (simp add: messages_def h)
qed

section \<open>Simulation\<close>

text \<open>A message handed to a producer: header, body, and the length the header announces.\<close>

definition frame :: "message_header_t \<Rightarrow> (nat \<Rightarrow> u8) option \<Rightarrow> u8 list" where
  "frame h body = header_bytes h @ body_bytes body (body_length h)"

definition sendable :: "u64 \<Rightarrow> message_header_t \<Rightarrow> (nat \<Rightarrow> u8) option \<Rightarrow> bool" where
  "sendable max_size h body \<longleftrightarrow> (body_length h > 0 \<longrightarrow> body \<noteq> None) \<and>
     MSG_HEADER_LEN + unat (body_length h) < 2 ^ 32 \<and> MSG_HEADER_LEN + unat (body_length h) \<le> unat max_size"

lemma length_body_bytes: "body_len > 0 \<longrightarrow> body \<noteq> None \<Longrightarrow> length (body_bytes body body_len) = unat body_len"
  by (cases "body_len = 0") (auto simp: body_bytes_def word_neq_0_conv split: option.splits)

lemma length_frame: "sendable mx h body \<Longrightarrow> length (frame h body) = MSG_HEADER_LEN + unat (body_length h)"
  by (simp add: frame_def sendable_def length_body_bytes)

lemma frame_well_formed: "sendable mx h body \<Longrightarrow> well_formed_message (frame h body)"
  using length_frame [of mx h body]
  by (simp add: well_formed_message_def entry_body_length_def header_roundtrip frame_def)

lemma total_len_small:
  assumes "MSG_HEADER_LEN + unat (body_len :: u32) < 2 ^ 32"
  shows "unat (ucast ((of_nat MSG_HEADER_LEN :: u32) + body_len) :: u64) = MSG_HEADER_LEN + unat body_len"
  using assms by (simp add: MSG_HEADER_LEN_def unat_add_small)

lemma upd_entry_twice:
  "unat idx < length (r_entries s) \<Longrightarrow> upd_entry idx f (upd_entry idx g s) = upd_entry idx (f \<circ> g) s"
  by (simp add: upd_entry_def get_entry_def)

lemma get_entry_upd: "unat idx < length (r_entries s) \<Longrightarrow> get_entry idx (upd_entry idx f s) = f (get_entry idx s)"
  by (simp add: upd_entry_def get_entry_def)

lemma length_entries_upd [simp]: "length (r_entries (upd_entry idx f s)) = length (r_entries s)"
  by (simp add: upd_entry_def)

lemma write_message_quiet:
  fixes h :: message_header_t
  assumes idx: "unat idx < length (r_entries s)"
    and fits: "MSG_HEADER_LEN + unat body_len \<le> length (data (get_entry idx s))"
    and b: "body_len > 0 \<longrightarrow> body \<noteq> None"
  defines "m \<equiv> header_bytes h @ body_bytes body body_len"
  shows "write_message idx h body body_len q (quiet s) =
         Some (quiet (upd_entry idx (\<lambda>e. \<lparr>ready_seq = q, data = m @ drop (length m) (data e)\<rparr>) s))"
proof -
  let ?d = "data (get_entry idx s)"
  let ?f1 = "\<lambda>e. e\<lparr>data := write_at 0 (header_bytes h) (data e)\<rparr>"
  let ?f2 = "\<lambda>e. e\<lparr>data := write_at MSG_HEADER_LEN (body_bytes body body_len) (data e)\<rparr>"
  let ?f3 = "\<lambda>e. e\<lparr>ready_seq := q\<rparr>"
  have lb: "length (body_bytes body body_len) = unat body_len" using b by (rule length_body_bytes)
  have l1: "length (write_at 0 (header_bytes h) ?d) = length ?d" using fits by (simp add: write_at_def)
  have two: "write_at MSG_HEADER_LEN (body_bytes body body_len) (write_at 0 (header_bytes h) ?d) = m @ drop (length m) ?d"
    by (simp add: write_at_def m_def lb add.commute)
  have none: "write_at 0 (header_bytes h) ?d = m @ drop (length m) ?d" if "body_len = 0"
    using that lb by (simp add: write_at_def m_def)
  have w: "write_message idx h body body_len q (quiet s) =
      Some (quiet (upd_entry idx (?f3 \<circ> (if body_len > 0 then ?f2 \<circ> ?f1 else ?f1)) s))"
    using idx fits l1 by (simp add: write_message_def Let_def get_entry_upd upd_entry_twice comp_assoc)
  have ent: "(e :: ring_entry)\<lparr>data := d, ready_seq := q\<rparr> = \<lparr>ready_seq = q, data = d\<rparr>" for e d by (cases e) simp
  have "upd_entry idx (?f3 \<circ> (if body_len > 0 then ?f2 \<circ> ?f1 else ?f1)) s =
      upd_entry idx (\<lambda>e. \<lparr>ready_seq = q, data = m @ drop (length m) (data e)\<rparr>) s"
  proof (cases "body_len = 0")
    case True
    then show ?thesis using none by (simp add: upd_entry_def ent)
  next
    case False
    then show ?thesis using two by (simp add: upd_entry_def ent word_neq_0_conv)
  qed
  with w show ?thesis by simp
qed

lemma write_push:
  assumes wf: "mpsc_wf k s" and ok: "sendable (r_max_msg_size s) h body"
  shows "write_message (r_tail s AND ucast (r_index_mask s)) h body (body_length h) (r_tail s + 1)
           (quiet (s\<lparr>r_tail := r_tail s + 1\<rparr>)) = Some (quiet (push k (frame h body) s))"
proof -
  let ?s = "s\<lparr>r_tail := r_tail s + 1\<rparr>" and ?i = "r_tail s AND ucast (r_index_mask s)"
  have idx: "unat ?i = unat (r_tail s) mod 2 ^ k" using wf by (rule ring_index)
  have len: "length (r_entries s) = 2 ^ k" using wf by (simp add: mpsc_wf_def)
  have e: "get_entry ?i ?s = slot k s (unat (r_tail s))" by (simp add: get_entry_def slot_def idx)
  have "MSG_HEADER_LEN + unat (body_length h) \<le> length (data (slot k s (unat (r_tail s))))"
    using slot_data [OF wf, of "unat (r_tail s)"] ok by (simp add: sendable_def)
  then show ?thesis
    using write_message_quiet [of ?i ?s "body_length h" body h "r_tail s + 1"] ok
    by (simp add: e idx len sendable_def frame_def [symmetric] upd_entry_def push_def)
qed

lemma unat_room:
  assumes "mpsc_wf k s" "young s" "unat c \<le> unat (r_head s)"
  shows "c + r_entry_num s \<le> r_tail s \<longleftrightarrow> unat c + 2 ^ k \<le> unat (r_tail s)"
proof -
  have n: "unat (r_entry_num s) = 2 ^ k" and ht: "unat (r_head s) \<le> unat (r_tail s)"
    using assms by (simp_all add: mpsc_wf_def)
  have "(2::nat) ^ k < 2 ^ 32" using assms(1) by (intro power_strict_increasing) (auto simp: mpsc_wf_def)
  then have "unat (c + r_entry_num s) = unat c + 2 ^ k"
    using assms(2,3) ht n by (subst unat_add_small) (simp_all add: young_def)
  then show ?thesis by (simp add: word_le_nat_alt)
qed

text \<open>A local producer appends its message, or finds the ring full.\<close>

lemma enqueue_local_sim:
  assumes wf: "mpsc_wf k s" and y: "young s" and ok: "sendable (r_max_msg_size s) h body"
  shows "\<exists>s'. mpsc_wf k s' \<and>
     (if length (messages k s) < 2 ^ k
      then enqueue_local (Some h) body (body_length h) (quiet s) =
             (Returned (if unat (r_threshold s) \<le> length (messages k s) + 1
                        then UB_COMM_SEND_CONGESTED else UB_COMM_OK), quiet s') \<and>
           messages k s' = messages k s @ [frame h body] \<and> core s' = core (push k (frame h body) s)
      else enqueue_local (Some h) body (body_length h) (quiet s) = (Returned UB_COMM_ERR_RING_FULL, quiet s') \<and>
           messages k s' = messages k s \<and> core s' = core s) \<and> mpsc.more s' = mpsc.more s"
proof -
  let ?h = "unat (r_head s)" and ?t = "unat (r_tail s)"
  have w: "?h \<le> ?t" "?t \<le> ?h + 2 ^ k" "unat (r_cached_head s) \<le> ?h" "r_congested s = 0 \<or> r_congested s = 1"
    "unat (r_entry_num s) = 2 ^ k"
    using wf by (simp_all add: mpsc_wf_def)
  have lm: "length (messages k s) = ?t - ?h" by (simp add: messages_def)
  define s1 where "s1 = (if unat (r_cached_head s) + 2 ^ k \<le> ?t then s\<lparr>r_cached_head := r_head s\<rparr> else s)"
  have s1: "core s1 = core s" "unat (r_cached_head s1) \<le> ?h" "r_congested s1 = r_congested s" "r_tail s1 = r_tail s"
    "r_entry_num s1 = r_entry_num s" "r_head s1 = r_head s" "r_threshold s1 = r_threshold s"
    using w(3) by (simp_all add: s1_def core_def)
  have wf1: "mpsc_wf k s1" using wf s1 w by (intro mpsc_wf_core [OF wf]) auto
  have y1: "young s1" using y s1 by (simp add: young_def)
  have mx1: "r_max_msg_size s1 = r_max_msg_size s" "r_index_mask s1 = r_index_mask s" using s1(1) by (simp_all add: core_def)
  have more1: "mpsc.more s1 = mpsc.more s" by (simp add: s1_def)
  have room: "local_room (r_tail s) (quiet s) = (?t < ?h + 2 ^ k, quiet s1)"
    using unat_room [OF wf y w(3)] unat_room [OF wf y order_refl] w
    by (auto simp: local_room_quiet s1_def)
  have small: "\<not> ucast ((of_nat MSG_HEADER_LEN :: u32) + body_length h) > r_max_msg_size s"
    using ok total_len_small [of "body_length h"] by (simp add: word_less_nat_alt sendable_def)
  have nb: "\<not> (body_length h > 0 \<and> body = None)" using ok by (auto simp: sendable_def)
  show ?thesis
  proof (cases "?t < ?h + 2 ^ k")
    case True
    let ?p = "push k (frame h body) s1"
    have res: "reserve_local (r_tail s) (quiet s) = (Some (r_tail s), quiet (s1\<lparr>r_tail := r_tail s1 + 1\<rparr>))"
      using True by (simp add: reserve_local.simps room s1)
    have p: "mpsc_wf k ?p" "messages k ?p = messages k s1 @ [frame h body]"
      using True ok s1 mx1 length_frame [OF ok] frame_well_formed [OF ok]
      by (auto intro!: push_wf [OF wf1 y1] simp: sendable_def)
    have t: "unat (r_tail s1 + 1) = Suc ?t" using young_tail [OF wf1 y1] s1 by simp
    obtain s' where f: "flow_result_after_enqueue (r_tail s1 + 1) (quiet ?p) =
        (if unat (r_threshold s) \<le> Suc ?t - ?h then UB_COMM_SEND_CONGESTED else UB_COMM_OK, quiet s')"
      and s': "core s' = core ?p" "unat (r_cached_head s') \<le> ?h" "r_congested s' = 0 \<or> r_congested s' = 1"
        "mpsc.more s' = mpsc.more ?p"
    proof -
      have "Suc ?t - ?h \<le> 2 ^ k" using True by linarith
      then show thesis using that flow_local_quiet [of ?p "r_tail s1 + 1"] s1 w t by auto
    qed
    have "enqueue_local (Some h) body (body_length h) (quiet s) =
        (Returned (if unat (r_threshold s) \<le> Suc ?t - ?h then UB_COMM_SEND_CONGESTED else UB_COMM_OK), quiet s')"
      using small nb write_push [OF wf1, of h body] ok f s1 mx1
      by (auto simp: enqueue_local_def res Let_def)
    moreover have "mpsc_wf k s'" using s' s1 by (intro mpsc_wf_core [OF p(1)]) auto
    moreover have "messages k s' = messages k s @ [frame h body]"
      using messages_core [OF s'(1)] p(2) messages_core [OF s1(1)] by simp
    moreover have "core s' = core (push k (frame h body) s)" using s'(1) push_core [OF s1(1)] by simp
    moreover have "mpsc.more s' = mpsc.more s" using s'(4) more1 by (simp add: push_more)
    ultimately show ?thesis using True w lm by (intro exI [of _ s']) (auto simp: Suc_diff_le)
  next
    case False
    let ?s' = "sample_state (r_entry_num s1) s1"
    have c1: "r_congested s1 = 0 \<or> r_congested s1 = 1" using w s1 by simp
    have "reserve_local (r_tail s) (quiet s) = (None, quiet ?s')"
      using False sample_quiet [OF c1] by (simp add: reserve_local.simps room)
    then have "enqueue_local (Some h) body (body_length h) (quiet s) = (Returned UB_COMM_ERR_RING_FULL, quiet ?s')"
      using small nb by (auto simp: enqueue_local_def Let_def)
    moreover have core: "core ?s' = core s" using s1 by (simp add: sample_state_core)
    moreover have "mpsc_wf k ?s'"
      using wf core s1 c1 sample_state_core(2) [of _ s1] sample_state_core(3) [OF c1]
      by (intro mpsc_wf_core [OF wf]) auto
    moreover have "messages k ?s' = messages k s" using core by (rule messages_core)
    moreover have "mpsc.more ?s' = mpsc.more s" using more1 by (simp add: sample_state_more)
    ultimately show ?thesis using False w lm by (intro exI [of _ ?s']) auto
  qed
qed

text \<open>A remote producer with a correct cache does the same.\<close>

definition view_wf :: "nat \<Rightarrow> 'z remote_view_scheme \<Rightarrow> bool" where
  "view_wf k s \<longleftrightarrow> mpsc_wf k s \<and> unat (v_shadow_head s) \<le> unat (r_head s)"

lemma unat_mask_capacity: "k < 32 \<Longrightarrow> unat (ucast (ucast ((mask k :: u64) + 1) :: u32) :: u64) = 2 ^ k"
proof -
  assume k: "k < 32"
  have m: "(mask k :: u64) + 1 = 2 ^ k" by (simp add: mask_eq_exp_minus_1)
  have p: "(2::nat) ^ k < 2 ^ 32" using k by (intro power_strict_increasing) auto
  have "unat (of_nat (2 ^ k) :: u64) = 2 ^ k" unfolding unat_of_nat using p by simp
  then have "unat ((2 :: u64) ^ k) = 2 ^ k" by simp
  then have "unat (ucast ((2 :: u64) ^ k) :: u32) = 2 ^ k"
    using p k by (simp add: unsigned_ucast_eq take_bit_nat_eq_self)
  then show ?thesis by (simp add: m)
qed

lemma enqueue_remote_sim:
  assumes v: "view_wf k s" and y: "young s" and ok: "sendable (r_max_msg_size s) h body"
  shows "\<exists>r s'. view_wf k s' \<and> (cache_current s \<longrightarrow> cache_current s') \<and>
     (if length (messages k s) < 2 ^ k
      then enqueue_remote (Some h) body (body_length h) (mask k) (r_entry_stride s) (r_max_msg_size s)
             (Some (quiet s)) = (Returned r, Some (quiet s')) \<and>
           (r = UB_COMM_OK \<or> r = UB_COMM_SEND_CONGESTED) \<and>
           (cache_current s \<longrightarrow> r = (if unat (r_threshold s) \<le> length (messages k s) + 1
              then UB_COMM_SEND_CONGESTED else UB_COMM_OK)) \<and>
           messages k s' = messages k s @ [frame h body] \<and> core s' = core (push k (frame h body) s)
      else enqueue_remote (Some h) body (body_length h) (mask k) (r_entry_stride s) (r_max_msg_size s)
             (Some (quiet s)) = (Returned UB_COMM_ERR_RING_FULL, Some (quiet s')) \<and>
           messages k s' = messages k s \<and> core s' = core s)"
proof -
  let ?h = "unat (r_head s)" and ?t = "unat (r_tail s)"
  have wf: "mpsc_wf k s" and sh: "unat (v_shadow_head s) \<le> ?h" using v by (simp_all add: view_wf_def)
  have w: "?h \<le> ?t" "?t \<le> ?h + 2 ^ k" "unat (r_cached_head s) \<le> ?h" "r_congested s = 0 \<or> r_congested s = 1"
    "unat (r_entry_num s) = 2 ^ k" "r_index_mask s = mask k" "length (r_entries s) = 2 ^ k" "k < 32"
    using wf by (simp_all add: mpsc_wf_def)
  have lm: "length (messages k s) = ?t - ?h" by (simp add: messages_def)
  have cap: "(ucast (ucast ((mask k :: u64) + 1) :: u32) :: u64) = r_entry_num s"
    using unat_mask_capacity [OF w(8)] w(5) by (simp add: word_unat_eq_iff)
  define s1 where "s1 = (if unat (v_shadow_head s) + 2 ^ k \<le> ?t then s\<lparr>v_shadow_head := r_head s\<rparr> else s)"
  have s1: "core s1 = core s" "r_cached_head s1 = r_cached_head s" "r_congested s1 = r_congested s"
    "r_tail s1 = r_tail s" "r_entry_num s1 = r_entry_num s" "r_head s1 = r_head s" "r_entry_stride s1 = r_entry_stride s"
    "r_max_msg_size s1 = r_max_msg_size s" "r_index_mask s1 = r_index_mask s" "unat (v_shadow_head s1) \<le> ?h"
    "r_entries s1 = r_entries s"
    "r_threshold s1 = r_threshold s" "cache_current s1 = cache_current s"
    using sh by (simp_all add: s1_def core_def cache_current_def)
  have wf1: "mpsc_wf k s1" using wf s1 w by (intro mpsc_wf_core [OF wf]) auto
  have y1: "young s1" using y s1 by (simp add: young_def)
  have room: "remote_room (r_entry_num s) (r_tail s) (quiet s) = (?t < ?h + 2 ^ k, quiet s1)"
    using unat_room [OF wf y sh] unat_room [OF wf y order_refl] w sh
    by (auto simp: remote_room_def s1_def)
  have small: "\<not> ucast ((of_nat MSG_HEADER_LEN :: u32) + body_length h) > r_max_msg_size s"
    using ok total_len_small [of "body_length h"] by (simp add: word_less_nat_alt sendable_def)
  have nb: "\<not> (body_length h > 0 \<and> body = None)" using ok by (auto simp: sendable_def)
  have idx: "r_tail s AND mask k = r_tail s1 AND ucast (r_index_mask s1)"
    using mask_u64 [OF w(8)] s1 w by simp
  have ilt: "unat (r_tail s AND mask k) < 2 ^ k" using ring_index [OF wf1, of "r_tail s1"] idx by simp
  let ?e = "enqueue_remote (Some h) body (body_length h) (mask k) (r_entry_stride s) (r_max_msg_size s) (Some (quiet s))"
  show ?thesis
  proof (cases "?t < ?h + 2 ^ k")
    case True
    let ?p = "push k (frame h body) s1"
    have res: "reserve_remote (Suc MAX_CAS_RETRIES) (r_entry_num s) (r_tail s) (quiet s) =
        (Inr (r_tail s), quiet (s1\<lparr>r_tail := r_tail s1 + 1\<rparr>))"
      using True by (simp add: room s1)
    have p: "mpsc_wf k ?p" "messages k ?p = messages k s1 @ [frame h body]"
      using True ok s1 length_frame [OF ok] frame_well_formed [OF ok]
      by (auto intro!: push_wf [OF wf1 y1] simp: sendable_def)
    have t: "unat (r_tail s1 + 1) = Suc ?t" using young_tail [OF wf1 y1] s1 by simp
    have pv: "v_shadow_head ?p = v_shadow_head s1" "cache_current ?p = cache_current s"
      unfolding s1(13) [symmetric] by (simp_all add: push_def cache_current_def)
    have "Suc ?t - ?h \<le> 2 ^ k" using True by linarith
    then obtain r s' where f: "flow_result_after_enqueue_cached (r_tail s1 + 1) (quiet ?p) = (r, quiet s')"
      and r: "r = UB_COMM_OK \<or> r = UB_COMM_SEND_CONGESTED"
      and s': "core s' = core ?p" "r_cached_head s' = r_cached_head ?p" "unat (v_shadow_head s') \<le> ?h"
        "r_congested s' = 0 \<or> r_congested s' = 1"
      and cur: "cache_current s \<longrightarrow> r = (if unat (r_threshold s) \<le> Suc ?t - ?h
              then UB_COMM_SEND_CONGESTED else UB_COMM_OK) \<and> cache_current s'"
      using flow_remote_quiet [of ?p "r_tail s1 + 1"] s1 w t by (auto simp: pv)
    have "?e = (Returned r, Some (quiet s'))"
      using small nb write_push [OF wf1, of h body] ok f s1 w ilt idx
      by (auto simp: enqueue_remote_def cap res Let_def simp del: reserve_remote.simps)
    moreover have "mpsc_wf k s'" using s' s1 w by (intro mpsc_wf_core [OF p(1)]) auto
    moreover have "unat (v_shadow_head s') \<le> unat (r_head s')" using s' s1 by (simp add: core_def)
    moreover have "messages k s' = messages k s @ [frame h body]"
      using messages_core [OF s'(1)] p(2) messages_core [OF s1(1)] by simp
    moreover have "core s' = core (push k (frame h body) s)" using s'(1) push_core [OF s1(1)] by simp
    ultimately show ?thesis
      using True w lm r cur by (intro exI [of _ r] exI [of _ s']) (simp add: view_wf_def Suc_diff_le)
  next
    case False
    let ?s' = "sample_state (r_entry_num s1) s1"
    have c1: "r_congested s1 = 0 \<or> r_congested s1 = 1" using w s1 by simp
    have "reserve_remote (Suc MAX_CAS_RETRIES) (r_entry_num s) (r_tail s) (quiet s) =
        (Inl UB_COMM_ERR_RING_FULL, quiet ?s')"
      using False sample_quiet [OF c1] s1 by (simp add: room)
    then have "?e = (Returned UB_COMM_ERR_RING_FULL, Some (quiet ?s'))"
      using small nb by (auto simp: enqueue_remote_def cap Let_def simp del: reserve_remote.simps)
    moreover have core: "core ?s' = core s" using s1 by (simp add: sample_state_core)
    moreover have "mpsc_wf k ?s'"
      using wf core s1 c1 w sample_state_core(2) [of _ s1] sample_state_core(3) [OF c1]
      by (intro mpsc_wf_core [OF wf]) auto
    moreover have "unat (v_shadow_head ?s') \<le> unat (r_head ?s')"
      using s1 core by (simp add: sample_state_view core_def)
    moreover have "messages k ?s' = messages k s" using core by (rule messages_core)
    moreover have "cache_current s \<longrightarrow> cache_current ?s'" using s1(13) by (simp add: cache_current_def sample_state_view)
    ultimately show ?thesis
      using False w lm by (intro exI [of _ UB_COMM_OK] exI [of _ ?s']) (auto simp: view_wf_def)
  qed
qed

text \<open>The consumer takes the oldest message, cut off at its buffer's capacity, or reports that
  there is none.\<close>

lemma retire_head_quiet:
  assumes wf: "mpsc_wf k s"
  shows "retire_head (r_head s AND ucast (r_index_mask s)) (r_head s + 1) (quiet s) = quiet (pop k s)"
  using ring_index [OF wf, of "r_head s"]
  by (simp add: retire_head_def upd_entry_def get_entry_def pop_def slot_def)

lemma dequeue_sim_empty:
  assumes wf: "mpsc_wf k s" and y: "young s" and e: "messages k s = []"
  shows "\<exists>c'. dequeue ring cap c (quiet s) = ((0, []), c', quiet s)"
proof -
  let ?i = "r_head s AND ucast (r_index_mask s)"
  have ht: "unat (r_head s) = unat (r_tail s)"
    using arg_cong [OF e, of length] wf by (simp add: messages_def mpsc_wf_def)
  then have eq: "r_head s = r_tail s" by (simp add: word_unat_eq_iff)
  have "ready_seq (slot k s (unat (r_head s))) = 0" using wf ht by (simp add: mpsc_wf_def)
  then have q: "ready_seq (get_entry ?i s) = 0"
    using ring_index [OF wf, of "r_head s"] by (simp add: get_entry_def slot_def)
  have "unat (r_head s + 1) = Suc (unat (r_head s))" using young_tail [OF wf y] eq by simp
  then have "r_head s + 1 \<noteq> 0" by (metis nat.simps(3) unat_0)
  then show ?thesis
    using q eq by (auto simp: dequeue_def try_skip_stale_reserved_entry_def Let_def)
qed

lemma dequeue_sim:
  assumes wf: "mpsc_wf k s" and y: "young s" and m: "messages k s = m # ms"
  shows "\<exists>s'. dequeue ring cap c (quiet s) =
           ((of_nat (length (take (unat cap) m)), take (unat cap) m), c, quiet s') \<and>
         core s' = core (pop k s) \<and> mpsc_wf k s' \<and> messages k s' = ms \<and>
         r_cached_head s' = r_cached_head s \<and> (\<exists>u. s' = pop k s \<or> s' = sample_state u (pop k s))"
proof -
  let ?h = "unat (r_head s)" and ?i = "r_head s AND ucast (r_index_mask s)"
  have ne: "?h < unat (r_tail s)" using arg_cong [OF m, of length] by (simp add: messages_def)
  let ?d = "data (slot k s ?h)"
  have m': "m = message_of ?d" "ms = messages k (pop k s)" using pop_wf(2) [OF wf y ne] m by simp_all
  have com: "committed k s ?h" using wf ne by (simp add: mpsc_wf_def)
  have ge: "get_entry ?i s = slot k s ?h"
    using ring_index [OF wf, of "r_head s"] by (simp add: get_entry_def slot_def)
  have mx: "unat (r_max_msg_size s) < 2 ^ 32" using wf by (simp add: mpsc_wf_def)
  let ?len = "MSG_HEADER_LEN + unat (entry_body_length ?d)"
  have le: "?len \<le> unat (r_max_msg_size s)" using com by (simp add: committed_def)
  have real: "unat ((of_nat MSG_HEADER_LEN :: u64) + ucast (entry_body_length ?d)) = ?len"
    using le mx by (simp add: MSG_HEADER_LEN_def unat_add_small)
  have lm: "length m = ?len" using le slot_data [OF wf, of ?h] by (simp add: m' message_of_def)
  define copy where "copy = (if (of_nat MSG_HEADER_LEN :: u64) + ucast (entry_body_length ?d) > ucast cap then cap
      else ucast ((of_nat MSG_HEADER_LEN :: u64) + ucast (entry_body_length ?d)))"
  have small: "unat (ucast ((of_nat MSG_HEADER_LEN :: u64) + ucast (entry_body_length ?d)) :: u32) = ?len"
    using real le mx by (simp add: unsigned_ucast_eq take_bit_nat_eq_self)
  have copy: "unat copy = min (unat cap) ?len"
    using real small by (auto simp: copy_def word_less_nat_alt min_def)
  then have bytes: "take (unat copy) ?d = take (unat cap) m" by (simp add: m' message_of_def min.commute take_take)
  have cp: "copy = of_nat (length (take (unat cap) m))" 
    using arg_cong [OF copy, of "of_nat :: nat \<Rightarrow> u32"] lm by (simp add: min.commute)
  define s' where "s' = (if r_congested s \<noteq> 0 then sample_state (fst (approximate_used (quiet (pop k s)))) (pop k s) else pop k s)"
  have c1: "r_congested (pop k s) = 0 \<or> r_congested (pop k s) = 1" using wf by (simp add: mpsc_wf_def)
  have "\<not> (of_nat MSG_HEADER_LEN :: u64) + ucast (entry_body_length ?d) > r_max_msg_size s"
    using real le by (simp add: word_less_nat_alt)
  moreover have "ready_seq (slot k s ?h) = r_head s + 1" using com by (simp add: committed_def add.commute)
  ultimately have run: "dequeue ring cap c (quiet s) = ((copy, take (unat copy) ?d), c, quiet s')"
    using retire_head_quiet [OF wf] sample_quiet [OF c1]
    by (simp add: dequeue_def ge Let_def copy_def [symmetric] s'_def approximate_used_quiet)
  have core: "core s' = core (pop k s)" by (simp add: s'_def sample_state_core)
  have "mpsc_wf k s'"
  proof (rule mpsc_wf_core [OF pop_wf(1) [OF wf y ne] core])
    show "unat (r_cached_head s') \<le> unat (r_head (pop k s))"
      using pop_wf(1) [OF wf y ne] by (simp add: s'_def sample_state_core mpsc_wf_def)
    show "r_congested s' = 0 \<or> r_congested s' = 1"
      unfolding s'_def using sample_state_core(3) [OF c1] c1 by auto
  qed
  moreover have "messages k s' = ms" using messages_core [OF core] m' by simp
  moreover have "r_cached_head s' = r_cached_head s" by (simp add: s'_def sample_state_core)
  ultimately show ?thesis
    using run bytes cp core by (intro exI [of _ s']) (auto simp: s'_def)
qed

end
