(* ===== verification/Mpsc_Channel.thy ===== *)
theory Mpsc_Channel
  imports Mpsc_Refine
begin

text \<open>
  The ring buffer as a message channel. The locale \<open>bounded_channel\<close> is what the transport relies
  on: a send is accepted exactly when there is room, and a receive takes the oldest message.
  It is interpreted on \<open>enqueue_local\<close>, \<open>enqueue_remote\<close> and \<open>dequeue\<close> of \<open>Mpsc_Ring\<close> through the
  simulation lemmas of \<open>Mpsc_Refine\<close>. The properties of the ring buffer follow, with those of
  its constructor, its memory layout, its status report and two defects.
\<close>

section \<open>The contract of a bounded channel\<close>

record ('s, 'p, 'q, 'm) channel_ops =
  ch_abs :: "'s \<Rightarrow> 'm list"
  ch_frame :: "'q \<Rightarrow> 'm"
  ch_send :: "'p \<Rightarrow> 'q \<Rightarrow> 's \<Rightarrow> bool \<times> 's"
  ch_recv :: "'s \<Rightarrow> 'm option \<times> 's"

text \<open>A sequence of operations by any producers and the consumer, with the messages accepted and
  the messages received so far.\<close>

inductive transcript ::
  "('s, 'p, 'q, 'm) channel_ops \<Rightarrow> ('q \<Rightarrow> bool) \<Rightarrow> 's \<Rightarrow> 's \<Rightarrow> 'm list \<Rightarrow> 'm list \<Rightarrow> bool"
  for ops ok s0 where
  start: "transcript ops ok s0 s0 [] []"
| accept: "transcript ops ok s0 s a r \<Longrightarrow> ok q \<Longrightarrow> ch_send ops p q s = (True, s') \<Longrightarrow>
    transcript ops ok s0 s' (a @ [ch_frame ops q]) r"
| refuse: "transcript ops ok s0 s a r \<Longrightarrow> ok q \<Longrightarrow> ch_send ops p q s = (False, s') \<Longrightarrow>
    transcript ops ok s0 s' a r"
| receive: "transcript ops ok s0 s a r \<Longrightarrow> ch_recv ops s = (Some m, s') \<Longrightarrow>
    transcript ops ok s0 s' a (r @ [m])"
| nothing: "transcript ops ok s0 s a r \<Longrightarrow> ch_recv ops s = (None, s') \<Longrightarrow>
    transcript ops ok s0 s' a r"

locale bounded_channel =
  fixes ops :: "('s, 'p, 'q, 'm) channel_ops" and inv :: "nat \<Rightarrow> 's \<Rightarrow> bool"
    and ok :: "'q \<Rightarrow> bool" and cap bound :: nat
  assumes send_law: "inv n s \<Longrightarrow> n < bound \<Longrightarrow> ok q \<Longrightarrow> ch_send ops p q s = (b, s') \<Longrightarrow>
            b = (length (ch_abs ops s) < cap) \<and> inv (if b then Suc n else n) s' \<and>
            ch_abs ops s' = (if b then ch_abs ops s @ [ch_frame ops q] else ch_abs ops s)"
    and recv_law: "inv n s \<Longrightarrow> n < bound \<Longrightarrow> ch_recv ops s = (y, s') \<Longrightarrow> inv n s' \<and>
            (case ch_abs ops s of [] \<Rightarrow> y = None \<and> ch_abs ops s' = []
             | m # ms \<Rightarrow> y = Some m \<and> ch_abs ops s' = ms)"
begin

lemma transcript_fifo:
  "transcript ops ok s0 s a r \<Longrightarrow> inv 0 s0 \<Longrightarrow> ch_abs ops s0 = [] \<Longrightarrow> length a < bound \<Longrightarrow>
   inv (length a) s \<and> a = r @ ch_abs ops s \<and> length (ch_abs ops s) \<le> cap"
proof (induction rule: transcript.induct)
  case start
  then show ?case by simp
next
  case (accept s a r q p s')
  then show ?case using send_law [of "length a" s q p True s'] by auto
next
  case (refuse s a r q p s')
  then show ?case using send_law [of "length a" s q p False s'] by auto
next
  case (receive s a r m s')
  then show ?case using recv_law [of "length a" s "Some m" s'] by (auto split: list.splits)
next
  case (nothing s a r s')
  then show ?case using recv_law [of "length a" s None s'] by (auto split: list.splits)
qed

end

section \<open>The ring buffer provides it\<close>

datatype producer = Local_thread | Remote_thread

definition accepted :: "outcome \<Rightarrow> bool" where
  "accepted r \<longleftrightarrow> r = Returned UB_COMM_OK \<or> r = Returned UB_COMM_SEND_CONGESTED"

definition mpsc_ops :: "nat \<Rightarrow> u64 \<Rightarrow> u32 \<Rightarrow> ('z remote_view_scheme \<times> consumer, producer,
    message_header_t \<times> (nat \<Rightarrow> u8) option, u8 list) channel_ops" where
  "mpsc_ops k ring buffer_cap = \<lparr>
     ch_abs = (\<lambda>(s, c). messages k s),
     ch_frame = (\<lambda>(h, body). frame h body),
     ch_send = (\<lambda>p (h, body) (s, c).
       case p of
         Local_thread \<Rightarrow>
           (case enqueue_local (Some h) body (body_length h) (quiet s) of (r, w) \<Rightarrow> (accepted r, (st w, c)))
       | Remote_thread \<Rightarrow>
           (case enqueue_remote (Some h) body (body_length h) (ucast (r_index_mask s)) (r_entry_stride s)
                   (r_max_msg_size s) (Some (quiet s)) of
              (r, Some w) \<Rightarrow> (accepted r, (st w, c))
            | (r, None) \<Rightarrow> (False, (s, c)))),
     ch_recv = (\<lambda>(s, c).
       case dequeue ring buffer_cap c (quiet s) of
         ((len, bytes), c', w) \<Rightarrow> (if len = 0 then None else Some bytes, (st w, c')))\<rparr>"

definition channel_inv :: "nat \<Rightarrow> u32 \<Rightarrow> nat \<Rightarrow> 'z remote_view_scheme \<times> consumer \<Rightarrow> bool" where
  "channel_inv k mx n = (\<lambda>(s, c). view_wf k s \<and> cache_current s \<and> r_max_msg_size s = ucast mx \<and>
     unat (r_tail s) = n)"

lemma messages_short:
  assumes "mpsc_wf k s" "m \<in> set (messages k s)"
  shows "MSG_HEADER_LEN \<le> length m \<and> length m \<le> unat (r_max_msg_size s)"
proof -
  obtain i where i: "m = message_of (data (slot k s i))" "committed k s i"
    using assms by (auto simp: messages_def mpsc_wf_def)
  then show ?thesis
    using slot_data [OF assms(1), of i] by (auto simp: committed_def message_of_def)
qed

lemma local_send_law:
  assumes inv: "channel_inv k mx n (s, c)" and n: "n < 2 ^ 63" and ok: "sendable (ucast mx) h body"
    and e: "ch_send (mpsc_ops k ring bc) Local_thread (h, body) (s, c) = (b, sc)"
  shows "b = (length (messages k s) < 2 ^ k) \<and> channel_inv k mx (if b then Suc n else n) sc \<and>
         messages k (fst sc) = (if b then messages k s @ [frame h body] else messages k s)"
proof -
  have v: "view_wf k s" "cache_current s" "r_max_msg_size s = ucast mx" "unat (r_tail s) = n"
    using inv by (simp_all add: channel_inv_def)
  have wf: "mpsc_wf k s" and y: "young s" using v n by (simp_all add: view_wf_def young_def)
  obtain s' where s': "mpsc_wf k s'" "mpsc.more s' = mpsc.more s"
    and r: "if length (messages k s) < 2 ^ k
      then enqueue_local (Some h) body (body_length h) (quiet s) =
             (Returned (if unat (r_threshold s) \<le> length (messages k s) + 1
                        then UB_COMM_SEND_CONGESTED else UB_COMM_OK), quiet s') \<and>
           messages k s' = messages k s @ [frame h body] \<and> core s' = core (push k (frame h body) s)
      else enqueue_local (Some h) body (body_length h) (quiet s) = (Returned UB_COMM_ERR_RING_FULL, quiet s') \<and>
           messages k s' = messages k s \<and> core s' = core s"
    using enqueue_local_sim [OF wf y, of h body] ok v by auto
  have sc: "sc = (s', c)" "b = (length (messages k s) < 2 ^ k)"
    using e r by (auto simp: mpsc_ops_def accepted_def comm_codes split: if_splits)
  have more: "v_shadow_head s' = v_shadow_head s" "v_threshold s' = v_threshold s"
    "v_threshold_version s' = v_threshold_version s"
    using s'(2) by (cases s; cases s'; simp)+
  have "core s' = core (if b then push k (frame h body) s else s)" using r sc by (auto split: if_splits)
  then have "r_head s' = r_head s" "r_max_msg_size s' = r_max_msg_size s" "r_threshold s' = r_threshold s"
    "r_threshold_version s' = r_threshold_version s" "r_tail s' = (if b then r_tail s + 1 else r_tail s)"
    by (auto simp: core_def push_def split: if_splits)
  moreover have "unat (r_tail s + 1) = Suc n" using young_tail [OF wf y] v by simp
  ultimately show ?thesis
    using s' more v sc r by (auto simp: channel_inv_def view_wf_def cache_current_def)
qed

lemma remote_send_law:
  assumes inv: "channel_inv k mx n (s, c)" and n: "n < 2 ^ 63" and ok: "sendable (ucast mx) h body"
    and e: "ch_send (mpsc_ops k ring bc) Remote_thread (h, body) (s, c) = (b, sc)"
  shows "b = (length (messages k s) < 2 ^ k) \<and> channel_inv k mx (if b then Suc n else n) sc \<and>
         messages k (fst sc) = (if b then messages k s @ [frame h body] else messages k s)"
proof -
  have v: "view_wf k s" "cache_current s" "r_max_msg_size s = ucast mx" "unat (r_tail s) = n"
    using inv by (simp_all add: channel_inv_def)
  have wf: "mpsc_wf k s" and y: "young s" using v n by (simp_all add: view_wf_def young_def)
  have m: "(ucast (r_index_mask s) :: u64) = mask k" using wf mask_u64 by (simp add: mpsc_wf_def)
  let ?e = "enqueue_remote (Some h) body (body_length h) (mask k) (r_entry_stride s) (r_max_msg_size s) (Some (quiet s))"
  obtain r s' where s': "view_wf k s'" "cache_current s'"
    and r: "if length (messages k s) < 2 ^ k
      then ?e = (Returned r, Some (quiet s')) \<and> (r = UB_COMM_OK \<or> r = UB_COMM_SEND_CONGESTED) \<and>
           messages k s' = messages k s @ [frame h body] \<and> core s' = core (push k (frame h body) s)
      else ?e = (Returned UB_COMM_ERR_RING_FULL, Some (quiet s')) \<and>
           messages k s' = messages k s \<and> core s' = core s"
    using enqueue_remote_sim [OF v(1) y, of h body] ok v by (auto split: if_splits)
  have sc: "sc = (s', c)" "b = (length (messages k s) < 2 ^ k)"
    using e r m by (auto simp: mpsc_ops_def accepted_def comm_codes split: if_splits)
  have "core s' = core (if b then push k (frame h body) s else s)" using r sc by (auto split: if_splits)
  then have "r_max_msg_size s' = r_max_msg_size s" "r_tail s' = (if b then r_tail s + 1 else r_tail s)"
    by (auto simp: core_def push_def split: if_splits)
  moreover have "unat (r_tail s + 1) = Suc n" using young_tail [OF wf y] v by simp
  ultimately show ?thesis using s' v sc r by (auto simp: channel_inv_def split: if_splits)
qed

lemma recv_channel_law:
  assumes inv: "channel_inv k mx n (s, c)" and n: "n < 2 ^ 63" and bc: "mx \<le> buffer_cap"
    and e: "ch_recv (mpsc_ops k ring buffer_cap) (s, c) = (y, sc)"
  shows "channel_inv k mx n sc \<and>
     (case messages k s of [] \<Rightarrow> y = None \<and> messages k (fst sc) = []
      | m # ms \<Rightarrow> y = Some m \<and> messages k (fst sc) = ms)"
proof -
  have v: "view_wf k s" "cache_current s" "r_max_msg_size s = ucast mx" "unat (r_tail s) = n"
    using inv by (simp_all add: channel_inv_def)
  have wf: "mpsc_wf k s" and yg: "young s" using v n by (simp_all add: view_wf_def young_def)
  show ?thesis
  proof (cases "messages k s")
    case Nil
    then obtain c' where "dequeue ring buffer_cap c (quiet s) = ((0, []), c', quiet s)"
      using dequeue_sim_empty [OF wf yg] by blast
    then show ?thesis using Nil e inv by (auto simp: mpsc_ops_def channel_inv_def)
  next
    case (Cons m ms)
    have len: "MSG_HEADER_LEN \<le> length m" "length m \<le> unat mx"
      using messages_short [OF wf, of m] Cons v by auto
    then have lb: "length m \<le> unat buffer_cap" using bc by (auto simp: word_le_nat_alt)
    then have t: "take (unat buffer_cap) m = m" by simp
    have nz: "(of_nat (length m) :: u32) \<noteq> 0"
      using len lb unat_u32_less [of buffer_cap]
      by (auto simp: word_unat_eq_iff unat_of_nat MSG_HEADER_LEN_def)
    obtain s' u where d: "dequeue ring buffer_cap c (quiet s) = ((of_nat (length m), m), c, quiet s')"
      and s': "core s' = core (pop k s)" "mpsc_wf k s'" "messages k s' = ms"
        "s' = pop k s \<or> s' = sample_state u (pop k s)"
      using dequeue_sim [OF wf yg Cons, of ring buffer_cap c] t by auto
    have "sc = (s', c)" "y = Some m" using e d nz by (simp_all add: mpsc_ops_def)
    moreover have "v_shadow_head s' = v_shadow_head s" "v_threshold s' = v_threshold s"
      "v_threshold_version s' = v_threshold_version s"
      using s'(4) by (auto simp: sample_state_view pop_def)
    moreover have "unat (r_head s + 1) = Suc (unat (r_head s))"
      using wf yg by (intro trans [OF unat_add_small]) (auto simp: mpsc_wf_def young_def)
    moreover have "r_head s' = r_head s + 1" "r_tail s' = r_tail s" "r_max_msg_size s' = r_max_msg_size s"
      "r_threshold s' = r_threshold s" "r_threshold_version s' = r_threshold_version s"
      using s'(1) by (simp_all add: core_def pop_def)
    ultimately show ?thesis
      using v s' Cons by (auto simp: channel_inv_def view_wf_def cache_current_def)
  qed
qed

interpretation mpsc: bounded_channel
  "mpsc_ops k ring buffer_cap :: ('z remote_view_scheme \<times> consumer, producer,
     message_header_t \<times> (nat \<Rightarrow> u8) option, u8 list) channel_ops"
  "channel_inv k (min mx buffer_cap)" "\<lambda>(h, body). sendable (ucast (min mx buffer_cap)) h body" "2 ^ k" "2 ^ 63"
  for k :: nat and ring :: u64 and mx buffer_cap :: u32
proof unfold_locales
  fix n and sc sc' :: "'z remote_view_scheme \<times> consumer" and q :: "message_header_t \<times> (nat \<Rightarrow> u8) option" and p b y
  assume inv: "channel_inv k (min mx buffer_cap) n sc" and n: "n < 2 ^ 63"
  obtain s c h body where sc: "sc = (s, c)" "q = (h, body)" by (cases sc, cases q)
  have abs: "ch_abs (mpsc_ops k ring buffer_cap) x = messages k (fst x)" for x :: "'z remote_view_scheme \<times> consumer"
    by (simp add: mpsc_ops_def split: prod.split)
  have fr: "ch_frame (mpsc_ops k ring buffer_cap) q = frame h body"
    by (simp add: mpsc_ops_def sc)
  show "case q of (h, body) \<Rightarrow> sendable (ucast (min mx buffer_cap)) h body \<Longrightarrow>
      ch_send (mpsc_ops k ring buffer_cap) p q sc = (b, sc') \<Longrightarrow>
      b = (length (ch_abs (mpsc_ops k ring buffer_cap) sc) < 2 ^ k) \<and>
      channel_inv k (min mx buffer_cap) (if b then Suc n else n) sc' \<and>
      ch_abs (mpsc_ops k ring buffer_cap) sc' =
        (if b then ch_abs (mpsc_ops k ring buffer_cap) sc @ [ch_frame (mpsc_ops k ring buffer_cap) q]
         else ch_abs (mpsc_ops k ring buffer_cap) sc)"
    unfolding abs fr
    using local_send_law [OF _ n, of k "min mx buffer_cap" s c h body ring buffer_cap b sc']
      remote_send_law [OF _ n, of k "min mx buffer_cap" s c h body ring buffer_cap b sc'] inv
    by (cases p) (auto simp: sc)
  show "ch_recv (mpsc_ops k ring buffer_cap) sc = (y, sc') \<Longrightarrow> channel_inv k (min mx buffer_cap) n sc' \<and>
      (case ch_abs (mpsc_ops k ring buffer_cap) sc of
         [] \<Rightarrow> y = None \<and> ch_abs (mpsc_ops k ring buffer_cap) sc' = []
       | m # ms \<Rightarrow> y = Some m \<and> ch_abs (mpsc_ops k ring buffer_cap) sc' = ms)"
    unfolding abs using recv_channel_law [OF _ n, of k "min mx buffer_cap" s c buffer_cap ring y sc'] inv
    by (simp add: sc)
qed

section \<open>Construction and memory layout\<close>

text \<open>A number whose predecessor shares no bit with it is a power of two.\<close>

lemma and_pred_nat: "(n :: nat) AND (n - 1) = 0 \<Longrightarrow> 0 < n \<Longrightarrow> \<exists>k. n = 2 ^ k"
proof (induction n rule: less_induct)
  case (less n)
  show ?case
  proof (cases "even n")
    case True
    then obtain m where n: "n = 2 * m" by (elim evenE)
    with less.prems have m: "0 < m" by simp
    have "n - 1 = Suc (2 * (m - 1))" using m by (simp add: n)
    then have "m AND (m - 1) = 0"
      using less.prems(1) m unfolding n by (subst (asm) and_nat_unfold) (auto split: if_splits)
    then obtain k where "m = 2 ^ k" using less.IH [of m] m n by auto
    then show ?thesis using n by (intro exI [of _ "Suc k"]) simp
  next
    case False
    then obtain m where n: "n = Suc (2 * m)" by (auto elim: oddE)
    have "m = 0" using less.prems(1) unfolding n by (subst (asm) and_nat_unfold) (auto split: if_splits)
    then show ?thesis using n by (intro exI [of _ 0]) simp
  qed
qed

lemma power_of_two_iff: "(w :: u32) \<noteq> 0 \<and> w AND (w - 1) = 0 \<longleftrightarrow> (\<exists>k < 32. w = 2 ^ k)"
proof
  assume w: "w \<noteq> 0 \<and> w AND (w - 1) = 0"
  then have "unat w AND unat (w - 1) = 0" by (metis unsigned_and_eq unsigned_0)
  then have "unat w AND (unat w - 1) = 0" using w by (simp add: unat_minus_one)
  then obtain k where k: "unat w = 2 ^ k" using and_pred_nat [of "unat w"] w by (auto simp: unat_gt_0)
  then have "(2::nat) ^ k < 2 ^ 32" using unat_u32_less [of w] by simp
  then have "k < 32" by (rule power_less_imp_less_exp [rotated]) simp
  moreover have "w = 2 ^ k" using arg_cong [OF k, of "of_nat :: nat \<Rightarrow> u32"] by simp
  ultimately show "\<exists>k < 32. w = 2 ^ k" by blast
next
  assume "\<exists>k < 32. w = 2 ^ k"
  then obtain k where k: "k < 32" "w = 2 ^ k" by blast
  moreover have "w - 1 = mask k" using k by (simp add: mask_eq_exp_minus_1)
  moreover have "(2 ^ k :: u32) AND mask k = 0" by (rule bit_word_eqI) (auto simp: bit_simps)
  moreover have "(2 ^ k :: u32) \<noteq> 0" using k by simp
  ultimately show "w \<noteq> 0 \<and> w AND (w - 1) = 0" by simp
qed

lemma unat_power_u32: "k < 32 \<Longrightarrow> unat (2 ^ k :: u32) = 2 ^ k"
proof -
  assume "k < 32"
  then have "(2::nat) ^ k < 2 ^ 32" by (intro power_strict_increasing) auto
  then have "unat (of_nat (2 ^ k) :: u32) = 2 ^ k" unfolding unat_of_nat by simp
  then show ?thesis by simp
qed

lemma constructor_wf:
  assumes k: "k < 32" and r: "MPSCRingBuffer mem now (2 ^ k) mx = Some r"
  shows "mpsc_wf k r" "messages k r = []" "r_max_msg_size r = ucast mx" "r_tail r = 0" "r_head r = 0"
    "r_entry_stride r = ring_stride mx" "r_threshold_version r = 1" "r_congested r = 0"
    "unat (r_threshold r) = (2 ^ k * 80 + 99) div 100"
proof -
  have pw: "(2 ^ k :: u32) \<noteq> 0 \<and> (2 ^ k :: u32) AND (2 ^ k - 1) = 0" using k power_of_two_iff [of "2 ^ k"] by blast
  have m: "(2 ^ k :: u32) - 1 = mask k" by (simp add: mask_eq_exp_minus_1)
  have len: "unat mx \<le> unat (ring_stride mx) - 8" using stride_bounds(1) [of mx] by simp
  have r': "r = \<lparr>r_head = 0, r_tail = 0, r_entry_stride = ring_stride mx, r_entry_num = ucast (2 ^ k :: u32),
      r_max_msg_size = ucast mx, r_index_mask = mask k, r_cached_head = 0,
      r_threshold = calculate_flow_threshold (2 ^ k) DEFAULT_CONGESTION_THRESHOLD_PERCENT,
      r_threshold_version = 1, r_congested = 0, r_max_depth = 0,
      r_entries = map (\<lambda>i. \<lparr>ready_seq = 0, data = map (\<lambda>j. mem (unat (entry_offset (ring_stride mx) (of_nat i)) + 8 + j))
         [0..<unat (ring_stride mx) - 8]\<rparr>) [0..<2 ^ k], r_clock_us = now\<rparr>"
    using r pw unfolding MPSCRingBuffer_def ring_stride_def [symmetric]
    by (simp add: m Let_def unat_power_u32 [OF k])
  show "mpsc_wf k r"
    using k len unat_u32_less [of mx]
    by (auto simp: r' mpsc_wf_def unat_power_u32 slot_def)
  show "messages k r = []" by (simp add: r' messages_def)
  show "r_max_msg_size r = ucast mx" "r_tail r = 0" "r_head r = 0" "r_entry_stride r = ring_stride mx"
    "r_threshold_version r = 1" "r_congested r = 0"
    by (simp_all add: r')
  show "unat (r_threshold r) = (2 ^ k * 80 + 99) div 100"
    unfolding r' DEFAULT_CONGESTION_THRESHOLD_PERCENT_def
    by (simp add: unat_flow_threshold unat_power_u32 [OF k])
qed

text \<open>A remote process attaches with an empty cache.\<close>

definition attach :: "mpsc \<Rightarrow> remote_view" where
  "attach r = mpsc.extend r (remote_view.fields 0 0 0)"

lemma attach_inv:
  assumes "k < 32" and "MPSCRingBuffer mem now (2 ^ k) mx = Some r"
  shows "channel_inv k mx 0 (attach r, c)" "messages k (attach r) = []"
proof -
  have f: "r_head (attach r) = r_head r" "r_tail (attach r) = r_tail r" "r_entries (attach r) = r_entries r"
    "r_entry_num (attach r) = r_entry_num r" "r_index_mask (attach r) = r_index_mask r"
    "r_max_msg_size (attach r) = r_max_msg_size r" "r_cached_head (attach r) = r_cached_head r"
    "r_congested (attach r) = r_congested r" "r_threshold_version (attach r) = r_threshold_version r"
    "v_shadow_head (attach r) = 0" "v_threshold_version (attach r) = 0"
    by (simp_all add: attach_def mpsc.defs remote_view.defs)
  have c: "slot k (attach r) = slot k r" "committed k (attach r) = committed k r"
    by (auto simp: fun_eq_iff slot_def committed_def f)
  show "messages k (attach r) = []" using constructor_wf(4,5) [OF assms] by (simp add: messages_def f)
  show "channel_inv k mx 0 (attach r, c)"
    using constructor_wf [OF assms] unfolding channel_inv_def view_wf_def cache_current_def
    by (simp add: f c mpsc_wf_def)
qed

lemma entry_offset_exact:
  assumes "k < 32" "i < 2 ^ k"
  shows "unat (entry_offset (ring_stride m) (of_nat i)) = 192 + i * unat (ring_stride m)"
proof -
  have p: "(2::nat) ^ k \<le> 2 ^ 31" using assms by (intro power_increasing) auto
  then have i: "i < 2147483648" using assms by simp
  then have u: "unat (of_nat i :: u64) = i" by (simp add: unat_of_nat)
  have b: "i * unat (ring_stride m) \<le> 2147483648 * 4294967360"
    using i stride_bounds(3) [of m] by (intro mult_le_mono) auto
  then have "unat (of_nat i * ring_stride m) = i * unat (ring_stride m)"
    by (subst unat_mult_small) (simp_all add: u)
  then show ?thesis using b unfolding entry_offset_def by (subst unat_add_small) (simp_all add: data_offset)
qed

text \<open>Sample data for the closed instances.\<close>

definition sample_header :: message_header_t where
  "sample_header = \<lparr>src_thread_id = 7, body_length = 2, dest_node_id = 1, src_node_id = 0, msg_type = 3, priority = 1\<rparr>"

definition sample_body :: "nat \<Rightarrow> u8" where
  "sample_body i = of_nat i + 65"

lemma sample_sendable: "sendable (ucast (64 :: u32)) sample_header (Some sample_body)"
  by (simp add: sendable_def sample_header_def MSG_HEADER_LEN_def)

lemma constructor_accepts:
  assumes "k < 32"
  obtains r where "MPSCRingBuffer mem now (2 ^ k) mx = Some r"
proof -
  have "(2 ^ k :: u32) \<noteq> 0 \<and> (2 ^ k :: u32) AND (2 ^ k - 1) = 0" using assms power_of_two_iff [of "2 ^ k"] by blast
  then show thesis using that by (simp add: MPSCRingBuffer_def Let_def)
qed

section \<open>Properties\<close>

text \<open>C1. The ring buffer is a bounded first-in first-out channel. Whatever sequence of sends by
  local and remote producers and of receives is run on a freshly constructed ring of
  \<open>2 ^ k\<close> entries (fewer than \<open>2 ^ 63\<close> sends, any number of wraps of the ring), the bytes of the
  accepted messages are exactly the bytes received so far followed by the bytes still in the
  ring: no message is lost, duplicated, reordered or altered, and never more than \<open>2 ^ k\<close> wait.\<close>

theorem mpsc_channel_fifo:
  assumes k: "k < 32" and r: "MPSCRingBuffer mem now (2 ^ k) mx = Some r" and bc: "mx \<le> buffer_cap"
    and t: "transcript (mpsc_ops k ring buffer_cap) (\<lambda>(h, body). sendable (ucast mx) h body)
              (attach r, consumer_initial) (s, c) sent received"
    and n: "length sent < 2 ^ 63"
  shows "sent = received @ messages k s \<and> length (messages k s) \<le> 2 ^ k \<and> mpsc_wf k s"
proof -
  have m: "min mx buffer_cap = mx" using bc by (rule min_absorb1)
  have "channel_inv k mx (length sent) (s, c) \<and> sent = received @ ch_abs (mpsc_ops k ring buffer_cap) (s, c) \<and>
      length (ch_abs (mpsc_ops k ring buffer_cap) (s, c)) \<le> 2 ^ k"
    by (rule mpsc.transcript_fifo [of k ring buffer_cap mx, unfolded m, OF t attach_inv(1) [OF k r] _ n])
       (simp add: mpsc_ops_def attach_inv(2) [OF k r])
  then show ?thesis by (simp add: mpsc_ops_def channel_inv_def view_wf_def)
qed

theorem mpsc_channel_fifo_witness:
  "\<exists>r s c. MPSCRingBuffer (\<lambda>_. 0) 0 (2 ^ 2) 64 = Some r \<and>
     transcript (mpsc_ops 2 4096 64) (\<lambda>(h, body). sendable (ucast (64 :: u32)) h body)
       (attach r, consumer_initial) (s, c) [frame sample_header (Some sample_body)] [] \<and>
     messages 2 s = [frame sample_header (Some sample_body)]"
proof -
  obtain r where r: "MPSCRingBuffer (\<lambda>_. 0) 0 (2 ^ 2) 64 = Some r" by (rule constructor_accepts [of 2]) auto
  let ?ops = "mpsc_ops 2 4096 64 :: (remote_view \<times> consumer, _, _, _) channel_ops" and ?ok = "\<lambda>(h, body). sendable (ucast (64 :: u32)) h body"
  let ?q = "(sample_header, Some sample_body)"
  obtain b sc where e: "ch_send ?ops Remote_thread ?q (attach r, consumer_initial) = (b, sc)"
    by (rule prod.exhaust)
  obtain s c where sc: "sc = (s, c)" by force
  have k2: "(2::nat) < 32" by simp
  have b: "b" using remote_send_law [OF attach_inv(1) [OF k2 r] _ sample_sendable e] attach_inv(2) [OF k2 r] by simp
  have q: "?ok ?q" using sample_sendable by simp
  have "transcript ?ops ?ok (attach r, consumer_initial) (s, c) ([] @ [ch_frame ?ops ?q]) []"
    by (rule transcript.accept [where p = Remote_thread], rule transcript.start, rule q) (use e b sc in simp)
  then have t: "transcript ?ops ?ok (attach r, consumer_initial) (s, c) [frame sample_header (Some sample_body)] []"
    by (simp add: mpsc_ops_def)
  show ?thesis using mpsc_channel_fifo [OF k2 r order_refl t] r t by auto
qed

text \<open>C14. What a local send returns, on every branch, in a quiet environment: null header, missing
  body, message too long, ring full, or accepted; and an accepted send reports congestion
  exactly if the number of messages, its own included, has reached the threshold, although
  it consults a cached head.\<close>

theorem enqueue_local_result:
  assumes "mpsc_wf k s" and "young s" and "MSG_HEADER_LEN + unat body_len < 2 ^ 32"
    and "\<forall>h. hdr = Some h \<longrightarrow> body_length h = body_len"
  shows "fst (enqueue_local hdr body body_len (quiet s)) = Returned
     (if hdr = None \<or> body_len > 0 \<and> body = None then EINVAL
      else if MSG_HEADER_LEN + unat body_len > unat (r_max_msg_size s) then EMSGSIZE
      else if length (messages k s) = 2 ^ k then UB_COMM_ERR_RING_FULL
      else if unat (r_threshold s) \<le> length (messages k s) + 1 then UB_COMM_SEND_CONGESTED
      else UB_COMM_OK)"
proof (cases hdr)
  case None
  then show ?thesis by (simp add: enqueue_local_def Let_def)
next
  case (Some h)
  then have len: "body_length h = body_len" using assms(4) by simp
  have cap: "length (messages k s) \<le> 2 ^ k" using assms(1) unfolding messages_def mpsc_wf_def by auto
  have tot: "unat (ucast ((of_nat MSG_HEADER_LEN :: u32) + body_len) :: u64) = MSG_HEADER_LEN + unat body_len"
    using assms(3) by (rule total_len_small)
  show ?thesis
  proof (cases "sendable (r_max_msg_size s) h body")
    case True
    then show ?thesis
      using enqueue_local_sim [OF assms(1,2) True] cap len Some
      by (auto simp: sendable_def)
  next
    case False
    then show ?thesis
      using Some len tot assms(3) by (auto simp: enqueue_local_def sendable_def Let_def word_less_nat_alt)
  qed
qed

theorem enqueue_local_result_witness:
  "\<exists>r. MPSCRingBuffer (\<lambda>_. 0) 0 (2 ^ 2) 64 = Some r \<and>
     fst (enqueue_local (Some sample_header) (Some sample_body) 2 (quiet r)) = Returned UB_COMM_OK"
proof -
  obtain r where r: "MPSCRingBuffer (\<lambda>_. 0) 0 (2 ^ 2) 64 = Some r" by (rule constructor_accepts [of 2]) auto
  have k2: "(2::nat) < 32" by simp
  note w = constructor_wf [OF k2 r]
  have "fst (enqueue_local (Some sample_header) (Some sample_body) 2 (quiet r)) = Returned UB_COMM_OK"
    by (subst enqueue_local_result [OF w(1)])
       (simp_all add: w sample_header_def young_def MSG_HEADER_LEN_def)
  then show ?thesis using r by blast
qed

text \<open>C15. The layout of the ring in shared memory: the entries start on cache lines behind the
  ring object, an entry's sequence word and message end before the next entry begins, and the
  last one ends inside the size that \<open>CalculateMemorySize\<close> asks for; no address computation
  wraps.\<close>

theorem mpsc_layout:
  assumes k: "k < 32" and r: "MPSCRingBuffer mem now (2 ^ k) mx = Some r" and ij: "i < j" "j < 2 ^ k"
  shows "let off = \<lambda>i. unat (entry_offset (r_entry_stride r) (of_nat i)) in
     64 dvd off i \<and> 192 \<le> off i \<and> off i + 8 + unat mx \<le> off j \<and>
     off j + 8 + unat mx \<le> unat (CalculateMemorySize (2 ^ k) mx)"
proof -
  let ?S = "unat (ring_stride mx)"
  have st: "r_entry_stride r = ring_stride mx" using constructor_wf [OF k r] by simp
  have "Suc i * ?S \<le> j * ?S" using ij by (intro mult_le_mono1) simp
  moreover have "Suc j * ?S \<le> 2 ^ k * ?S" using ij by (intro mult_le_mono1) simp
  ultimately have le: "i * ?S + ?S \<le> j * ?S" "j * ?S + ?S \<le> ?S * 2 ^ k" by (simp_all add: algebra_simps)
  have dv: "64 dvd 192 + i * ?S" using stride_bounds(2) [of mx] by (intro dvd_add dvd_mult) simp_all
  show ?thesis
    using le dv ij stride_bounds(1) [of mx] unat_memory_size [OF k unat_power_u32 [OF k], of mx]
    by (simp add: st Let_def entry_offset_exact [OF k])
qed

theorem mpsc_layout_witness:
  "\<exists>r. MPSCRingBuffer (\<lambda>_. 0) 0 (2 ^ 2) 100 = Some r \<and>
     unat (entry_offset (r_entry_stride r) (of_nat 1)) + 108 \<le> unat (entry_offset (r_entry_stride r) (of_nat 3))"
proof -
  obtain r where r: "MPSCRingBuffer (\<lambda>_. 0) 0 (2 ^ 2) 100 = Some r" by (rule constructor_accepts [of 2]) auto
  then show ?thesis using mpsc_layout [OF _ r, of 1 3] by (simp add: Let_def)
qed

text \<open>C16. The constructor accepts exactly the powers of two below \<open>2 ^ 32\<close>, and then establishes the
  ring invariant with an empty ring and the default threshold of 80 percent, rounded up.\<close>

theorem mpsc_constructor:
  "(MPSCRingBuffer mem now capacity mx = None \<longleftrightarrow> \<not> (\<exists>k < 32. capacity = 2 ^ k)) \<and>
   (k < 32 \<longrightarrow> (\<exists>r. MPSCRingBuffer mem now (2 ^ k) mx = Some r \<and> mpsc_wf k r \<and> messages k r = [] \<and>
      unat (r_threshold r) = (2 ^ k * 80 + 99) div 100))"
proof (intro conjI impI)
  have "MPSCRingBuffer mem now capacity mx = None \<longleftrightarrow> \<not> (capacity \<noteq> 0 \<and> capacity AND (capacity - 1) = 0)"
    by (simp add: MPSCRingBuffer_def Let_def)
  then show "MPSCRingBuffer mem now capacity mx = None \<longleftrightarrow> \<not> (\<exists>k < 32. capacity = 2 ^ k)"
    unfolding power_of_two_iff .
  assume k: "k < 32"
  obtain r where r: "MPSCRingBuffer mem now (2 ^ k) mx = Some r" by (rule constructor_accepts [OF k])
  then show "\<exists>r. MPSCRingBuffer mem now (2 ^ k) mx = Some r \<and> mpsc_wf k r \<and> messages k r = [] \<and>
      unat (r_threshold r) = (2 ^ k * 80 + 99) div 100"
    using constructor_wf(1,2,9) [OF k r] by blast
qed

theorem mpsc_constructor_witness:
  "MPSCRingBuffer (\<lambda>_. 0) 0 6 64 = None \<and> (\<exists>r. MPSCRingBuffer (\<lambda>_. 0) 0 (2 ^ 3) 64 = Some r \<and> unat (r_threshold r) = 7)"
proof -
  have "MPSCRingBuffer (\<lambda>_. 0) 0 6 64 = None" by (simp add: MPSCRingBuffer_def)
  then show ?thesis using mpsc_constructor [of "\<lambda>_. 0" 0 6 64 3] by auto
qed

end
