(* ===== verification/Mpsc_Defects.thy ===== *)
theory Mpsc_Defects
  imports Mpsc_Channel
begin

text \<open>
  Two places where the ring buffer does not do what its comments say: the size check of an
  enqueue, which wraps in 32 bits, and \<open>trigger_force_full\<close>, which does not stop a producer whose
  cached head still shows room.
\<close>

section \<open>The size check\<close>

lemma wrapped_total_len:
  assumes "2 ^ 32 - MSG_HEADER_LEN \<le> unat (body_len :: u32)"
  shows "unat (ucast ((of_nat MSG_HEADER_LEN :: u32) + body_len) :: u64) = unat body_len - (2 ^ 32 - MSG_HEADER_LEN)"
proof -
  have b: "unat body_len < 2 ^ 32" using unat_u32_less [of body_len] by simp
  have "unat ((of_nat MSG_HEADER_LEN :: u32) + body_len) = (MSG_HEADER_LEN + unat body_len) mod 2 ^ 32"
    by (simp add: MSG_HEADER_LEN_def unat_word_ariths)
  also have "\<dots> = MSG_HEADER_LEN + unat body_len - 2 ^ 32"
    using assms b by (simp add: MSG_HEADER_LEN_def mod_if)
  finally show ?thesis using assms by (simp add: MSG_HEADER_LEN_def)
qed

lemma write_message_overrun:
  assumes "unat idx < length (r_entries s)" "length (data (get_entry idx s)) < MSG_HEADER_LEN + unat body_len"
    "MSG_HEADER_LEN \<le> length (data (get_entry idx s))"
  shows "write_message idx h body body_len q (quiet s) = None"
  using assms by (simp add: write_message_def get_entry_upd write_at_def Let_def)

text \<open>C24. A body length of \<open>2 ^ 32 - 16\<close> or more passes the size check, because header and body
  length are added in 32 bits: on a ring with room, such a send writes the body far beyond
  the memory of its entry.\<close>

theorem enqueue_size_check_wraps:
  assumes wf: "mpsc_wf k s" and y: "young s" and room: "length (messages k s) < 2 ^ k"
    and big: "2 ^ 32 - MSG_HEADER_LEN \<le> unat body_len"
    and fits: "unat body_len - (2 ^ 32 - MSG_HEADER_LEN) \<le> unat (r_max_msg_size s)"
    and mem: "\<forall>e \<in> set (r_entries s). MSG_HEADER_LEN \<le> length (data e) \<and> length (data e) < 2 ^ 32"
  shows "fst (enqueue_local (Some h) (Some b) body_len (quiet s)) = Out_of_bounds"
proof -
  let ?h = "unat (r_head s)" and ?t = "unat (r_tail s)"
  have w: "?h \<le> ?t" "?t \<le> ?h + 2 ^ k" "unat (r_cached_head s) \<le> ?h" "length (r_entries s) = 2 ^ k"
    using wf by (simp_all add: mpsc_wf_def)
  have lt: "?t < ?h + 2 ^ k" using room w by (simp add: messages_def)
  define s1 where "s1 = (if unat (r_cached_head s) + 2 ^ k \<le> ?t then s\<lparr>r_cached_head := r_head s\<rparr> else s)"
  have s1: "r_tail s1 = r_tail s" "r_entries s1 = r_entries s" "r_index_mask s1 = r_index_mask s"
    by (simp_all add: s1_def)
  have room': "local_room (r_tail s) (quiet s) = (True, quiet s1)"
    using unat_room [OF wf y w(3)] unat_room [OF wf y order_refl] w lt
    by (auto simp: local_room_quiet s1_def)
  let ?s2 = "s1\<lparr>r_tail := r_tail s + 1\<rparr>" and ?i = "r_tail s AND ucast (r_index_mask s)"
  have res: "reserve_local (r_tail s) (quiet s) = (Some (r_tail s), quiet ?s2)"
    by (simp add: reserve_local.simps room' s1)
  have i: "unat ?i < length (r_entries ?s2)" using ring_index [OF wf, of "r_tail s"] w s1 by simp
  then have "data (get_entry ?i ?s2) \<in> data ` set (r_entries s)" using s1 by (simp add: get_entry_def)
  then have d: "length (data (get_entry ?i ?s2)) < 2 ^ 32" "MSG_HEADER_LEN \<le> length (data (get_entry ?i ?s2))"
    using mem by auto
  have "write_message ?i h (Some b) body_len (r_tail s + 1) (quiet ?s2) = None"
    using i d big by (intro write_message_overrun) (auto simp: MSG_HEADER_LEN_def)
  moreover have "\<not> ucast ((of_nat MSG_HEADER_LEN :: u32) + body_len) > r_max_msg_size s"
    using wrapped_total_len [OF big] fits by (simp add: word_less_nat_alt)
  ultimately show ?thesis by (simp add: enqueue_local_def res s1 Let_def)
qed

theorem enqueue_size_check_wraps_witness:
  "\<exists>r. MPSCRingBuffer (\<lambda>_. 0) 0 (2 ^ 2) 64 = Some r \<and>
     fst (enqueue_local (Some sample_header) (Some sample_body) (- 16) (quiet r)) = Out_of_bounds"
proof -
  obtain r where r: "MPSCRingBuffer (\<lambda>_. 0) 0 (2 ^ 2) 64 = Some r" by (rule constructor_accepts [of 2]) auto
  have k2: "(2::nat) < 32" by simp
  note w = constructor_wf [OF k2 r]
  have "\<forall>e \<in> set (r_entries r). length (data e) = unat (ring_stride 64) - 8"
    using r by (auto simp: MPSCRingBuffer_def ring_stride_def Let_def split: if_splits)
  then have mem: "\<forall>e \<in> set (r_entries r). MSG_HEADER_LEN \<le> length (data e) \<and> length (data e) < 2 ^ 32"
    using unat_stride [of 64] by (simp add: MSG_HEADER_LEN_def)
  have "fst (enqueue_local (Some sample_header) (Some sample_body) (- 16) (quiet r)) = Out_of_bounds"
    by (rule enqueue_size_check_wraps [OF w(1) _ _ _ _ mem]) (simp_all add: w young_def MSG_HEADER_LEN_def)
  then show ?thesis using r by blast
qed

section \<open>Forcing a ring full\<close>

lemma flow_local_codes:
  assumes c: "r_congested s = 0 \<or> r_congested s = 1"
  shows "\<exists>r s'. flow_result_after_enqueue new_tail (quiet s) = (r, quiet s') \<and>
     (r = UB_COMM_OK \<or> r = UB_COMM_SEND_CONGESTED) \<and> r_tail s' = r_tail s"
proof -
  have "r_tail (sample_state u (s\<lparr>r_cached_head := x\<rparr>)) = r_tail s" for u x by (simp add: sample_state_def)
  then show ?thesis
    using c sample_quiet [of "s\<lparr>r_cached_head := r_head s\<rparr>"]
    by (auto simp: flow_result_after_enqueue_def get_flow_threshold_def Let_def)
qed

text \<open>C25. \<open>trigger_force_full\<close>, by which a node that shuts down means to make its rings look full,
  does not stop a producer whose cached head still shows room: its next send is accepted and
  moves the tail, although nobody will read the message.\<close>

theorem force_full_accepts:
  assumes wf: "mpsc_wf k s" and y: "young s" and ok: "sendable (r_max_msg_size s) h body"
    and cached: "unat (r_tail s) < unat (r_cached_head s) + 2 ^ k"
  shows "\<exists>r s'. enqueue_local (Some h) body (body_length h) (trigger_force_full (quiet s)) = (Returned r, quiet s') \<and>
     (r = UB_COMM_OK \<or> r = UB_COMM_SEND_CONGESTED) \<and> r_tail s' = r_tail s + 1"
proof -
  let ?f = "s\<lparr>r_head := r_tail s - r_entry_num s\<rparr>"
  have w: "unat (r_cached_head s) \<le> unat (r_head s)" "length (r_entries s) = 2 ^ k" "r_congested s = 0 \<or> r_congested s = 1"
    using wf by (simp_all add: mpsc_wf_def)
  have room: "local_room (r_tail s) (quiet ?f) = (True, quiet ?f)"
    using unat_room [OF wf y w(1)] cached by (simp add: local_room_quiet)
  let ?s2 = "?f\<lparr>r_tail := r_tail s + 1\<rparr>" and ?i = "r_tail s AND ucast (r_index_mask s)"
  have res: "reserve_local (r_tail s) (quiet ?f) = (Some (r_tail s), quiet ?s2)"
    by (simp add: reserve_local.simps room)
  have i: "unat ?i < length (r_entries ?s2)" using ring_index [OF wf, of "r_tail s"] w by simp
  then have "get_entry ?i ?s2 \<in> set (r_entries s)" by (simp add: get_entry_def)
  then have fits: "MSG_HEADER_LEN + unat (body_length h) \<le> length (data (get_entry ?i ?s2))"
    using wf ok by (fastforce simp: mpsc_wf_def sendable_def)
  obtain s3 where s3: "write_message ?i h body (body_length h) (r_tail s + 1) (quiet ?s2) = Some (quiet s3)"
    "r_tail s3 = r_tail s + 1" "r_congested s3 = r_congested s"
    using write_message_quiet [OF i fits, of body h] ok by (auto simp: sendable_def upd_entry_def)
  obtain r s' where "flow_result_after_enqueue (r_tail s + 1) (quiet s3) = (r, quiet s')"
    "r = UB_COMM_OK \<or> r = UB_COMM_SEND_CONGESTED" "r_tail s' = r_tail s + 1"
    using flow_local_codes [of s3 "r_tail s + 1"] w s3 by auto
  moreover have "\<not> ucast ((of_nat MSG_HEADER_LEN :: u32) + body_length h) > r_max_msg_size s"
    "\<not> (body_length h > 0 \<and> body = None)"
    using ok total_len_small [of "body_length h"] by (auto simp: word_less_nat_alt sendable_def)
  ultimately show ?thesis
    by (auto simp: trigger_force_full_def enqueue_local_def res s3 Let_def)
qed

theorem force_full_accepts_witness:
  "\<exists>r x s'. MPSCRingBuffer (\<lambda>_. 0) 0 (2 ^ 2) 64 = Some r \<and>
     enqueue_local (Some sample_header) (Some sample_body) 2 (trigger_force_full (quiet r)) = (Returned x, quiet s') \<and>
     r_tail s' = 1"
proof -
  obtain r where r: "MPSCRingBuffer (\<lambda>_. 0) 0 (2 ^ 2) 64 = Some r" by (rule constructor_accepts [of 2]) auto
  have k2: "(2::nat) < 32" by simp
  note w = constructor_wf [OF k2 r]
  have "body_length sample_header = 2" by (simp add: sample_header_def)
  then show ?thesis
    using force_full_accepts [OF w(1), of sample_header "Some sample_body"] sample_sendable r
    by (auto simp: w young_def)
qed

end
