(* ===== verification/Thread_Pool.thy ===== *)
theory Thread_Pool
  imports Main "HOL-Library.Multiset"
begin

text \<open>
  The worker pool of the communication queue, \<open>src/ub_comm_queue/ThreadPool.h\<close>: a queue of tasks
  under a mutex, workers that take tasks until shutdown and then drain the queue, and a
  destructor that wakes the workers and waits for them. A rule of \<open>pool_step\<close> is one critical
  section of the code, the run of one task outside the mutex, or one access that the code makes
  without the mutex: the \<open>notify_one\<close> after a submission, the store of the flag and the
  \<open>notify_all\<close> of the destructor. The wait on the condition variable is split where the code can be
  interrupted: a worker that found the predicate false is \<open>Blocking\<close>, still with the mutex, and a
  step of its own makes it \<open>Waiting\<close>; only a \<open>Waiting\<close> worker receives a notification. The
  ghost lists \<open>p_accepted\<close>, \<open>p_started\<close> and \<open>p_done\<close> record what happened.
\<close>

section \<open>State\<close>

datatype 't worker =
    Loop_head          \<comment> \<open>about to test \<open>shuttingDown_\<close>\<close>
  | Dequeuing          \<comment> \<open>about to lock the mutex in \<open>tryDequeueTask\<close>\<close>
  | Blocking           \<comment> \<open>holds the mutex, the predicate of the wait was false\<close>
  | Waiting            \<comment> \<open>blocked on \<open>taskAvailable_\<close>, without the mutex\<close>
  | Woken              \<comment> \<open>notified, about to lock the mutex and to test the predicate again\<close>
  | Running 't         \<comment> \<open>executing a task of phase 1\<close>
  | Draining           \<comment> \<open>inside \<open>executeDrainPhase\<close>, about to lock the mutex\<close>
  | Drain_running 't   \<comment> \<open>executing a task of phase 2\<close>
  | Exited

datatype destructor = Not_begun | Flag_stored | Joining

text \<open>\<open>p_notifies\<close> counts the calls of \<open>enqueue\<close> that have released the mutex and not yet called
  \<open>notify_one\<close>; \<open>p_destructor\<close> is how far the destructor has come.\<close>

record 't pool =
  p_threads :: "'t worker list"
  p_queue :: "'t list"
  p_shutting_down :: bool
  p_notifies :: nat
  p_destructor :: destructor
  p_accepted :: "'t list"
  p_started :: "'t list"
  p_done :: "'t list"

definition ThreadPool :: "nat \<Rightarrow> 't pool" where
  "ThreadPool n = \<lparr>p_threads = replicate n Loop_head, p_queue = [], p_shutting_down = False,
     p_notifies = 0, p_destructor = Not_begun, p_accepted = [], p_started = [], p_done = []\<rparr>"

text \<open>Every critical section but the one that ends in the wait is a single step, so the mutex is
  free unless a worker is \<open>Blocking\<close>.\<close>

definition mutex_free :: "'t pool \<Rightarrow> bool" where
  "mutex_free p \<longleftrightarrow> Blocking \<notin> set (p_threads p)"

section \<open>Operations\<close>

datatype pool_error = Pool_shutting_down | No_worker_threads

text \<open>The critical section of \<open>enqueue\<close>; the notification is still to come.\<close>

definition pool_enqueue :: "'t \<Rightarrow> 't pool \<Rightarrow> pool_error + 't pool" where
  "pool_enqueue f p =
     (if p_shutting_down p then Inl Pool_shutting_down
      else if p_threads p = [] then Inl No_worker_threads
      else Inr (p\<lparr>p_queue := p_queue p @ [f], p_accepted := p_accepted p @ [f],
                  p_notifies := Suc (p_notifies p)\<rparr>))"

definition put_worker :: "nat \<Rightarrow> 't worker \<Rightarrow> 't pool \<Rightarrow> 't pool" where
  "put_worker i x p = p\<lparr>p_threads := (p_threads p)[i := x]\<rparr>"

text \<open>The \<open>notify_one\<close> of a submission wakes some waiting worker, here \<open>i\<close>, and does nothing if there is
  none; \<open>None\<close> if no submission is about to notify, or if \<open>i\<close> is not waiting while another is.\<close>

definition notify_one :: "nat \<Rightarrow> 't pool \<Rightarrow> 't pool option" where
  "notify_one i p =
     (if p_notifies p = 0 then None
      else let q = p\<lparr>p_notifies := p_notifies p - 1\<rparr> in
        if Waiting \<notin> set (p_threads p) then Some q
        else if i < length (p_threads p) \<and> p_threads p ! i = Waiting then Some (put_worker i Woken q)
        else None)"

text \<open>One evaluation of the predicate in \<open>waitForTask\<close>, under the mutex: \<open>None\<close> if the worker has to
  block, otherwise whether there is a task.\<close>

definition waitForTask :: "'t pool \<Rightarrow> bool option" where
  "waitForTask p = (if p_shutting_down p \<or> p_queue p \<noteq> [] then Some (p_queue p \<noteq> []) else None)"

definition pop_task :: "'t pool \<Rightarrow> 't option \<times> 't pool" where
  "pop_task p =
     (case p_queue p of
        [] \<Rightarrow> (None, p)
      | t # ts \<Rightarrow> (Some t, p\<lparr>p_queue := ts, p_started := p_started p @ [t]\<rparr>))"

text \<open>The rest of \<open>tryDequeueTask\<close> from a test of the predicate on, and the whole of it: \<open>None\<close> if
  the worker has to block, \<open>Some (None, _)\<close> for the answer false.\<close>

definition after_wait :: "'t pool \<Rightarrow> ('t option \<times> 't pool) option" where
  "after_wait p =
     (case waitForTask p of None \<Rightarrow> None | Some b \<Rightarrow> Some (if b then pop_task p else (None, p)))"

definition tryDequeueTask :: "'t pool \<Rightarrow> ('t option \<times> 't pool) option" where
  "tryDequeueTask p = (if p_queue p = [] then after_wait p else Some (pop_task p))"

text \<open>What \<open>runWorkerLoop\<close> does with the outcome: it blocks in the wait, leaves phase 1 or runs the
  task.\<close>

definition dequeued :: "nat \<Rightarrow> 't pool \<Rightarrow> ('t option \<times> 't pool) option \<Rightarrow> 't pool" where
  "dequeued i p r =
     (case r of
        None \<Rightarrow> put_worker i Blocking p
      | Some (None, p') \<Rightarrow> put_worker i Draining p'
      | Some (Some t, p') \<Rightarrow> put_worker i (Running t) p')"

text \<open>One worker's next step in \<open>runWorkerLoop\<close> and \<open>executeDrainPhase\<close>; \<open>None\<close> if it waits for a
  notification or for the mutex, or has ended.\<close>

definition worker_step :: "nat \<Rightarrow> 't pool \<Rightarrow> 't pool option" where
  "worker_step i p =
     (case p_threads p ! i of
        Loop_head \<Rightarrow> Some (put_worker i (if p_shutting_down p then Draining else Dequeuing) p)
      | Dequeuing \<Rightarrow> if mutex_free p then Some (dequeued i p (tryDequeueTask p)) else None
      | Blocking \<Rightarrow> Some (put_worker i Waiting p)
      | Waiting \<Rightarrow> None
      | Woken \<Rightarrow> if mutex_free p then Some (dequeued i p (after_wait p)) else None
      | Running t \<Rightarrow> Some (put_worker i Loop_head (p\<lparr>p_done := t # p_done p\<rparr>))
      | Draining \<Rightarrow>
          if mutex_free p then
            (case pop_task p of
               (None, p') \<Rightarrow> Some (put_worker i Exited p')
             | (Some t, p') \<Rightarrow> Some (put_worker i (Drain_running t) p'))
          else None
      | Drain_running t \<Rightarrow> Some (put_worker i Draining (p\<lparr>p_done := t # p_done p\<rparr>))
      | Exited \<Rightarrow> None)"

text \<open>The destructor stores the flag, without the mutex, then notifies, then joins.\<close>

definition begin_shutdown :: "'t pool \<Rightarrow> 't pool option" where
  "begin_shutdown p =
     (if p_destructor p = Not_begun then Some (p\<lparr>p_shutting_down := True, p_destructor := Flag_stored\<rparr>)
      else None)"

fun wake :: "'t worker \<Rightarrow> 't worker" where
  "wake Waiting = Woken"
| "wake x = x"

definition notify_all :: "'t pool \<Rightarrow> 't pool option" where
  "notify_all p =
     (if p_destructor p = Flag_stored
      then Some (p\<lparr>p_threads := map wake (p_threads p), p_destructor := Joining\<rparr>) else None)"

definition joined :: "'t pool \<Rightarrow> bool" where
  "joined p \<longleftrightarrow> (\<forall>x \<in> set (p_threads p). x = Exited)"

text \<open>A blocked thread may also wake up without a notification, as the standard allows; the
  relation \<open>driven_step\<close> is the pool on its own without such wake-ups: workers and the
  notifications of earlier submissions.\<close>

inductive pool_step :: "'t pool \<Rightarrow> 't pool \<Rightarrow> bool" where
  submit: "mutex_free p \<Longrightarrow> pool_enqueue f p = Inr p' \<Longrightarrow> pool_step p p'"
| notify: "notify_one i p = Some p' \<Longrightarrow> pool_step p p'"
| work: "i < length (p_threads p) \<Longrightarrow> worker_step i p = Some p' \<Longrightarrow> pool_step p p'"
| spurious: "i < length (p_threads p) \<Longrightarrow> p_threads p ! i = Waiting \<Longrightarrow> pool_step p (put_worker i Woken p)"
| shutdown: "begin_shutdown p = Some p' \<Longrightarrow> pool_step p p'"
| shutdown_notify: "notify_all p = Some p' \<Longrightarrow> pool_step p p'"

definition driven_step :: "'t pool \<Rightarrow> 't pool \<Rightarrow> bool" where
  "driven_step p p' \<longleftrightarrow>
     (\<exists>i < length (p_threads p). worker_step i p = Some p') \<or> (\<exists>i. notify_one i p = Some p')"

lemmas pool_op_defs = dequeued_def tryDequeueTask_def after_wait_def waitForTask_def pop_task_def

section \<open>Invariant\<close>

fun running :: "'t worker \<Rightarrow> 't list" where
  "running (Running t) = [t]"
| "running (Drain_running t) = [t]"
| "running _ = []"

fun in_drain :: "'t worker \<Rightarrow> bool" where
  "in_drain Draining = True"
| "in_drain (Drain_running t) = True"
| "in_drain Exited = True"
| "in_drain _ = False"

definition in_flight :: "'t pool \<Rightarrow> 't multiset" where
  "in_flight p = mset (concat (map running (p_threads p)))"

definition pool_inv :: "'t pool \<Rightarrow> bool" where
  "pool_inv p \<longleftrightarrow>
     p_accepted p = p_started p @ p_queue p \<and>
     mset (p_started p) = mset (p_done p) + in_flight p \<and>
     (\<forall>x \<in> set (p_threads p). in_drain x \<longrightarrow> p_shutting_down p) \<and>
     (Exited \<in> set (p_threads p) \<longrightarrow> p_queue p = [])"

lemma in_flight_set:
  assumes "i < length (p_threads p)"
  shows "in_flight (put_worker i x p) + mset (running (p_threads p ! i)) = in_flight p + mset (running x)"
proof -
  let ?ts = "p_threads p"
  have "in_flight p = mset (concat (map running (take i ?ts @ ?ts ! i # drop (Suc i) ?ts)))"
    unfolding in_flight_def using assms by (simp only: id_take_nth_drop [symmetric])
  then show ?thesis
    using assms by (simp add: in_flight_def put_worker_def upd_conv_take_nth_drop)
qed

lemma in_flight_fields [simp]:
  "in_flight (p\<lparr>p_queue := q\<rparr>) = in_flight p" "in_flight (p\<lparr>p_started := a\<rparr>) = in_flight p"
  "in_flight (p\<lparr>p_done := d\<rparr>) = in_flight p" "in_flight (p\<lparr>p_accepted := a\<rparr>) = in_flight p"
  "in_flight (p\<lparr>p_shutting_down := b\<rparr>) = in_flight p" "in_flight (p\<lparr>p_notifies := k\<rparr>) = in_flight p"
  "in_flight (p\<lparr>p_destructor := d'\<rparr>) = in_flight p"
  by (simp_all add: in_flight_def)

lemma put_worker_fields [simp]:
  "p_queue (put_worker i x p) = p_queue p" "p_started (put_worker i x p) = p_started p"
  "p_done (put_worker i x p) = p_done p" "p_accepted (put_worker i x p) = p_accepted p"
  "p_shutting_down (put_worker i x p) = p_shutting_down p"
  "p_notifies (put_worker i x p) = p_notifies p" "p_destructor (put_worker i x p) = p_destructor p"
  "p_threads (put_worker i x p) = (p_threads p)[i := x]"
  by (simp_all add: put_worker_def)

lemma put_worker_inv:
  assumes inv: "p_accepted p = p_started p @ p_queue p"
    and fl: "mset (p_started p) + mset (running (p_threads p ! i)) = mset (p_done p) + in_flight p + mset (running x)"
    and i: "i < length (p_threads p)"
    and dr: "\<forall>y \<in> set (p_threads p). in_drain y \<longrightarrow> p_shutting_down p" "in_drain x \<longrightarrow> p_shutting_down p"
    and ex: "Exited \<in> set (p_threads p) \<or> x = Exited \<longrightarrow> p_queue p = []"
  shows "pool_inv (put_worker i x p)"
proof -
  have "mset (p_started p) + mset (running (p_threads p ! i)) =
      mset (p_done p) + in_flight (put_worker i x p) + mset (running (p_threads p ! i))"
    unfolding fl add.assoc in_flight_set [OF i, of x] ..
  then have "mset (p_started p) = mset (p_done p) + in_flight (put_worker i x p)" by (rule add_right_imp_eq)
  moreover have "set ((p_threads p)[i := x]) \<subseteq> insert x (set (p_threads p))" by (rule set_update_subset_insert)
  ultimately show ?thesis using inv dr ex by (auto simp: pool_inv_def)
qed

lemma worker_step_inv:
  assumes inv: "pool_inv p" and i: "i < length (p_threads p)" and s: "worker_step i p = Some p'"
  shows "pool_inv p'"
proof -
  have d: "p_accepted p = p_started p @ p_queue p" "mset (p_started p) = mset (p_done p) + in_flight p"
    "\<forall>x \<in> set (p_threads p). in_drain x \<longrightarrow> p_shutting_down p" "Exited \<in> set (p_threads p) \<longrightarrow> p_queue p = []"
    using inv by (simp_all add: pool_inv_def)
  have sd: "in_drain (p_threads p ! i) \<longrightarrow> p_shutting_down p" using d(3) nth_mem [OF i] by blast
  show ?thesis
    using s d i sd
    by (cases "p_threads p ! i")
       (auto simp: worker_step_def pool_op_defs split: list.splits if_splits intro!: put_worker_inv)
qed

lemma wake_simps [simp]:
  "running (wake x) = running x" "in_drain (wake x) = in_drain x" "wake x = Exited \<longleftrightarrow> x = Exited"
  "Exited = wake x \<longleftrightarrow> x = Exited" "wake x = Blocking \<longleftrightarrow> x = Blocking" "Blocking = wake x \<longleftrightarrow> x = Blocking"
  "wake x \<noteq> Waiting" "Waiting \<noteq> wake x"
  by (cases x; simp)+

lemma woken_inv:
  "pool_inv p \<Longrightarrow> i < length (p_threads p) \<Longrightarrow> p_threads p ! i = Waiting \<Longrightarrow> pool_inv (put_worker i Woken p)"
  by (rule put_worker_inv) (simp_all add: pool_inv_def)

lemma pool_step_inv: "pool_step p p' \<Longrightarrow> pool_inv p \<Longrightarrow> pool_inv p'"
proof (induction rule: pool_step.induct)
  case (submit p f p')
  then show ?case
    by (auto simp: pool_enqueue_def pool_inv_def split: if_splits dest: bspec [of _ _ Exited])
next
  case (notify i p p')
  moreover have "pool_inv (p\<lparr>p_notifies := k\<rparr>)" for k using notify.prems by (simp add: pool_inv_def)
  ultimately show ?case
    by (auto simp: notify_one_def Let_def split: if_splits intro: woken_inv)
next
  case (work i p p')
  then show ?case by (blast intro: worker_step_inv)
next
  case (spurious i p)
  then show ?case by (simp add: woken_inv)
next
  case (shutdown p p')
  then show ?case by (auto simp: pool_inv_def begin_shutdown_def split: if_splits)
next
  case (shutdown_notify p p')
  then show ?case
    by (auto simp: pool_inv_def notify_all_def in_flight_def comp_def split: if_splits)
qed

lemma pool_reach_inv: "pool_step\<^sup>*\<^sup>* p p' \<Longrightarrow> pool_inv p \<Longrightarrow> pool_inv p'"
  by (induction rule: rtranclp_induct) (auto intro: pool_step_inv)

lemma worker_step_length: "worker_step i p = Some p' \<Longrightarrow> length (p_threads p') = length (p_threads p)"
  by (auto simp: worker_step_def pool_op_defs split: worker.splits list.splits option.splits if_splits)

lemma pool_length: "pool_step p p' \<Longrightarrow> length (p_threads p') = length (p_threads p)"
  by (auto elim!: pool_step.cases dest: worker_step_length
      simp: pool_enqueue_def begin_shutdown_def notify_all_def notify_one_def Let_def split: if_splits)

lemma pool_reach_length: "pool_step\<^sup>*\<^sup>* p p' \<Longrightarrow> length (p_threads p') = length (p_threads p)"
  by (induction rule: rtranclp_induct) (auto dest: pool_length)

section \<open>Notifications\<close>

text \<open>No task is left to sleeping workers: whenever a worker waits, the tasks in the queue are
  covered by workers that will look at the queue again and by notifications still to come. A
  worker decides to block only on an empty queue, and keeps the mutex until it waits.\<close>

fun awake :: "'t worker \<Rightarrow> nat" where
  "awake Blocking = 0"
| "awake Waiting = 0"
| "awake Exited = 0"
| "awake _ = 1"

definition awake_count :: "'t pool \<Rightarrow> nat" where
  "awake_count p = sum_list (map awake (p_threads p))"

definition wait_inv :: "'t pool \<Rightarrow> bool" where
  "wait_inv p \<longleftrightarrow>
     (Blocking \<in> set (p_threads p) \<longrightarrow> p_queue p = []) \<and>
     (Waiting \<in> set (p_threads p) \<longrightarrow> length (p_queue p) \<le> p_notifies p + awake_count p)"

lemma sum_list_update_nat:
  fixes f :: "'a \<Rightarrow> nat"
  assumes "i < length xs"
  shows "sum_list (map f (xs[i := x])) + f (xs ! i) = sum_list (map f xs) + f x"
  using assms by (induction xs arbitrary: i) (auto split: nat.splits)

lemma put_worker_wait:
  assumes i: "i < length (p_threads p)"
    and b: "Blocking \<in> set (p_threads p) \<or> x = Blocking \<longrightarrow> p_queue p = []"
    and w: "Waiting \<in> set (p_threads p) \<or> x = Waiting \<longrightarrow>
      p_queue p = [] \<or> length (p_queue p) + awake (p_threads p ! i) \<le> p_notifies p + awake_count p + awake x"
  shows "wait_inv (put_worker i x p)"
proof -
  have "set ((p_threads p)[i := x]) \<subseteq> insert x (set (p_threads p))" by (rule set_update_subset_insert)
  moreover have "awake_count (put_worker i x p) + awake (p_threads p ! i) = awake_count p + awake x"
    using sum_list_update_nat [OF i, of awake x] by (simp add: awake_count_def)
  ultimately show ?thesis using b w by (auto simp: wait_inv_def)
qed

lemma awake_count_fields [simp]:
  "awake_count (p\<lparr>p_queue := q\<rparr>) = awake_count p" "awake_count (p\<lparr>p_started := a\<rparr>) = awake_count p"
  "awake_count (p\<lparr>p_done := d\<rparr>) = awake_count p" "awake_count (p\<lparr>p_accepted := a\<rparr>) = awake_count p"
  "awake_count (p\<lparr>p_notifies := k\<rparr>) = awake_count p"
  by (simp_all add: awake_count_def)

lemma worker_step_wait:
  assumes inv: "wait_inv p" and i: "i < length (p_threads p)" and s: "worker_step i p = Some p'"
  shows "wait_inv p'"
proof -
  have b: "Blocking \<in> set (p_threads p) \<longrightarrow> p_queue p = []"
    and w: "Waiting \<in> set (p_threads p) \<longrightarrow> length (p_queue p) \<le> p_notifies p + awake_count p"
    using inv by (simp_all add: wait_inv_def)
  have "p_threads p ! i = Blocking \<Longrightarrow> p_queue p = []" using b nth_mem [OF i] by auto
  then show ?thesis
    using s i b w
    by (cases "p_threads p ! i")
       (auto simp: worker_step_def pool_op_defs mutex_free_def split: list.splits if_splits intro!: put_worker_wait)
qed

lemma woken_wait:
  "wait_inv p \<Longrightarrow> i < length (p_threads p) \<Longrightarrow> p_threads p ! i = Waiting \<Longrightarrow> wait_inv (put_worker i Woken p)"
  by (rule put_worker_wait) (auto simp: wait_inv_def)

lemma notify_one_wait:
  assumes "wait_inv p" and n: "notify_one i p = Some p'"
  shows "wait_inv p'"
proof (cases "Waiting \<in> set (p_threads p)")
  case True
  then have "p' = put_worker i Woken (p\<lparr>p_notifies := p_notifies p - 1\<rparr>)" "i < length (p_threads p)"
    "p_threads p ! i = Waiting" "0 < p_notifies p"
    using n by (auto simp: notify_one_def Let_def split: if_splits)
  moreover from this have "wait_inv (put_worker i Woken (p\<lparr>p_notifies := p_notifies p - 1\<rparr>))"
    using assms(1) by (intro put_worker_wait) (auto simp: wait_inv_def)
  ultimately show ?thesis by simp
next
  case False
  then show ?thesis using assms by (auto simp: notify_one_def wait_inv_def Let_def split: if_splits)
qed

lemma pool_step_wait: "pool_step p p' \<Longrightarrow> wait_inv p \<Longrightarrow> wait_inv p'"
proof (induction rule: pool_step.induct)
  case (submit p f p')
  then show ?case by (auto simp: pool_enqueue_def wait_inv_def mutex_free_def split: if_splits)
next
  case (notify i p p')
  then show ?case by (blast intro: notify_one_wait)
next
  case (work i p p')
  then show ?case by (blast intro: worker_step_wait)
next
  case (spurious i p)
  then show ?case by (simp add: woken_wait)
next
  case (shutdown p p')
  then show ?case by (auto simp: wait_inv_def begin_shutdown_def awake_count_def split: if_splits)
next
  case (shutdown_notify p p')
  then show ?case by (auto simp: wait_inv_def notify_all_def split: if_splits)
qed

section \<open>Progress\<close>

text \<open>Every step of the pool on its own uses up part of a bound: at most three per queued task, three
  per notification still to come and four per worker.\<close>

fun weight :: "'t worker \<Rightarrow> nat" where
  "weight Exited = 0"
| "weight Waiting = 0"
| "weight Blocking = 1"
| "weight Draining = 1"
| "weight Dequeuing = 2"
| "weight Woken = 2"
| "weight Loop_head = 3"
| "weight (Drain_running t) = 3"
| "weight (Running t) = 4"

definition work_bound :: "'t pool \<Rightarrow> nat" where
  "work_bound p = 3 * length (p_queue p) + 3 * p_notifies p + sum_list (map weight (p_threads p))"

lemma put_worker_bound:
  "i < length (p_threads p) \<Longrightarrow>
    work_bound (put_worker i x p) + weight (p_threads p ! i) = work_bound p + weight x"
  using sum_list_update_nat [of i "p_threads p" weight x] by (simp add: work_bound_def)

lemma put_worker_decreases:
  assumes "i < length (p_threads p)" "p_threads q = p_threads p"
    and "3 * length (p_queue q) + 3 * p_notifies q + weight x <
         3 * length (p_queue p) + 3 * p_notifies p + weight (p_threads p ! i)"
  shows "work_bound (put_worker i x q) < work_bound p"
  using put_worker_bound [of i q x] assms by (simp add: work_bound_def)

lemma worker_step_bound:
  assumes i: "i < length (p_threads p)" and s: "worker_step i p = Some p'"
  shows "work_bound p' < work_bound p"
  using s i
  by (cases "p_threads p ! i")
     (auto simp: worker_step_def pool_op_defs split: list.splits if_splits intro!: put_worker_decreases)

lemma notify_one_bound: "notify_one i p = Some p' \<Longrightarrow> work_bound p' < work_bound p"
  by (auto simp: notify_one_def Let_def split: if_splits intro!: put_worker_decreases)
     (simp add: work_bound_def)

lemma driven_step_bound: "driven_step p p' \<Longrightarrow> work_bound p' < work_bound p"
  by (auto simp: driven_step_def intro: worker_step_bound notify_one_bound)

lemma driven_pool_step: "driven_step p p' \<Longrightarrow> pool_step p p'"
  by (auto simp: driven_step_def intro: pool_step.work pool_step.notify)

lemma relpow_bound:
  fixes m :: "'a \<Rightarrow> nat"
  assumes "\<And>x y. R x y \<Longrightarrow> P x \<Longrightarrow> P y \<and> m y < m x"
  shows "(R ^^ n) x y \<Longrightarrow> P x \<Longrightarrow> P y \<and> n + m y \<le> m x"
proof (induction n arbitrary: y)
  case (Suc n)
  then obtain z where "(R ^^ n) x z" "R z y" by (auto simp: relpowp.simps)
  then show ?case using Suc.IH [of z] Suc.prems assms [of z y] by auto
qed simp

text \<open>Who can move: a worker is stopped only by a missing notification, by the mutex or by its end.\<close>

lemma worker_enabled:
  "worker_step i p = None \<longleftrightarrow> p_threads p ! i \<in> {Waiting, Exited} \<or>
     p_threads p ! i \<in> {Dequeuing, Woken, Draining} \<and> \<not> mutex_free p"
  by (cases "p_threads p ! i") (auto simp: worker_step_def pop_task_def split: list.splits)

lemma stuck_workers:
  assumes "\<nexists>q. driven_step p q" and "x \<in> set (p_threads p)"
  shows "x = Waiting \<or> x = Exited"
proof -
  have none: "worker_step i p = None" if "i < length (p_threads p)" for i
    using assms(1) that by (cases "worker_step i p") (auto simp: driven_step_def)
  then have "mutex_free p" by (fastforce simp: mutex_free_def in_set_conv_nth worker_enabled)
  then show ?thesis using assms(2) none by (fastforce simp: in_set_conv_nth worker_enabled)
qed

lemma stuck_notifies:
  assumes "\<nexists>q. driven_step p q"
  shows "p_notifies p = 0"
proof (rule ccontr)
  assume n: "p_notifies p \<noteq> 0"
  have "\<exists>i q. notify_one i p = Some q"
  proof (cases "Waiting \<in> set (p_threads p)")
    case True
    then obtain i where "i < length (p_threads p)" "p_threads p ! i = Waiting" by (auto simp: in_set_conv_nth)
    then show ?thesis using n by (intro exI [of _ i]) (auto simp: notify_one_def Let_def)
  qed (use n in \<open>simp add: notify_one_def Let_def\<close>)
  then show False using assms by (auto simp: driven_step_def)
qed

lemma stuck_idle:
  assumes inv: "pool_inv p" "wait_inv p" and ne: "p_threads p \<noteq> []" and stuck: "\<nexists>q. driven_step p q"
  shows "p_queue p = [] \<and> in_flight p = {#}"
proof -
  note w = stuck_workers [OF stuck]
  have "awake x = 0" "running x = []" if "x \<in> set (p_threads p)" for x using w [OF that] by auto
  then have "awake_count p = 0" and f: "in_flight p = {#}"
    by (simp_all add: awake_count_def in_flight_def)
  moreover obtain x where "x \<in> set (p_threads p)" using ne by (cases "p_threads p") auto
  ultimately show ?thesis
    using w [of x] inv stuck_notifies [OF stuck] by (auto simp: pool_inv_def wait_inv_def)
qed

text \<open>When the flag is set and nobody waits or is about to, nobody will: the pool only runs down.\<close>

definition leaving :: "'t pool \<Rightarrow> bool" where
  "leaving p \<longleftrightarrow> p_shutting_down p \<and> p_destructor p = Joining \<and>
     Waiting \<notin> set (p_threads p) \<and> Blocking \<notin> set (p_threads p)"

lemma put_worker_leaving:
  "leaving p \<Longrightarrow> x \<noteq> Waiting \<Longrightarrow> x \<noteq> Blocking \<Longrightarrow> leaving (put_worker i x p)"
  using set_update_subset_insert [of "p_threads p" i x] by (auto simp: leaving_def)

lemma leaving_fields [simp]:
  "leaving (p\<lparr>p_queue := q\<rparr>) = leaving p" "leaving (p\<lparr>p_started := a\<rparr>) = leaving p"
  "leaving (p\<lparr>p_done := d\<rparr>) = leaving p" "leaving (p\<lparr>p_notifies := k\<rparr>) = leaving p"
  by (simp_all add: leaving_def)

lemma worker_step_leaving:
  assumes "leaving p" "i < length (p_threads p)" "worker_step i p = Some p'"
  shows "leaving p'"
proof -
  have "p_shutting_down p" "p_threads p ! i \<noteq> Blocking"
    using assms(1) nth_mem [OF assms(2)] by (auto simp: leaving_def)
  then show ?thesis
    using assms
    by (cases "p_threads p ! i")
       (auto simp: worker_step_def pool_op_defs split: list.splits if_splits intro!: put_worker_leaving)
qed

lemma leaving_step:
  assumes "pool_step p p'" and l: "leaving p"
  shows "leaving p' \<and> driven_step p p'"
  using assms
proof (induction rule: pool_step.induct)
  case (notify i p p')
  then have "leaving p'" by (auto simp: notify_one_def leaving_def Let_def split: if_splits)
  then show ?case using notify by (auto simp: driven_step_def)
next
  case (work i p p')
  then show ?case by (auto simp: driven_step_def intro: worker_step_leaving)
qed (auto simp: leaving_def pool_enqueue_def begin_shutdown_def notify_all_def dest: nth_mem)

lemma ThreadPool_inv: "pool_inv (ThreadPool n)" "wait_inv (ThreadPool n)"
  by (auto simp: pool_inv_def wait_inv_def ThreadPool_def in_flight_def)

lemma pool_reach_wait: "pool_step\<^sup>*\<^sup>* p p' \<Longrightarrow> wait_inv p \<Longrightarrow> wait_inv p'"
  by (induction rule: rtranclp_induct) (auto intro: pool_step_wait)

lemma weight_le: "sum_list (map weight xs) \<le> 4 * length xs"
proof (induction xs)
  case (Cons x xs)
  then show ?case by (cases x) simp_all
qed simp

lemma work_bound_le: "work_bound p \<le> 3 * length (p_queue p) + 3 * p_notifies p + 4 * length (p_threads p)"
  using weight_le [of "p_threads p"] by (simp add: work_bound_def)

lemma worker_step_accepted: "worker_step i p = Some p' \<Longrightarrow> p_accepted p' = p_accepted p"
  by (cases "p_threads p ! i") (auto simp: worker_step_def pool_op_defs split: list.splits if_splits)

lemma notify_one_accepted: "notify_one i p = Some p' \<Longrightarrow> p_accepted p' = p_accepted p"
  by (auto simp: notify_one_def Let_def split: if_splits)

lemma driven_step_accepted: "driven_step p p' \<Longrightarrow> p_accepted p' = p_accepted p"
  by (auto simp: driven_step_def dest: worker_step_accepted notify_one_accepted)

lemma driven_step_keeps:
  "driven_step p p' \<Longrightarrow> p_accepted p = as \<Longrightarrow> p_accepted p' = as \<and> work_bound p' < work_bound p"
  by (simp add: driven_step_accepted driven_step_bound)

lemma leaving_bound: "pool_step p p' \<Longrightarrow> leaving p \<Longrightarrow> leaving p' \<and> work_bound p' < work_bound p"
  using leaving_step driven_step_bound by blast

text \<open>A pool without tasks, by the stage of its destructor and its workers; and the run of its only
  worker and the destructor in which the notification is missed.\<close>

definition idle_pool :: "destructor \<Rightarrow> 't worker list \<Rightarrow> 't pool" where
  "idle_pool d ws = \<lparr>p_threads = ws, p_queue = [], p_shutting_down = (d \<noteq> Not_begun),
     p_notifies = 0, p_destructor = d, p_accepted = [], p_started = [], p_done = []\<rparr>"

lemma idle_pool_worker:
  "worker_step 0 (idle_pool d [x]) = Some (idle_pool d [y]) \<Longrightarrow> pool_step (idle_pool d [x]) (idle_pool d [y])"
  by (rule pool_step.work [of 0]) (simp_all add: idle_pool_def)

lemma idle_pool_missed: "pool_step\<^sup>*\<^sup>* (ThreadPool 1) (idle_pool Joining [Waiting] :: 't pool)"
proof -
  have w: "pool_step (idle_pool Not_begun [Loop_head]) (idle_pool Not_begun [Dequeuing])"
    "pool_step (idle_pool Not_begun [Dequeuing]) (idle_pool Not_begun [Blocking])"
    "pool_step (idle_pool Joining [Blocking]) (idle_pool Joining [Waiting])"
    by (rule idle_pool_worker;
        simp add: worker_step_def pool_op_defs mutex_free_def idle_pool_def put_worker_def)+
  have d: "pool_step (idle_pool Not_begun [Blocking]) (idle_pool Flag_stored [Blocking])"
    by (rule pool_step.shutdown) (simp add: begin_shutdown_def idle_pool_def)
  have n: "pool_step (idle_pool Flag_stored [Blocking]) (idle_pool Joining [Blocking])"
    by (rule pool_step.shutdown_notify) (simp add: notify_all_def idle_pool_def)
  note step = converse_rtranclp_into_rtranclp [of pool_step]
  have "ThreadPool 1 = (idle_pool Not_begun [Loop_head] :: 't pool)" by (simp add: ThreadPool_def idle_pool_def)
  moreover have "pool_step\<^sup>*\<^sup>* (idle_pool Not_begun [Loop_head]) (idle_pool Joining [Waiting] :: 't pool)"
    by (rule step [OF w(1)] step [OF w(2)] step [OF d] step [OF n] r_into_rtranclp [of pool_step, OF w(3)])+
  ultimately show ?thesis by simp
qed

lemma idle_pool_ends:
  "pool_step (idle_pool Joining [Woken]) (idle_pool Joining [Draining])"
  "pool_step (idle_pool Joining [Draining]) (idle_pool Joining [Exited])"
  by (rule idle_pool_worker;
      simp add: worker_step_def pool_op_defs mutex_free_def idle_pool_def put_worker_def)+

lemma idle_pool_ended: "\<not> pool_step (idle_pool Joining [Exited]) q"
proof
  assume "pool_step (idle_pool Joining [Exited]) q"
  then show False
    by cases (simp_all add: idle_pool_def pool_enqueue_def notify_one_def worker_step_def begin_shutdown_def
        notify_all_def)
qed

section \<open>Properties\<close>

text \<open>C6. The pool neither loses nor repeats a task. In every state reached from a new pool by
  submissions, worker steps and shutdown, the tasks started so far followed by the queue
  are exactly the accepted tasks in their order, and the finished ones are among them; once
  the destructor's joins have come back, every accepted task has been executed exactly
  once.\<close>

theorem pool_runs_accepted:
  assumes "pool_step\<^sup>*\<^sup>* (ThreadPool n) p"
  shows "p_accepted p = p_started p @ p_queue p \<and> mset (p_done p) \<subseteq># mset (p_started p) \<and>
         (0 < n \<and> joined p \<longrightarrow> mset (p_done p) = mset (p_accepted p))"
proof -
  have inv: "pool_inv p" using assms ThreadPool_inv(1) by (rule pool_reach_inv)
  have "mset (p_done p) = mset (p_accepted p)" if n: "0 < n" and j: "joined p"
  proof -
    have "length (p_threads p) = n" using pool_reach_length [OF assms] by (simp add: ThreadPool_def)
    with n obtain x where "x \<in> set (p_threads p)" by (cases "p_threads p") auto
    then have "Exited \<in> set (p_threads p)" using j by (auto simp: joined_def)
    then have "p_queue p = []" using inv by (simp add: pool_inv_def)
    moreover have "in_flight p = {#}" using j by (auto simp: joined_def in_flight_def)
    ultimately show ?thesis using inv by (simp add: pool_inv_def)
  qed
  then show ?thesis using inv by (auto simp: pool_inv_def)
qed

theorem pool_runs_accepted_witness:
  "\<exists>p. pool_step\<^sup>*\<^sup>* (ThreadPool 1 :: nat pool) p \<and> p_accepted p = [7] \<and> p_started p @ p_queue p = [7]"
proof -
  obtain p where p: "pool_enqueue 7 (ThreadPool 1 :: nat pool) = Inr p" "p_accepted p = [7]"
    by (simp add: pool_enqueue_def ThreadPool_def)
  moreover have "mutex_free (ThreadPool 1 :: nat pool)" by (simp add: mutex_free_def ThreadPool_def)
  ultimately have "pool_step\<^sup>*\<^sup>* (ThreadPool 1 :: nat pool) p" by (blast intro: pool_step.submit)
  then show ?thesis using pool_runs_accepted [of 1 p] p by auto
qed

text \<open>C11. The destructor returns if no notification is missed. Suppose that the flag is set and
  that no worker is between the test of its predicate and the wait when \<open>notify_all\<close> runs. Then
  every schedule of the pool takes at most three steps per queued task, three per submission
  that has not notified yet and four per worker, wake-ups without notification included, and
  when nothing can move any more all workers have ended, so that the joins come back.\<close>

theorem pool_shutdown_terminates:
  assumes "p_shutting_down p" and "Blocking \<notin> set (p_threads p)"
    and "notify_all p = Some q" and "(pool_step ^^ n) q p'"
  shows "n \<le> 3 * length (p_queue p) + 3 * p_notifies p + 4 * length (p_threads p) \<and>
         ((\<nexists>r. pool_step p' r) \<longrightarrow> joined p')"
proof -
  have q: "q = p\<lparr>p_threads := map wake (p_threads p), p_destructor := Joining\<rparr>"
    using assms(3) by (simp add: notify_all_def split: if_splits)
  have "leaving q" using assms(1,2) by (auto simp: q leaving_def)
  then have l: "leaving p'" "n + work_bound p' \<le> work_bound q"
    using relpow_bound [of pool_step leaving work_bound n q p', OF leaving_bound assms(4)] by simp_all
  have "x = Exited" if stuck: "\<nexists>r. pool_step p' r" and x: "x \<in> set (p_threads p')" for x
    using stuck_workers [of p' x] stuck x l(1) by (auto simp: leaving_def dest: driven_pool_step)
  then show ?thesis using l(2) work_bound_le [of q] by (auto simp: joined_def q)
qed

theorem pool_shutdown_terminates_witness:
  "\<exists>q r. notify_all (idle_pool Flag_stored [Waiting]) = Some q \<and> (pool_step ^^ 2) q r \<and>
     2 \<le> 3 * length (p_queue q) + 3 * p_notifies q + 4 * length (p_threads q) \<and> joined r"
proof (intro exI conjI)
  let ?p = "idle_pool Flag_stored [Waiting]" and ?q = "idle_pool Joining [Woken]"
    and ?r = "idle_pool Joining [Exited]"
  show q: "notify_all ?p = Some ?q" by (simp add: notify_all_def idle_pool_def)
  show r: "(pool_step ^^ 2) ?q ?r" using idle_pool_ends by (auto simp: numeral_2_eq_2)
  have "p_shutting_down ?p" "Blocking \<notin> set (p_threads ?p)" by (simp_all add: idle_pool_def)
  note ok = pool_shutdown_terminates [OF this q r]
  show "2 \<le> 3 * length (p_queue ?q) + 3 * p_notifies ?q + 4 * length (p_threads ?q)"
    using ok [THEN conjunct1] by (simp add: idle_pool_def)
  show "joined ?r" using ok [THEN conjunct2] idle_pool_ended by blast
qed

text \<open>C12. The destructor can hang. A worker tests the predicate under the mutex, but the destructor
  stores the flag and notifies without it: with a single worker there is a run in which both
  happen between the worker's test and its wait. The notification is lost, and in the state
  reached the destructor is joining, the worker has not ended, and the only step left to the
  whole pool is a wake-up of that worker without any notification.\<close>

theorem pool_shutdown_can_hang:
  "\<exists>p. pool_step\<^sup>*\<^sup>* (ThreadPool 1) p \<and> p_destructor p = Joining \<and> \<not> joined p \<and>
       {q. pool_step p q} = {put_worker 0 Woken p}"
proof (intro exI conjI)
  let ?p = "idle_pool Joining [Waiting]"
  show "pool_step\<^sup>*\<^sup>* (ThreadPool 1) ?p" by (rule idle_pool_missed)
  show "p_destructor ?p = Joining" "\<not> joined ?p" by (simp_all add: idle_pool_def joined_def)
  have "pool_step ?p (put_worker 0 Woken ?p)" by (rule pool_step.spurious) (simp_all add: idle_pool_def)
  moreover have "q = put_worker 0 Woken ?p" if "pool_step ?p q" for q
    using that
    by cases (auto simp: idle_pool_def pool_enqueue_def notify_one_def worker_step_def begin_shutdown_def
        notify_all_def)
  ultimately show "{q. pool_step ?p q} = {put_worker 0 Woken ?p}" by blast
qed

text \<open>C10. Accepted tasks are executed without further help. From every state of a pool with workers,
  reached by any interleaving of submissions, notifications and worker steps, the workers and
  the outstanding notifications alone take boundedly many steps, and when none of them can move
  every accepted task has been executed: no worker sleeps on a task because its notification
  went to another worker or came before its wait.\<close>

theorem pool_work_gets_done:
  assumes "pool_step\<^sup>*\<^sup>* (ThreadPool k) p" and "0 < k" and "(driven_step ^^ n) p p'"
  shows "n \<le> 3 * length (p_queue p) + 3 * p_notifies p + 4 * length (p_threads p) \<and>
         ((\<nexists>r. driven_step p' r) \<longrightarrow> mset (p_done p') = mset (p_accepted p))"
proof -
  have "n + work_bound p' \<le> work_bound p" and a: "p_accepted p' = p_accepted p"
    using relpow_bound [of driven_step "\<lambda>r. p_accepted r = p_accepted p" work_bound n p p', OF driven_step_keeps assms(3)]
    by simp_all
  then have "n \<le> 3 * length (p_queue p) + 3 * p_notifies p + 4 * length (p_threads p)"
    using work_bound_le [of p] by simp
  moreover have "pool_step\<^sup>*\<^sup>* p p'"
    using relpowp_imp_rtranclp [OF assms(3)] by (rule rtranclp_mono [THEN predicate2D, rotated]) (auto dest: driven_pool_step)
  then have r: "pool_step\<^sup>*\<^sup>* (ThreadPool k) p'" using assms(1) by (rule rtranclp_trans [rotated])
  then have inv: "pool_inv p'" "wait_inv p'" and "p_threads p' \<noteq> []"
    using pool_reach_inv [OF r] pool_reach_wait [OF r] pool_reach_length [OF r] ThreadPool_inv assms(2)
    by (auto simp: ThreadPool_def)
  then have "mset (p_done p') = mset (p_accepted p)" if "\<nexists>r. driven_step p' r"
    using stuck_idle [OF inv _ that] inv(1) a by (auto simp: pool_inv_def)
  ultimately show ?thesis by blast
qed

theorem pool_work_gets_done_witness:
  "\<exists>p r. pool_step\<^sup>*\<^sup>* (ThreadPool 1 :: nat pool) p \<and> p_accepted p = [7] \<and> (driven_step ^^ 1) p r \<and>
     1 \<le> 3 * length (p_queue p) + 3 * p_notifies p + 4 * length (p_threads p)"
proof -
  obtain p where p: "pool_enqueue 7 (ThreadPool 1 :: nat pool) = Inr p" "p_accepted p = [7]"
      "p_threads p = [Loop_head]" "\<not> p_shutting_down p"
    by (simp add: pool_enqueue_def ThreadPool_def)
  moreover have "mutex_free (ThreadPool 1 :: nat pool)" by (simp add: mutex_free_def ThreadPool_def)
  ultimately have r: "pool_step\<^sup>*\<^sup>* (ThreadPool 1 :: nat pool) p" by (blast intro: pool_step.submit)
  have "driven_step p (put_worker 0 Dequeuing p)" using p by (auto simp: driven_step_def worker_step_def)
  then have d: "(driven_step ^^ 1) p (put_worker 0 Dequeuing p)" by (simp only: relpowp_1)
  show ?thesis using pool_work_gets_done [OF r _ d] r d p(2) by auto
qed

end
