(* ===== verification/Transport_State.thy ===== *)
theory Transport_State
  imports Mpsc_Ring Thread_Pool
begin

text \<open>
  The state of the shared-memory transport, \<open>src/ub_comm_queue/UBShmTransport.h\<close>: the billboard
  through which the nodes find each other's rings, the members of a \<open>UBShmTransport\<close>, and what
  they share. An operation takes a transport and the shared memory and returns both; the
  rings it touches are those of \<open>Mpsc_Ring\<close>, run without interference. A pointer is its
  address, 0 the null pointer. Also here: the constructor, the mapping of node ids, the
  caches of remote rings and the two system callbacks.
\<close>

section \<open>Constants\<close>

definition MAX_PRIORITY_LEVELS :: nat where "MAX_PRIORITY_LEVELS = 8"
definition MAX_NODES_LIMIT :: nat where "MAX_NODES_LIMIT = 16"
definition LOCK_RING_PRIORITY :: nat where "LOCK_RING_PRIORITY = 0"
definition LOCK_RING_CAPACITY :: u32 where "LOCK_RING_CAPACITY = 4096"
definition LOCK_RING_MSG_SIZE :: u32 where "LOCK_RING_MSG_SIZE = 128"
definition MSG_TYPE_DIST_LOCK :: u8 where "MSG_TYPE_DIST_LOCK = 255"
definition MSG_TYPE_SYS_PEER_EXIT :: u8 where "MSG_TYPE_SYS_PEER_EXIT = 254"
definition MSG_TYPE_SYS_FLOW_CONFIG_UPDATE :: u8 where "MSG_TYPE_SYS_FLOW_CONFIG_UPDATE = 253"
definition WORKER_POOL_MIN_SIZE :: nat where "WORKER_POOL_MIN_SIZE = 4"

lemmas transport_consts =
  MAX_PRIORITY_LEVELS_def MAX_NODES_LIMIT_def LOCK_RING_PRIORITY_def LOCK_RING_CAPACITY_def
  LOCK_RING_MSG_SIZE_def MSG_TYPE_DIST_LOCK_def MSG_TYPE_SYS_PEER_EXIT_def
  MSG_TYPE_SYS_FLOW_CONFIG_UPDATE_def

definition DEFAULT_HEARTBEAT_INTERVAL_MS :: u32 where "DEFAULT_HEARTBEAT_INTERVAL_MS = 100"
definition DEFAULT_HEARTBEAT_CHECK_INTERVAL_MS :: u32 where "DEFAULT_HEARTBEAT_CHECK_INTERVAL_MS = 100"
definition DEFAULT_HEARTBEAT_TIMEOUT_MS :: u32 where "DEFAULT_HEARTBEAT_TIMEOUT_MS = 1000"
definition US_PER_MS :: u64 where "US_PER_MS = 1000"

lemmas heartbeat_consts =
  DEFAULT_HEARTBEAT_INTERVAL_MS_def DEFAULT_HEARTBEAT_CHECK_INTERVAL_MS_def
  DEFAULT_HEARTBEAT_TIMEOUT_MS_def US_PER_MS_def

text \<open>Further Linux error numbers, negated, and the sizes of two structures.\<close>

definition EPERM :: int where "EPERM = - 1"
definition ENOENT :: int where "ENOENT = - 2"
definition ENOMEM :: int where "ENOMEM = - 12"
definition EEXIST :: int where "EEXIST = - 17"
definition EPIPE :: int where "EPIPE = - 32"
definition EOPNOTSUPP :: int where "EOPNOTSUPP = - 95"

lemmas error_codes = comm_codes EPERM_def ENOENT_def ENOMEM_def EEXIST_def EPIPE_def EOPNOTSUPP_def

definition UINT64_MAX :: u64 where "UINT64_MAX = - 1"
definition SIZEOF_BILLBOARD :: u64 where "SIZEOF_BILLBOARD = 2048"
definition SIZEOF_MESSAGE_T :: u32 where "SIZEOF_MESSAGE_T = 24"
definition SIZEOF_FLOW_CONFIG :: u32 where "SIZEOF_FLOW_CONFIG = 16"

section \<open>Configuration\<close>

text \<open>A pointer to an array is \<open>None\<close> or the elements at its indices.\<close>

record ub_shm_area_t =
  area_size :: u64
  area_ptr :: u64

record ub_ring_region_info_t =
  region :: ub_shm_area_t
  region_node_id :: u8

record ub_ring_region_map_t =
  map_entries :: "(nat \<Rightarrow> ub_ring_region_info_t) option"
  map_count :: u8

record ub_ring_desc_t =
  ring_capacity :: u32
  desc_max_msg_size :: u32
  desc_priority :: u8

record ub_comm_conf_t =
  conf_cpu_id :: int
  max_nodes :: u8
  current_node_id :: u8
  num_rings :: u8
  ring_descs :: "(nat \<Rightarrow> ub_ring_desc_t) option"

record message_t =
  m_header :: message_header_t
  m_body :: "(nat \<Rightarrow> u8) option"

section \<open>Shared memory\<close>

record node_board_info =
  nb_initialized :: bool
  nb_ring_offsets :: "u64 list"
  nb_consumer_heartbeat_seq :: u64
  nb_heartbeat_interval_ms :: u32
  nb_cache_probe_pad :: u64

text \<open>The billboard, the rings by address, the bytes of memory before a ring is built there, and
  the clock.\<close>

record shared =
  sh_board :: "node_board_info list"
  sh_rings :: "u64 \<rightharpoonup> mpsc"
  sh_bytes :: "u64 \<Rightarrow> u8"
  sh_now_us :: u64

definition upd_node :: "nat \<Rightarrow> (node_board_info \<Rightarrow> node_board_info) \<Rightarrow> shared \<Rightarrow> shared" where
  "upd_node idx f m = m\<lparr>sh_board := (sh_board m)[idx := f (sh_board m ! idx)]\<rparr>"

text \<open>The dummy writes that refresh the cache lines of a node's entry: they leave its meaning
  alone.\<close>

definition force_refresh_whole_struct :: "nat \<Rightarrow> shared \<Rightarrow> shared" where
  "force_refresh_whole_struct idx m =
     upd_node idx (\<lambda>n. (if nb_initialized n then n\<lparr>nb_initialized := True\<rparr> else n)\<lparr>nb_cache_probe_pad := 0\<rparr>) m"

section \<open>The transport\<close>

datatype ub_func_type_t = UB_FUNC_SYNC | UB_FUNC_ASYNC

text \<open>Callback functions: none, the two of the transport itself, and the application's.\<close>

datatype callback = No_callback | On_peer_exit | On_flow_config_update | User_callback nat

record cb_info_t =
  cb_func :: callback
  cb_ctx :: u64
  cb_type :: ub_func_type_t

record task =
  task_func :: callback
  task_ctx :: u64
  task_header :: message_header_t
  task_body :: "u8 list"

record ring_cache =
  rc_initialized :: bool
  rc_raw_ptr :: u64
  rc_mask :: u64
  rc_stride :: u64
  rc_max_size :: u64
  rc_shadow_head :: u64
  rc_threshold :: u32
  rc_threshold_version :: u64

definition empty_cache :: ring_cache where
  "empty_cache = \<lparr>rc_initialized = False, rc_raw_ptr = 0, rc_mask = 0, rc_stride = 0, rc_max_size = 0,
     rc_shadow_head = 0, rc_threshold = 0, rc_threshold_version = 0\<rparr>"

text \<open>The members of the class. \<open>t_consumer\<close> is the dispatcher thread's private table of half-written
  entries; \<open>t_delivered\<close> is a ghost: the invocations of application callbacks, in order.\<close>

record transport =
  t_init_complete :: bool
  t_conf :: ub_comm_conf_t
  t_ring_descs_storage :: "ub_ring_desc_t list"
  t_init_region_ptr :: u64
  t_ring_region_ptr :: u64
  t_num_threads :: nat
  t_callbacks :: "u8 \<Rightarrow> cb_info_t"
  t_worker_pool :: "task pool option"
  t_node_id_to_idx :: "nat \<rightharpoonup> nat"
  t_idx_to_node_id :: "nat list"
  t_region_bases :: "u64 list"
  t_region_sizes :: "u64 list"
  t_local_rings :: "u64 list"
  t_local_active_priorities :: "nat list"
  t_remote_lookup_table :: "u64 list list"
  t_ring_caches :: "ring_cache list list"
  t_cpu_id :: int
  t_stop_flag :: bool
  t_reliability_stop_flag :: bool
  t_peer_alive :: "bool list"
  t_peer_heartbeat_seq :: "u64 list"
  t_peer_heartbeat_seen_us :: "u64 list"
  t_peer_heartbeat_timeout_us :: "u64 list"
  t_local_consumer_heartbeat_seq :: u64
  t_heartbeat_interval_us :: u64
  t_heartbeat_check_interval_us :: u64
  t_heartbeat_timeout_us :: u64
  t_max_msg_size_global :: u32
  t_is_for_lock :: bool
  t_consumer :: consumer
  t_delivered :: "task list"

text \<open>The constructor; \<open>hw\<close> is the number of hardware threads, of which a fifth but at least four
  serve asynchronous callbacks.\<close>

definition UBShmTransport :: "nat \<Rightarrow> transport" where
  "UBShmTransport hw = \<lparr>
     t_init_complete = False,
     t_conf = \<lparr>conf_cpu_id = 0, max_nodes = 0, current_node_id = 0, num_rings = 0, ring_descs = None\<rparr>,
     t_ring_descs_storage = [], t_init_region_ptr = 0, t_ring_region_ptr = 0,
     t_num_threads = max (hw div 5) WORKER_POOL_MIN_SIZE,
     t_callbacks = (\<lambda>_. \<lparr>cb_func = No_callback, cb_ctx = 0, cb_type = UB_FUNC_SYNC\<rparr>),
     t_worker_pool = None, t_node_id_to_idx = Map.empty, t_idx_to_node_id = [],
     t_region_bases = [], t_region_sizes = [],
     t_local_rings = replicate MAX_PRIORITY_LEVELS 0, t_local_active_priorities = [],
     t_remote_lookup_table = [],
     t_ring_caches = replicate MAX_NODES_LIMIT (replicate MAX_PRIORITY_LEVELS empty_cache),
     t_cpu_id = 0, t_stop_flag = False, t_reliability_stop_flag = False,
     t_peer_alive = replicate MAX_NODES_LIMIT True,
     t_peer_heartbeat_seq = replicate MAX_NODES_LIMIT 0,
     t_peer_heartbeat_seen_us = replicate MAX_NODES_LIMIT 0,
     t_peer_heartbeat_timeout_us = replicate MAX_NODES_LIMIT (ucast DEFAULT_HEARTBEAT_TIMEOUT_MS * US_PER_MS),
     t_local_consumer_heartbeat_seq = 0,
     t_heartbeat_interval_us = ucast DEFAULT_HEARTBEAT_INTERVAL_MS * US_PER_MS,
     t_heartbeat_check_interval_us = ucast DEFAULT_HEARTBEAT_CHECK_INTERVAL_MS * US_PER_MS,
     t_heartbeat_timeout_us = ucast DEFAULT_HEARTBEAT_TIMEOUT_MS * US_PER_MS,
     t_max_msg_size_global = 0, t_is_for_lock = False,
     t_consumer = consumer_initial, t_delivered = []\<rparr>"

section \<open>Node ids and caches\<close>

text \<open>\<open>None\<close> is the result \<open>-1\<close>.\<close>

definition get_compact_index :: "nat \<Rightarrow> transport \<Rightarrow> nat option" where
  "get_compact_index nid t = t_node_id_to_idx t nid"

definition cache_at :: "nat \<Rightarrow> nat \<Rightarrow> transport \<Rightarrow> ring_cache" where
  "cache_at nid prio t = t_ring_caches t ! nid ! prio"

definition upd_cache :: "nat \<Rightarrow> nat \<Rightarrow> (ring_cache \<Rightarrow> ring_cache) \<Rightarrow> transport \<Rightarrow> transport" where
  "upd_cache nid prio f t =
     t\<lparr>t_ring_caches := (t_ring_caches t)[nid := (t_ring_caches t ! nid)[prio := f (cache_at nid prio t)]]\<rparr>"

definition set_lookup :: "nat \<Rightarrow> nat \<Rightarrow> u64 \<Rightarrow> transport \<Rightarrow> transport" where
  "set_lookup idx prio p t =
     t\<lparr>t_remote_lookup_table := (t_remote_lookup_table t)[idx := (t_remote_lookup_table t ! idx)[prio := p]]\<rparr>"

definition forget_cache :: "ring_cache \<Rightarrow> ring_cache" where
  "forget_cache c = c\<lparr>rc_raw_ptr := 0, rc_shadow_head := 0, rc_threshold := 0, rc_threshold_version := 0,
     rc_initialized := False\<rparr>"

definition remove_node_cache :: "nat \<Rightarrow> transport \<Rightarrow> transport" where
  "remove_node_cache nid t =
     (if nid \<ge> MAX_NODES_LIMIT then t
      else case get_compact_index nid t of
        None \<Rightarrow> t
      | Some idx \<Rightarrow>
          fold (\<lambda>p t. set_lookup idx p 0 (upd_cache nid p forget_cache t)) [0..<MAX_PRIORITY_LEVELS] t)"

definition update_cached_congestion_threshold :: "nat \<Rightarrow> nat \<Rightarrow> u32 \<Rightarrow> u64 \<Rightarrow> transport \<Rightarrow> transport" where
  "update_cached_congestion_threshold nid prio threshold version t =
     (if prio = LOCK_RING_PRIORITY \<or> prio \<ge> MAX_PRIORITY_LEVELS then t
      else if nid \<ge> MAX_NODES_LIMIT then t
      else if get_compact_index nid t = None then t
      else if version \<le> rc_threshold_version (cache_at nid prio t) then t
      else upd_cache nid prio (\<lambda>c. c\<lparr>rc_threshold := threshold, rc_threshold_version := version\<rparr>) t)"

section \<open>System callbacks\<close>

text \<open>The body of a flow-control update: version, threshold, priority, and three bytes of padding.\<close>

record flow_config_update_message =
  fc_version :: u64
  fc_threshold :: u32
  fc_priority :: u8

definition flow_config_bytes :: "flow_config_update_message \<Rightarrow> u8 list" where
  "flow_config_bytes b = le_bytes 8 (fc_version b) @ le_bytes 4 (fc_threshold b) @ [fc_priority b, 0, 0, 0]"

definition flow_config_of :: "(nat \<Rightarrow> u8) \<Rightarrow> flow_config_update_message" where
  "flow_config_of b = \<lparr>fc_version = of_le (map b [0..<8]), fc_threshold = of_le (map b [8..<12]), fc_priority = b 12\<rparr>"

definition on_flow_config_update :: "message_t option \<Rightarrow> bool \<Rightarrow> transport \<Rightarrow> transport" where
  "on_flow_config_update msg ctx_null t =
     (case msg of
        None \<Rightarrow> t
      | Some m \<Rightarrow>
          (case m_body m of
             None \<Rightarrow> t
           | Some b \<Rightarrow>
               if ctx_null \<or> body_length (m_header m) < SIZEOF_FLOW_CONFIG then t
               else let body = flow_config_of b in
                 update_cached_congestion_threshold (unat (src_node_id (m_header m))) (unat (fc_priority body))
                   (fc_threshold body) (fc_version body) t))"

definition on_peer_exit :: "message_t option \<Rightarrow> bool \<Rightarrow> transport \<Rightarrow> transport" where
  "on_peer_exit msg ctx_null t =
     (case msg of
        None \<Rightarrow> t
      | Some m \<Rightarrow>
          if ctx_null then t
          else let dead_node = unat (src_node_id (m_header m)) in
            if dead_node \<ge> MAX_NODES_LIMIT then t else remove_node_cache dead_node t)"

text \<open>Invoking a callback: the transport's own act on it, an application's is recorded.\<close>

definition run_callback :: "task \<Rightarrow> transport \<Rightarrow> transport" where
  "run_callback k t =
     (let msg = \<lparr>m_header = task_header k, m_body = Some (\<lambda>i. task_body k ! i)\<rparr> in
      case task_func k of
        No_callback \<Rightarrow> t
      | On_peer_exit \<Rightarrow> on_peer_exit (Some msg) (task_ctx k = 0) t
      | On_flow_config_update \<Rightarrow> on_flow_config_update (Some msg) (task_ctx k = 0) t
      | User_callback n \<Rightarrow> t\<lparr>t_delivered := t_delivered t @ [k]\<rparr>)"

end
