(* ===== verification/Transport_Send.thy ===== *)
theory Transport_Send
  imports Transport_State
begin

text \<open>
  Finding a node's ring and sending to it: \<open>get_remote_ring\<close>, \<open>try_populate_cache\<close> and \<open>send\<close> of
  \<open>src/ub_comm_queue/UBShmTransport.cpp\<close>, with the broadcast of flow-control updates. A pointer
  at which no ring has been built is undefined behaviour, the outcome \<open>Out_of_bounds\<close>.
\<close>

section \<open>Lookup\<close>

text \<open>The return code and the ring pointer; \<open>out_ring\<close> says whether the out parameter is not null, as
  it is at both call sites.\<close>

definition get_remote_ring :: "nat \<Rightarrow> nat \<Rightarrow> bool \<Rightarrow> transport \<Rightarrow> shared \<Rightarrow> (int \<times> u64) \<times> transport \<times> shared" where
  "get_remote_ring nid prio out_ring t m =
     (if \<not> out_ring then ((EINVAL, 0), t, m)
      else case get_compact_index nid t of
        None \<Rightarrow> ((UB_COMM_ERR_PEER_NODE_NOT_FOUND, 0), t, m)
      | Some idx \<Rightarrow>
          if prio \<ge> MAX_PRIORITY_LEVELS then ((EINVAL, 0), t, m)
          else if t_remote_lookup_table t ! idx ! prio \<noteq> 0
          then ((UB_COMM_OK, t_remote_lookup_table t ! idx ! prio), t, m)
          else if t_init_region_ptr t = 0 then ((EINVAL, 0), t, m)
          else
            let m1 = force_refresh_whole_struct idx m; node = sh_board m1 ! idx in
            if \<not> nb_initialized node then ((UB_COMM_ERR_PEER_NOT_READY, 0), t, m1)
            else
              let offset = nb_ring_offsets node ! prio in
              if offset = UINT64_MAX \<or> t_region_bases t ! idx = 0
              then ((UB_COMM_ERR_RING_NOT_FOUND, 0), t, m1)
              else
                let ring = t_region_bases t ! idx + offset
                in ((UB_COMM_OK, ring), set_lookup idx prio ring t, m1))"

text \<open>Reading the constants of a remote ring into the cache; the entry count is read as 32 bits.\<close>

definition try_populate_cache :: "nat \<Rightarrow> nat \<Rightarrow> transport \<Rightarrow> shared \<Rightarrow> outcome \<times> transport \<times> shared" where
  "try_populate_cache nid prio t m =
     (if nid \<ge> MAX_NODES_LIMIT then (Returned EINVAL, t, m)
      else if prio \<ge> MAX_PRIORITY_LEVELS then (Returned EINVAL, t, m)
      else case get_remote_ring nid prio True t m of
        ((ret, ring), t1, m1) \<Rightarrow>
          if ret \<noteq> UB_COMM_OK then (Returned ret, t1, m1)
          else case sh_rings m1 ring of
            None \<Rightarrow> (Out_of_bounds, t1, m1)
          | Some r \<Rightarrow>
              let t2 = upd_cache nid prio (\<lambda>c. c\<lparr>rc_raw_ptr := ring, rc_max_size := r_max_msg_size r,
                         rc_stride := r_entry_stride r\<rparr>) t1;
                  num = (ucast (r_entry_num r) :: u32) in
              if num = 0 \<or> num AND (num - 1) \<noteq> 0 then (Returned EINVAL, t2, m1)
              else
                (Returned UB_COMM_OK,
                 upd_cache nid prio (\<lambda>c. c\<lparr>rc_mask := ucast (num - 1), rc_shadow_head := 0,
                   rc_threshold := r_threshold r, rc_threshold_version := r_threshold_version r,
                   rc_initialized := True\<rparr>) t2, m1))"

section \<open>Sending\<close>

text \<open>Running a producer on the ring at an address.\<close>

definition ring_view :: "mpsc \<Rightarrow> ring_cache \<Rightarrow> remote_view" where
  "ring_view r c = mpsc.extend r
     (remote_view.fields (rc_shadow_head c) (rc_threshold c) (rc_threshold_version c))"

definition put_ring :: "u64 \<Rightarrow> mpsc \<Rightarrow> shared \<Rightarrow> shared" where
  "put_ring p r m = m\<lparr>sh_rings := (sh_rings m)(p \<mapsto> r)\<rparr>"

definition send_local :: "u64 \<Rightarrow> message_t \<Rightarrow> shared \<Rightarrow> outcome \<times> shared" where
  "send_local p msg m =
     (case sh_rings m p of
        None \<Rightarrow> (Out_of_bounds, m)
      | Some r \<Rightarrow>
          (case enqueue_local (Some (m_header msg)) (m_body msg) (body_length (m_header msg)) (quiet r) of
             (res, w) \<Rightarrow> (res, put_ring p (st w) m)))"

definition send_cached :: "nat \<Rightarrow> nat \<Rightarrow> message_t \<Rightarrow> transport \<Rightarrow> shared \<Rightarrow> outcome \<times> transport \<times> shared" where
  "send_cached nid prio msg t m =
     (let c = cache_at nid prio t; p = rc_raw_ptr c; h = m_header msg in
      if p = 0 then (fst (enqueue_remote (Some h) (m_body msg) (body_length h) (rc_mask c) (rc_stride c)
                            (rc_max_size c) (None :: remote_view world option)), t, m)
      else case sh_rings m p of
        None \<Rightarrow> (Out_of_bounds, t, m)
      | Some r \<Rightarrow>
          (case enqueue_remote (Some h) (m_body msg) (body_length h) (rc_mask c) (rc_stride c) (rc_max_size c)
                  (Some (quiet (ring_view r c))) of
             (res, None) \<Rightarrow> (res, t, m)
           | (res, Some w) \<Rightarrow>
               (res,
                upd_cache nid prio (\<lambda>c. c\<lparr>rc_shadow_head := v_shadow_head (st w), rc_threshold := v_threshold (st w),
                  rc_threshold_version := v_threshold_version (st w)\<rparr>) t,
                put_ring p (mpsc.truncate (st w)) m)))"

text \<open>The ring a message goes to: lock and system messages take the lock ring.\<close>

definition system_type :: "u8 \<Rightarrow> bool" where
  "system_type ty \<longleftrightarrow> ty = MSG_TYPE_DIST_LOCK \<or> ty = MSG_TYPE_SYS_PEER_EXIT \<or> ty = MSG_TYPE_SYS_FLOW_CONFIG_UPDATE"

definition send_priority :: "message_header_t \<Rightarrow> nat" where
  "send_priority h = (if system_type (msg_type h) then LOCK_RING_PRIORITY else unat (priority h))"

definition send :: "message_t option \<Rightarrow> transport \<Rightarrow> shared \<Rightarrow> outcome \<times> transport \<times> shared" where
  "send msg t m =
     (case msg of
        None \<Rightarrow> (Returned EINVAL, t, m)
      | Some ms \<Rightarrow>
          let h = m_header ms; cur = current_node_id (t_conf t) in
          if cur \<noteq> src_node_id h then (Returned EPERM, t, m)
          else
            let dest_id = unat (dest_node_id h); prio = send_priority h in
            if \<not> system_type (msg_type h) \<and> prio = 0 then (Returned EINVAL, t, m)
            else if prio \<ge> MAX_PRIORITY_LEVELS then (Returned EINVAL, t, m)
            else if dest_id \<ge> MAX_NODES_LIMIT then (Returned EINVAL, t, m)
            else if dest_id \<noteq> unat cur \<and> t_node_id_to_idx t dest_id = None
            then (Returned UB_COMM_ERR_PEER_NODE_NOT_FOUND, t, m)
            else if dest_id \<noteq> unat cur \<and> \<not> t_peer_alive t ! dest_id
            then (Returned UB_COMM_ERR_PEER_NOT_READY, t, m)
            else if dest_id = unat cur then
              let ring = t_local_rings t ! prio in
              if ring = 0 then (Returned UB_COMM_ERR_RING_NOT_FOUND, t, m)
              else case send_local ring ms m of (r, m') \<Rightarrow> (r, t, m')
            else if rc_initialized (cache_at dest_id prio t) then send_cached dest_id prio ms t m
            else case try_populate_cache dest_id prio t m of
              (r, t1, m1) \<Rightarrow>
                if r \<noteq> Returned UB_COMM_OK then (r, t1, m1) else send_cached dest_id prio ms t1 m1)"

section \<open>Broadcasting a flow-control update\<close>

definition flow_config_message :: "transport \<Rightarrow> flow_config_update_message \<Rightarrow> nat \<Rightarrow> message_t" where
  "flow_config_message t body dest = \<lparr>
     m_header = \<lparr>src_thread_id = 0, body_length = SIZEOF_FLOW_CONFIG, dest_node_id = of_nat dest,
       src_node_id = current_node_id (t_conf t), msg_type = MSG_TYPE_SYS_FLOW_CONFIG_UPDATE,
       priority = of_nat LOCK_RING_PRIORITY\<rparr>,
     m_body = Some (\<lambda>i. flow_config_bytes body ! i)\<rparr>"

text \<open>The results of the sends, which the code only logs, come back with the state.\<close>

definition broadcast_flow_config_update ::
  "nat \<Rightarrow> u32 \<Rightarrow> u64 \<Rightarrow> transport \<Rightarrow> shared \<Rightarrow> outcome list \<times> transport \<times> shared" where
  "broadcast_flow_config_update prio threshold version t m =
     (if \<not> t_init_complete t \<or> t_remote_lookup_table t = [] then ([], t, m)
      else
        let body = \<lparr>fc_version = version, fc_threshold = threshold, fc_priority = of_nat prio\<rparr> in
        fold (\<lambda>nid (rs, t, m).
            if nid = unat (current_node_id (t_conf t)) then (rs, t, m)
            else case send (Some (flow_config_message t body nid)) t m of (r, t', m') \<Rightarrow> (rs @ [r], t', m'))
          (t_idx_to_node_id t) ([], t, m))"

end
