(* ===== verification/Transport_Init.thy ===== *)
theory Transport_Init
  imports Transport_Send
begin

text \<open>
  The initialisation pipeline of the transport, \<open>UBShmTransport::init\<close> and its steps in
  \<open>src/ub_comm_queue/UBShmTransport.cpp\<close>: validation, the mapping of node ids to indices, the
  check of the memory a node needs, the construction of its rings, their publication on the
  billboard, the wait for the other nodes, and the warm-up of the lookup table.
\<close>

section \<open>Validation\<close>

definition check_cpu_id_valid :: "nat \<Rightarrow> int \<Rightarrow> bool" where
  "check_cpu_id_valid cpu_num cpu \<longleftrightarrow> \<not> (cpu < 0 \<or> nat cpu \<ge> cpu_num)"

definition setup_config_and_validate ::
  "nat \<Rightarrow> ub_shm_area_t option \<Rightarrow> ub_ring_region_map_t option \<Rightarrow> ub_comm_conf_t option \<Rightarrow> transport
   \<Rightarrow> int \<times> transport" where
  "setup_config_and_validate cpu_num init_area ring_map conf t =
     (case (init_area, ring_map, conf) of
        (Some a, Some rm, Some c) \<Rightarrow>
          if area_ptr a = 0 then (EINVAL, t)
          else (case map_entries rm of
            None \<Rightarrow> (EINVAL, t)
          | Some es \<Rightarrow>
              if max_nodes c = 0 \<or> unat (max_nodes c) > MAX_NODES_LIMIT then (EINVAL, t)
              else if area_size a < SIZEOF_BILLBOARD then (EINVAL, t)
              else if map_count rm = 0 then (EINVAL, t)
              else if unat (map_count rm) > MAX_PRIORITY_LEVELS then (EINVAL, t)
              else if list_ex (\<lambda>i. area_ptr (region (es i)) = 0) [0..<unat (map_count rm)] then (EINVAL, t)
              else if num_rings c < 1 \<or> unat (num_rings c) > MAX_PRIORITY_LEVELS then (EINVAL, t)
              else if ring_descs c = None then (EINVAL, t)
              else if conf_cpu_id c < 0
              then (0, t\<lparr>t_cpu_id := - 1, t_init_region_ptr := area_ptr a, t_conf := c\<rparr>)
              else if \<not> check_cpu_id_valid cpu_num (conf_cpu_id c) then (EINVAL, t)
              else (0, t\<lparr>t_cpu_id := conf_cpu_id c, t_init_region_ptr := area_ptr a, t_conf := c\<rparr>))
      | _ \<Rightarrow> (EINVAL, t))"

section \<open>Node mapping\<close>

definition map_list :: "ub_ring_region_map_t \<Rightarrow> ub_ring_region_info_t list" where
  "map_list rm = (case map_entries rm of None \<Rightarrow> [] | Some es \<Rightarrow> map es [0..<unat (map_count rm)])"

definition build_node_mapping :: "ub_ring_region_map_t \<Rightarrow> transport \<Rightarrow> int \<times> transport" where
  "build_node_mapping rm t =
     (let ids = map (\<lambda>e. unat (region_node_id e)) (map_list rm) in
      if list_ex (\<lambda>nid. nid \<ge> MAX_NODES_LIMIT) ids then (EINVAL, t)
      else if length (remdups ids) > MAX_NODES_LIMIT \<or> length (remdups ids) \<noteq> unat (max_nodes (t_conf t))
      then (EINVAL, t)
      else
        let sorted_ids = sort (remdups ids);
            t' = t\<lparr>t_idx_to_node_id := sorted_ids,
                   t_node_id_to_idx := map_of (zip sorted_ids [0..<length sorted_ids])\<rparr> in
        if t_node_id_to_idx t' (unat (current_node_id (t_conf t))) = None then (EINVAL, t') else (0, t'))"

definition build_region_bases :: "ub_ring_region_map_t \<Rightarrow> transport \<Rightarrow> int \<times> transport" where
  "build_region_bases rm t =
     (let num_nodes = length (t_idx_to_node_id t);
          t1 = t\<lparr>t_region_bases := replicate num_nodes 0, t_region_sizes := replicate num_nodes 0\<rparr>;
          t2 = fold (\<lambda>e t. case get_compact_index (unat (region_node_id e)) t of
                 None \<Rightarrow> t
               | Some idx \<Rightarrow> t\<lparr>t_region_bases := (t_region_bases t)[idx := area_ptr (region e)],
                               t_region_sizes := (t_region_sizes t)[idx := area_size (region e)]\<rparr>) (map_list rm) t1
      in (0, t2\<lparr>t_ring_region_ptr :=
             t_region_bases t2 ! the (get_compact_index (unat (current_node_id (t_conf t2))) t2)\<rparr>))"

section \<open>Memory\<close>

definition pad_to_line :: "u64 \<Rightarrow> u64" where
  "pad_to_line addr = (CACHELINE_SIZE - addr mod CACHELINE_SIZE) mod CACHELINE_SIZE"

definition conf_descs :: "ub_comm_conf_t \<Rightarrow> ub_ring_desc_t list" where
  "conf_descs c = (case ring_descs c of None \<Rightarrow> [] | Some ds \<Rightarrow> map ds [0..<unat (num_rings c)])"

text \<open>The loop over the user rings: bytes needed and the address reached so far, in machine
  arithmetic.\<close>

fun user_rings_needed :: "ub_ring_desc_t list \<Rightarrow> u64 \<Rightarrow> u64 \<Rightarrow> int + u64" where
  "user_rings_needed [] total_needed curr_addr = Inr total_needed"
| "user_rings_needed (d # ds) total_needed curr_addr =
     (if desc_priority d = 0 \<or> unat (desc_priority d) \<ge> MAX_PRIORITY_LEVELS then Inl EINVAL
      else if ring_capacity d = 0 \<or> ring_capacity d AND (ring_capacity d - 1) \<noteq> 0 then Inl EINVAL
      else if desc_max_msg_size d < SIZEOF_MESSAGE_T then Inl EINVAL
      else
        let pad = pad_to_line curr_addr; size = CalculateMemorySize (ring_capacity d) (desc_max_msg_size d)
        in user_rings_needed ds (total_needed + (pad + size)) (curr_addr + (pad + size)))"

definition check_memory_capacity :: "ub_shm_area_t \<Rightarrow> transport \<Rightarrow> int" where
  "check_memory_capacity init_area t =
     (if area_size init_area < SIZEOF_BILLBOARD then EINVAL
      else
        let my_idx = the (get_compact_index (unat (current_node_id (t_conf t))) t);
            my_limit = t_region_sizes t ! my_idx;
            curr_addr = t_ring_region_ptr t;
            pad = pad_to_line curr_addr;
            size = CalculateMemorySize LOCK_RING_CAPACITY LOCK_RING_MSG_SIZE in
        case user_rings_needed (conf_descs (t_conf t)) (pad + size) (curr_addr + (pad + size)) of
          Inl e \<Rightarrow> e
        | Inr total_needed \<Rightarrow> if my_limit < total_needed then ENOMEM else UB_COMM_OK)"

definition deep_copy_ring_descs :: "bool \<Rightarrow> transport \<Rightarrow> int \<times> transport" where
  "deep_copy_ring_descs alloc_ok t =
     (if num_rings (t_conf t) > 0 \<and> ring_descs (t_conf t) \<noteq> None then
        if \<not> alloc_ok then (ENOMEM, t)
        else
          let storage = conf_descs (t_conf t)
          in (UB_COMM_OK, t\<lparr>t_ring_descs_storage := storage,
                            t_conf := (t_conf t)\<lparr>ring_descs := Some (\<lambda>i. storage ! i)\<rparr>\<rparr>)
      else (UB_COMM_OK, t\<lparr>t_conf := (t_conf t)\<lparr>num_rings := 0\<rparr>\<rparr>))"

definition init_thread_pool :: "transport \<Rightarrow> transport" where
  "init_thread_pool t =
     t\<lparr>t_worker_pool := (if t_num_threads t > 0 then Some (ThreadPool (t_num_threads t)) else None)\<rparr>"

section \<open>Local rings\<close>

text \<open>Building one ring at an aligned address: both ends of its memory are written, then the ring
  object is constructed there. \<open>None\<close> is the exception of the ring's constructor.\<close>

definition build_ring ::
  "u64 \<Rightarrow> u32 \<Rightarrow> u32 \<Rightarrow> nat \<Rightarrow> transport \<times> shared \<times> u64 list \<Rightarrow> (u64 \<times> transport \<times> shared \<times> u64 list) option" where
  "build_ring addr capacity max_msg_size prio = (\<lambda>(t, m, offsets).
     let p = addr + pad_to_line addr;
         size = CalculateMemorySize capacity max_msg_size;
         m1 = m\<lparr>sh_bytes := (sh_bytes m)(p := 0, p + size - 1 := 0)\<rparr> in
     case MPSCRingBuffer (\<lambda>j. sh_bytes m1 (p + of_nat j)) (sh_now_us m1) capacity max_msg_size of
       None \<Rightarrow> None
     | Some ring \<Rightarrow>
         Some (p + size,
               t\<lparr>t_local_rings := (t_local_rings t)[prio := p],
                 t_local_active_priorities := t_local_active_priorities t @ [prio],
                 t_max_msg_size_global := max max_msg_size (t_max_msg_size_global t)\<rparr>,
               put_ring p ring m1,
               offsets[prio := p - t_ring_region_ptr t]))"

fun build_user_rings ::
  "ub_ring_desc_t list \<Rightarrow> u64 \<Rightarrow> transport \<times> shared \<times> u64 list
   \<Rightarrow> (int \<times> transport \<times> shared \<times> u64 list) option" where
  "build_user_rings [] addr (t, m, offsets) =
     Some (UB_COMM_OK,
       t\<lparr>t_max_msg_size_global := t_max_msg_size_global t + (of_nat MSG_HEADER_LEN + 64)\<rparr>, m, offsets)"
| "build_user_rings (d # ds) addr (t, m, offsets) =
     (let prio = unat (desc_priority d) in
      if prio = 0 then Some (EINVAL, t, m, offsets)
      else if prio \<ge> MAX_PRIORITY_LEVELS then Some (EINVAL, t, m, offsets)
      else if prio \<in> set (t_local_active_priorities t) then Some (EEXIST, t, m, offsets)
      else case build_ring addr (ring_capacity d) (desc_max_msg_size d) prio (t, m, offsets) of
        None \<Rightarrow> None
      | Some (addr', r) \<Rightarrow> build_user_rings ds addr' r)"

definition create_local_rings ::
  "u64 list \<Rightarrow> transport \<Rightarrow> shared \<Rightarrow> (int \<times> transport \<times> shared \<times> u64 list) option" where
  "create_local_rings out_offsets t m =
     (let t1 = t\<lparr>t_max_msg_size_global := 0\<rparr> in
      if length out_offsets < MAX_PRIORITY_LEVELS then Some (EINVAL, t1, m, out_offsets)
      else case build_ring (t_ring_region_ptr t1) LOCK_RING_CAPACITY LOCK_RING_MSG_SIZE LOCK_RING_PRIORITY
                  (t1, m, out_offsets) of
        None \<Rightarrow> None
      | Some (addr, r) \<Rightarrow> build_user_rings (conf_descs (t_conf t1)) addr r)"

section \<open>The billboard\<close>

definition publish_to_billboard :: "u64 list \<Rightarrow> transport \<Rightarrow> shared \<Rightarrow> int \<times> transport \<times> shared" where
  "publish_to_billboard offsets t m =
     (if t_init_region_ptr t = 0 then (EINVAL, t, m)
      else if t_init_region_ptr t mod CACHELINE_SIZE \<noteq> 0 then (EINVAL, t, m)
      else case get_compact_index (unat (current_node_id (t_conf t))) t of
        None \<Rightarrow> (UB_COMM_ERR_PEER_NODE_NOT_FOUND, t, m)
      | Some my_idx \<Rightarrow>
          let m1 = upd_node my_idx (\<lambda>n. n\<lparr>nb_ring_offsets := replicate MAX_PRIORITY_LEVELS UINT64_MAX\<rparr>) m;
              m2 = upd_node my_idx (\<lambda>n. n\<lparr>nb_consumer_heartbeat_seq := 0,
                     nb_heartbeat_interval_ms := ucast (t_heartbeat_interval_us t div US_PER_MS)\<rparr>) m1;
              m3 = fold (\<lambda>p. if offsets ! p \<noteq> UINT64_MAX
                             then upd_node my_idx (\<lambda>n. n\<lparr>nb_ring_offsets := (nb_ring_offsets n)[p := offsets ! p]\<rparr>)
                             else id) [0..<MAX_PRIORITY_LEVELS] m2;
              seqv = t_local_consumer_heartbeat_seq t + 1;
              m4 = upd_node my_idx (\<lambda>n. n\<lparr>nb_consumer_heartbeat_seq := seqv\<rparr>) m3;
              m5 = upd_node my_idx (\<lambda>n. n\<lparr>nb_initialized := True\<rparr>) m4
          in (UB_COMM_OK, t\<lparr>t_local_consumer_heartbeat_seq := seqv\<rparr>, m5))"

text \<open>Waiting for one node: polls until it is ready or the deadline has passed. With nothing more
  happening in the environment before the deadline the wait has no end, \<open>None\<close>.\<close>

definition refresh_initialized :: "nat \<Rightarrow> shared \<Rightarrow> shared" where
  "refresh_initialized idx m = upd_node idx (\<lambda>n. if nb_initialized n then n\<lparr>nb_initialized := True\<rparr> else n) m"

function wait_for_node :: "nat \<Rightarrow> u64 \<Rightarrow> shared world \<Rightarrow> (bool \<times> shared world) option" where
  "wait_for_node idx deadline w =
     (let (now, w1) = load sh_now_us w in
      if now \<ge> deadline then Some (False, w1)
      else
        let w2 = store (refresh_initialized idx) w1;
            (ready, w3) = load (\<lambda>m. nb_initialized (sh_board m ! idx)) w2 in
        if ready then Some (True, store (force_refresh_whole_struct idx) w3)
        else if script w = [] then None
        else wait_for_node idx deadline w3)"
  by auto
termination
  by (relation "measure (\<lambda>(idx, deadline, w). length (script w))")
     (auto simp: load_def store_def tick_def modify_def Let_def split: list.splits)

declare wait_for_node.simps [simp del]

definition WAIT_TIMEOUT_US :: u64 where "WAIT_TIMEOUT_US = 10000000"

fun wait_for_nodes :: "nat list \<Rightarrow> u64 \<Rightarrow> transport \<Rightarrow> shared world \<Rightarrow> shared world option" where
  "wait_for_nodes [] deadline t w = Some w"
| "wait_for_nodes (idx # is) deadline t w =
     (if t_idx_to_node_id t ! idx = unat (current_node_id (t_conf t)) then wait_for_nodes is deadline t w
      else case wait_for_node idx deadline w of
        None \<Rightarrow> None
      | Some (ready, w') \<Rightarrow> wait_for_nodes is deadline t w')"

definition wait_for_cluster_ready :: "transport \<Rightarrow> shared world \<Rightarrow> shared world option" where
  "wait_for_cluster_ready t w =
     (let (now, w1) = load sh_now_us w in
      if t_init_region_ptr t = 0 then Some w1
      else wait_for_nodes [0..<min (length (t_idx_to_node_id t)) MAX_NODES_LIMIT] (now + WAIT_TIMEOUT_US) t w1)"

section \<open>Preloading\<close>

text \<open>One priority of one remote node, and one node.\<close>

definition preload_ring :: "nat \<Rightarrow> nat \<Rightarrow> transport \<times> shared \<Rightarrow> transport \<times> shared" where
  "preload_ring idx p = (\<lambda>(t, m).
     let offset = nb_ring_offsets (sh_board m ! idx) ! p in
     if offset \<noteq> UINT64_MAX \<and> t_region_bases t ! idx \<noteq> 0 then
       case try_populate_cache (t_idx_to_node_id t ! idx) p (set_lookup idx p (t_region_bases t ! idx + offset) t) m of
         (r, t', m') \<Rightarrow> (t', m')
     else (t, m))"

definition preload_node :: "nat \<Rightarrow> transport \<times> shared \<Rightarrow> transport \<times> shared" where
  "preload_node idx = (\<lambda>(t, m).
     if t_idx_to_node_id t ! idx = unat (current_node_id (t_conf t)) then
       (fold (\<lambda>p t. if t_local_rings t ! p \<noteq> 0 then set_lookup idx p (t_local_rings t ! p) t else t)
          [0..<MAX_PRIORITY_LEVELS] t, m)
     else
       let m1 = force_refresh_whole_struct idx m in
       if \<not> nb_initialized (sh_board m1 ! idx) then (t, m1)
       else fold (preload_ring idx) [0..<MAX_PRIORITY_LEVELS] (t, m1))"

definition preload_remote_table :: "transport \<Rightarrow> shared \<Rightarrow> transport \<times> shared" where
  "preload_remote_table t m =
     (if t_init_region_ptr t = 0 then (t, m)
      else
        let num_nodes = min (length (t_idx_to_node_id t)) MAX_NODES_LIMIT;
            t1 = t\<lparr>t_remote_lookup_table := replicate num_nodes (replicate MAX_PRIORITY_LEVELS 0)\<rparr>
        in fold preload_node [0..<num_nodes] (t1, m))"

section \<open>Threads and registration\<close>

definition start_dispatcher :: "transport \<Rightarrow> transport" where
  "start_dispatcher t = t\<lparr>t_stop_flag := False\<rparr>"

definition refresh_local_consumer_heartbeat :: "transport \<Rightarrow> shared \<Rightarrow> transport \<times> shared" where
  "refresh_local_consumer_heartbeat t m =
     (case get_compact_index (unat (current_node_id (t_conf t))) t of
        None \<Rightarrow> (t, m)
      | Some my_idx \<Rightarrow>
          if t_init_region_ptr t = 0 then (t, m)
          else
            let seqv = t_local_consumer_heartbeat_seq t + 1
            in (t\<lparr>t_local_consumer_heartbeat_seq := seqv\<rparr>,
                upd_node my_idx (\<lambda>n. n\<lparr>nb_consumer_heartbeat_seq := seqv\<rparr>) m))"

definition start_reliability_threads :: "transport \<Rightarrow> shared \<Rightarrow> transport \<times> shared" where
  "start_reliability_threads t m = refresh_local_consumer_heartbeat (t\<lparr>t_reliability_stop_flag := False\<rparr>) m"

definition stop_reliability_threads :: "transport \<Rightarrow> transport" where
  "stop_reliability_threads t = t\<lparr>t_reliability_stop_flag := True\<rparr>"

text \<open>A message type is a byte and the callback table has 256 entries, and the function type has two
  values: the checks of both always pass.\<close>

definition register_func :: "u8 \<Rightarrow> ub_func_type_t \<Rightarrow> callback \<Rightarrow> u64 \<Rightarrow> transport \<Rightarrow> int \<times> transport" where
  "register_func ty func_type func ctx t =
     (0, t\<lparr>t_callbacks := (t_callbacks t)(ty := \<lparr>cb_func = func, cb_ctx = ctx, cb_type = func_type\<rparr>)\<rparr>)"

definition register_func_for_lock :: "u8 \<Rightarrow> ub_func_type_t \<Rightarrow> callback \<Rightarrow> u64 \<Rightarrow> transport \<Rightarrow> int \<times> transport" where
  "register_func_for_lock ty func_type func ctx t =
     (if ty \<noteq> MSG_TYPE_DIST_LOCK then (EINVAL, t)
      else (0, t\<lparr>t_callbacks := (t_callbacks t)(MSG_TYPE_DIST_LOCK := \<lparr>cb_func = func, cb_ctx = ctx, cb_type = func_type\<rparr>)\<rparr>))"

section \<open>The pipeline\<close>

text \<open>The steps up to the publication. \<open>None\<close> is an exception; \<open>this\<close> is the transport's address.\<close>

definition init_publish ::
  "nat \<Rightarrow> bool \<Rightarrow> u64 \<Rightarrow> ub_shm_area_t option \<Rightarrow> ub_ring_region_map_t option \<Rightarrow> ub_comm_conf_t option
   \<Rightarrow> transport \<Rightarrow> shared \<Rightarrow> (int \<times> transport \<times> shared) option" where
  "init_publish cpu_num alloc_ok this init_area ring_map conf t m =
     (case setup_config_and_validate cpu_num init_area ring_map conf t of (r1, t1) \<Rightarrow>
      if r1 \<noteq> 0 then Some (r1, t1, m) else
      (case build_node_mapping (the ring_map) t1 of (r2, t2) \<Rightarrow>
       if r2 \<noteq> 0 then Some (r2, t2, m) else
       (case build_region_bases (the ring_map) t2 of (r3, t3) \<Rightarrow>
        if r3 \<noteq> 0 then Some (r3, t3, m) else
        let r4 = check_memory_capacity (the init_area) t3 in
        if r4 \<noteq> 0 then Some (r4, t3, m) else
        (case deep_copy_ring_descs alloc_ok t3 of (r5, t5) \<Rightarrow>
         if r5 \<noteq> 0 then Some (r5, t5, m) else
         (case create_local_rings (replicate MAX_PRIORITY_LEVELS UINT64_MAX) (init_thread_pool t5) m of
            None \<Rightarrow> None
          | Some (r7, t7, m7, offsets) \<Rightarrow>
              if r7 \<noteq> 0 then Some (r7, t7, m7) else
              (case publish_to_billboard offsets t7 m7 of (r8, t8, m8) \<Rightarrow>
               if r8 \<noteq> 0 then Some (r8, t8, m8) else
               let t9 = snd (register_func MSG_TYPE_SYS_PEER_EXIT UB_FUNC_SYNC On_peer_exit this t8);
                   t10 = snd (register_func MSG_TYPE_SYS_FLOW_CONFIG_UPDATE UB_FUNC_SYNC On_flow_config_update this t9)
               in case start_reliability_threads t10 m8 of (t11, m11) \<Rightarrow> Some (0, t11, m11)))))))"

text \<open>The whole of \<open>init\<close>: the other nodes act while it waits for them. The outer option is the wait
  that never ends, the inner one an exception.\<close>

definition init ::
  "nat \<Rightarrow> bool \<Rightarrow> u64 \<Rightarrow> ub_shm_area_t option \<Rightarrow> ub_ring_region_map_t option \<Rightarrow> ub_comm_conf_t option
   \<Rightarrow> transport \<Rightarrow> shared world \<Rightarrow> (int \<times> transport \<times> shared world) option option" where
  "init cpu_num alloc_ok this init_area ring_map conf t w =
     (case init_publish cpu_num alloc_ok this init_area ring_map conf t (st w) of
        None \<Rightarrow> Some None
      | Some (r, t1, m1) \<Rightarrow>
          if r \<noteq> 0 then Some (Some (r, t1, w\<lparr>st := m1\<rparr>))
          else (case wait_for_cluster_ready t1 (w\<lparr>st := m1\<rparr>) of
            None \<Rightarrow> None
          | Some w2 \<Rightarrow>
              (case preload_remote_table t1 (st w2) of (t3, m3) \<Rightarrow>
                 Some (Some (0, (start_dispatcher t3)\<lparr>t_init_complete := True\<rparr>, w2\<lparr>st := m3\<rparr>)))))"

end
