(* ===== verification/Transport_Layout.thy ===== *)
theory Transport_Layout
  imports Transport_Init Mpsc_Channel
begin

text \<open>
  Correctness of the initialisation: the node mapping is a bijection that all nodes agree on, the
  rings a node builds lie inside its region and do not overlap, and what a node publishes is
  what the others find.
\<close>

section \<open>The node mapping\<close>

definition map_ids :: "ub_ring_region_map_t \<Rightarrow> nat list" where
  "map_ids rm = map (\<lambda>e. unat (region_node_id e)) (map_list rm)"

lemma map_of_zip_index:
  assumes "distinct xs" "i < length xs"
  shows "map_of (zip xs [0..<length xs]) (xs ! i) = Some i"
  using assms by (subst map_of_zip_nth) auto

lemma map_of_zip_index_Some:
  assumes "map_of (zip xs [0..<length xs]) x = Some i"
  shows "i < length xs \<and> xs ! i = x"
  using map_of_SomeD [OF assms] by (auto simp: set_zip)

lemma sort_remdups_set: "set xs = set ys \<Longrightarrow> sort (remdups xs) = sort (remdups ys)"
  by (rule properties_for_sort) (simp_all add: set_eq_iff_mset_remdups_eq)

section \<open>Publication\<close>

lemma upd_node_same: "idx < length (sh_board m) \<Longrightarrow> sh_board (upd_node idx f m) ! idx = f (sh_board m ! idx)"
  by (simp add: upd_node_def)

lemma upd_node_other: "idx \<noteq> j \<Longrightarrow> sh_board (upd_node idx f m) ! j = sh_board m ! j"
  by (simp add: upd_node_def)

lemma upd_node_fields [simp]:
  "length (sh_board (upd_node idx f m)) = length (sh_board m)" "sh_rings (upd_node idx f m) = sh_rings m"
  "sh_bytes (upd_node idx f m) = sh_bytes m" "sh_now_us (upd_node idx f m) = sh_now_us m"
  by (simp_all add: upd_node_def)

lemma publish_offsets_fold:
  assumes "idx < length (sh_board m)" "length (nb_ring_offsets (sh_board m ! idx)) = 8" "\<forall>p \<in> set ps. p < 8"
    "length (sh_board m) = n"
  shows "let m' = fold (\<lambda>p. if offsets ! p \<noteq> UINT64_MAX
              then upd_node idx (\<lambda>n. n\<lparr>nb_ring_offsets := (nb_ring_offsets n)[p := offsets ! p]\<rparr>) else id) ps m
         in length (sh_board m') = n \<and> length (nb_ring_offsets (sh_board m' ! idx)) = 8 \<and>
            (\<forall>p < 8. nb_ring_offsets (sh_board m' ! idx) ! p =
               (if p \<in> set ps \<and> offsets ! p \<noteq> UINT64_MAX then offsets ! p
                else nb_ring_offsets (sh_board m ! idx) ! p))"
  using assms
proof (induction ps arbitrary: m)
  case (Cons p ps)
  let ?f = "\<lambda>n. n\<lparr>nb_ring_offsets := (nb_ring_offsets n)[p := offsets ! p]\<rparr>"
  let ?m = "if offsets ! p \<noteq> UINT64_MAX then upd_node idx ?f m else m"
  have "idx < length (sh_board ?m)" "length (nb_ring_offsets (sh_board ?m ! idx)) = 8" "length (sh_board ?m) = n"
    using Cons.prems by (auto simp: upd_node_same)
  note IH = Cons.IH [OF this(1,2) _ this(3)]
  have at: "nb_ring_offsets (sh_board ?m ! idx) ! q =
      (if q = p \<and> offsets ! p \<noteq> UINT64_MAX then offsets ! p else nb_ring_offsets (sh_board m ! idx) ! q)" if "q < 8" for q
    using Cons.prems that by (auto simp: upd_node_same nth_list_update)
  show ?case
    using IH Cons.prems(3) at by (auto simp: Let_def)
qed simp

lemma force_refresh_node:
  assumes "idx < length (sh_board m)"
  shows "nb_initialized (sh_board (force_refresh_whole_struct idx m) ! idx) = nb_initialized (sh_board m ! idx)"
    "nb_ring_offsets (sh_board (force_refresh_whole_struct idx m) ! idx) = nb_ring_offsets (sh_board m ! idx)"
    "nb_consumer_heartbeat_seq (sh_board (force_refresh_whole_struct idx m) ! idx) = nb_consumer_heartbeat_seq (sh_board m ! idx)"
    "nb_heartbeat_interval_ms (sh_board (force_refresh_whole_struct idx m) ! idx) = nb_heartbeat_interval_ms (sh_board m ! idx)"
  using assms by (simp_all add: force_refresh_whole_struct_def upd_node_same)

lemma publish_node:
  assumes pub: "publish_to_billboard offsets t m = (UB_COMM_OK, t', m')"
    and idx: "get_compact_index (unat (current_node_id (t_conf t))) t = Some my_idx" "my_idx < length (sh_board m)"
    and len: "length offsets = 8"
  shows "nb_initialized (sh_board m' ! my_idx) \<and> nb_ring_offsets (sh_board m' ! my_idx) = offsets \<and>
    length (sh_board m') = length (sh_board m) \<and>
    nb_consumer_heartbeat_seq (sh_board m' ! my_idx) = t_local_consumer_heartbeat_seq t + 1"
proof -
  let ?m2 = "upd_node my_idx (\<lambda>n. n\<lparr>nb_consumer_heartbeat_seq := 0,
      nb_heartbeat_interval_ms := ucast (t_heartbeat_interval_us t div US_PER_MS)\<rparr>)
      (upd_node my_idx (\<lambda>n. n\<lparr>nb_ring_offsets := replicate MAX_PRIORITY_LEVELS UINT64_MAX\<rparr>) m)"
  define m3 where "m3 = fold (\<lambda>p. if offsets ! p \<noteq> UINT64_MAX
      then upd_node my_idx (\<lambda>n. n\<lparr>nb_ring_offsets := (nb_ring_offsets n)[p := offsets ! p]\<rparr>) else id)
      [0..<MAX_PRIORITY_LEVELS] ?m2"
  have m2: "my_idx < length (sh_board ?m2)" "nb_ring_offsets (sh_board ?m2 ! my_idx) = replicate 8 UINT64_MAX"
    using idx by (simp_all add: upd_node_same MAX_PRIORITY_LEVELS_def)
  have m3: "length (sh_board m3) = length (sh_board m)" "length (nb_ring_offsets (sh_board m3 ! my_idx)) = 8"
    "\<forall>p < 8. nb_ring_offsets (sh_board m3 ! my_idx) ! p = offsets ! p"
    using publish_offsets_fold [of my_idx ?m2 "[0..<MAX_PRIORITY_LEVELS]" "length (sh_board m)" offsets] m2
    unfolding m3_def [symmetric] Let_def by (auto simp: MAX_PRIORITY_LEVELS_def)
  then have off: "nb_ring_offsets (sh_board m3 ! my_idx) = offsets" using len by (intro nth_equalityI) auto
  have m': "m' = upd_node my_idx (\<lambda>n. n\<lparr>nb_initialized := True\<rparr>)
      (upd_node my_idx (\<lambda>n. n\<lparr>nb_consumer_heartbeat_seq := t_local_consumer_heartbeat_seq t + 1\<rparr>) m3)"
    using pub idx unfolding publish_to_billboard_def m3_def
    by (simp add: Let_def error_codes split: if_splits)
  show ?thesis using idx m3 off by (simp add: m' upd_node_same)
qed

section \<open>The layout of a node's rings\<close>

definition ring_extent :: "mpsc \<Rightarrow> nat" where
  "ring_extent r = 192 + unat (r_entry_stride r) * unat (r_entry_num r)"

definition pad_nat :: "nat \<Rightarrow> nat" where
  "pad_nat a = (64 - a mod 64) mod 64"

lemma pad_nat_align: "64 dvd a + pad_nat a" "pad_nat a < 64"
proof -
  have "a mod 64 + (64 - a mod 64) = 64" by (simp add: less_imp_le)
  then have "(a + (64 - a mod 64)) mod 64 = 0" by (metis mod_add_left_eq mod_self)
  then show "64 dvd a + pad_nat a" by (simp add: pad_nat_def mod_add_right_eq mod_0_imp_dvd)
  show "pad_nat a < 64" by (simp add: pad_nat_def)
qed

lemma unat_pad_to_line: "unat (pad_to_line a) = pad_nat (unat a)"
proof -
  have m: "unat (a mod 64) = unat a mod 64" by (simp add: unat_mod_distrib)
  then have "a mod 64 \<le> 64" by (simp add: word_le_nat_alt)
  then have "unat (64 - a mod 64) = 64 - unat a mod 64" using m by (simp add: unat_diff_le)
  then show ?thesis by (simp add: pad_to_line_def pad_nat_def CACHELINE_SIZE_def unat_mod_distrib)
qed

text \<open>The bytes that a list of rings takes from an address on, over the natural numbers.\<close>

definition ring_size :: "ub_ring_desc_t \<Rightarrow> nat" where
  "ring_size d = unat (CalculateMemorySize (ring_capacity d) (desc_max_msg_size d))"

fun rings_bytes :: "ub_ring_desc_t list \<Rightarrow> nat \<Rightarrow> nat" where
  "rings_bytes [] a = 0"
| "rings_bytes (d # ds) a = (let n = pad_nat a + ring_size d in n + rings_bytes ds (a + n))"

lemma unat_advance:
  assumes "unat (a :: u64) + (pad_nat (unat a) + unat sz) < 2 ^ 64"
  shows "unat (a + pad_to_line a) = unat a + pad_nat (unat a)"
    "unat (a + pad_to_line a + sz) = unat a + (pad_nat (unat a) + unat sz)"
    "unat (pad_to_line a + sz) = pad_nat (unat a) + unat sz"
proof -
  show 1: "unat (a + pad_to_line a) = unat a + pad_nat (unat a)"
    using assms by (subst unat_add_small) (simp_all add: unat_pad_to_line)
  show "unat (a + pad_to_line a + sz) = unat a + (pad_nat (unat a) + unat sz)"
    using assms 1 by (subst unat_add_small) simp_all
  show "unat (pad_to_line a + sz) = pad_nat (unat a) + unat sz"
    using assms by (subst unat_add_small) (simp_all add: unat_pad_to_line)
qed

lemma user_rings_needed_error: "user_rings_needed ds acc a = Inl e \<Longrightarrow> e = EINVAL"
  by (induction ds arbitrary: acc a) (auto simp: Let_def split: if_splits)

lemma user_rings_needed_exact:
  "user_rings_needed ds acc a = Inr tot \<Longrightarrow> unat a + rings_bytes ds (unat a) < 2 ^ 64 \<Longrightarrow>
   unat acc + rings_bytes ds (unat a) < 2 ^ 64 \<Longrightarrow> unat tot = unat acc + rings_bytes ds (unat a)"
proof (induction ds arbitrary: acc a)
  case (Cons d ds)
  let ?size = "CalculateMemorySize (ring_capacity d) (desc_max_msg_size d)"
  have b: "unat a + (pad_nat (unat a) + unat ?size) < 2 ^ 64"
    using Cons.prems(2) by (simp add: Let_def ring_size_def)
  note adv = unat_advance [OF b]
  have tl: "unat (acc + (pad_to_line a + ?size)) = unat acc + (pad_nat (unat a) + unat ?size)"
    using Cons.prems(3) by (subst unat_add_small) (simp_all add: adv Let_def ring_size_def)
  have "user_rings_needed ds (acc + (pad_to_line a + ?size)) (a + (pad_to_line a + ?size)) = Inr tot"
    using Cons.prems(1) by (simp add: Let_def split: if_splits)
  from Cons.IH [OF this] show ?case
    using Cons.prems(2,3) adv tl by (simp add: Let_def ring_size_def add.assoc)
qed simp

text \<open>The rings built so far: aligned, from \<open>base\<close> on, below \<open>top\<close>, and disjoint.\<close>

definition placed :: "nat \<Rightarrow> nat \<Rightarrow> transport \<Rightarrow> shared \<Rightarrow> bool" where
  "placed base lim t m \<longleftrightarrow> length (t_local_rings t) = 8 \<and>
     (\<forall>p \<in> set (t_local_active_priorities t). p < 8 \<and>
        (\<exists>r. sh_rings m (t_local_rings t ! p) = Some r \<and> 64 dvd unat (t_local_rings t ! p) \<and>
           base \<le> unat (t_local_rings t ! p) \<and> unat (t_local_rings t ! p) + ring_extent r \<le> lim)) \<and>
     (\<forall>p \<in> set (t_local_active_priorities t). \<forall>q \<in> set (t_local_active_priorities t). p \<noteq> q \<longrightarrow>
        (\<forall>r r'. sh_rings m (t_local_rings t ! p) = Some r \<longrightarrow> sh_rings m (t_local_rings t ! q) = Some r' \<longrightarrow>
           unat (t_local_rings t ! p) + ring_extent r \<le> unat (t_local_rings t ! q) \<or>
           unat (t_local_rings t ! q) + ring_extent r' \<le> unat (t_local_rings t ! p)))"

lemma placed_cong:
  "t_local_rings t = t_local_rings t' \<Longrightarrow> t_local_active_priorities t = t_local_active_priorities t' \<Longrightarrow>
   sh_rings m = sh_rings m' \<Longrightarrow> placed base lim t m = placed base lim t' m'"
  by (simp add: placed_def)

lemma placed_mono: "placed base lim t m \<Longrightarrow> lim \<le> lim' \<Longrightarrow> placed base lim' t m"
  unfolding placed_def by (blast intro: order_trans)

lemma build_ring_placed:
  assumes b: "build_ring a capacity mx prio (t, m, offs) = Some (a', t', m', offs')"
    and pl: "placed base (unat a) t m" and prio: "prio < 8" "prio \<notin> set (t_local_active_priorities t)"
    and base: "base \<le> unat a"
    and fit: "unat a + (pad_nat (unat a) + unat (CalculateMemorySize capacity mx)) < 2 ^ 64"
  shows "placed base (unat a') t' m' \<and> unat a' = unat a + (pad_nat (unat a) + unat (CalculateMemorySize capacity mx)) \<and>
    t_local_active_priorities t' = t_local_active_priorities t @ [prio] \<and> t_conf t' = t_conf t"
proof -
  let ?p = "a + pad_to_line a" and ?size = "CalculateMemorySize capacity mx"
  note adv = unat_advance [OF fit]
  obtain r where r: "MPSCRingBuffer (\<lambda>j. ((sh_bytes m)(?p := 0, ?p + ?size - 1 := 0)) (?p + of_nat j)) (sh_now_us m) capacity mx = Some r"
    and a': "a' = ?p + ?size" "t_local_rings t' = (t_local_rings t)[prio := ?p]"
      "t_local_active_priorities t' = t_local_active_priorities t @ [prio]" "t_conf t' = t_conf t"
      "sh_rings m' = (sh_rings m)(?p \<mapsto> r)"
    using b by (auto simp: build_ring_def put_ring_def Let_def split: option.splits)
  obtain k where k: "k < 32" "capacity = 2 ^ k"
    using r power_of_two_iff [of capacity] by (auto simp: MPSCRingBuffer_def split: if_splits)
  have "r_entry_num r = ucast capacity" using r by (auto simp: MPSCRingBuffer_def Let_def split: if_splits)
  then have ext: "ring_extent r = unat ?size"
    using constructor_wf(6) [OF k(1) r [unfolded k(2)]] unat_memory_size [OF k(1), of capacity mx] unat_power_u32 [OF k(1)] k(2)
    by (simp add: ring_extent_def)
  have old: "t_local_rings t ! q \<noteq> ?p" if "q \<in> set (t_local_active_priorities t)" for q
  proof
    assume eq: "t_local_rings t ! q = ?p"
    obtain r' where "unat (t_local_rings t ! q) + ring_extent r' \<le> unat a" using pl \<open>q \<in> _\<close> by (auto simp: placed_def)
    then show False using eq adv by (simp add: ring_extent_def)
  qed
  have al: "64 dvd unat ?p" using adv pad_nat_align by simp
  have len: "length (t_local_rings t) = 8" using pl by (simp add: placed_def)
  have nth: "t_local_rings t' ! q = (if q = prio then ?p else t_local_rings t ! q)" for q
    using prio len by (simp add: a' nth_list_update)
  have old': "q \<in> set (t_local_active_priorities t) \<Longrightarrow> q < 8 \<and> q \<noteq> prio \<and>
      (\<exists>r. sh_rings m (t_local_rings t ! q) = Some r \<and> 64 dvd unat (t_local_rings t ! q) \<and>
        base \<le> unat (t_local_rings t ! q) \<and> unat (t_local_rings t ! q) + ring_extent r \<le> unat a)" for q
    using pl prio by (auto simp: placed_def)
  have up: "unat a' = unat a + (pad_nat (unat a) + unat ?size)" using adv a' by simp
  have A: "q < 8 \<and> (\<exists>r. sh_rings m' (t_local_rings t' ! q) = Some r \<and> 64 dvd unat (t_local_rings t' ! q) \<and>
        base \<le> unat (t_local_rings t' ! q) \<and> unat (t_local_rings t' ! q) + ring_extent r \<le> unat a')"
    if "q \<in> set (t_local_active_priorities t')" for q
  proof (cases "q = prio")
    case True
    then show ?thesis using prio al base adv ext up by (simp add: nth a'(5))
  next
    case False
    then have "q \<in> set (t_local_active_priorities t)" using that by (simp add: a')
    then show ?thesis using old' [of q] old [of q] up by (auto simp: nth a'(5))
  qed
  have above: "unat (t_local_rings t ! q) + ring_extent x \<le> unat ?p"
    if "q \<in> set (t_local_active_priorities t)" "sh_rings m (t_local_rings t ! q) = Some x" for q x
    using old' [OF that(1)] that(2) adv by auto
  have B: "unat (t_local_rings t' ! q) + ring_extent x \<le> unat (t_local_rings t' ! q') \<or>
       unat (t_local_rings t' ! q') + ring_extent x' \<le> unat (t_local_rings t' ! q)"
    if q: "q \<in> set (t_local_active_priorities t')" "q' \<in> set (t_local_active_priorities t')" "q \<noteq> q'"
      and x: "sh_rings m' (t_local_rings t' ! q) = Some x" "sh_rings m' (t_local_rings t' ! q') = Some x'" for q q' x x'
  proof -
    consider "q = prio" "q' \<in> set (t_local_active_priorities t)" "q' \<noteq> prio"
      | "q' = prio" "q \<in> set (t_local_active_priorities t)" "q \<noteq> prio"
      | "q \<in> set (t_local_active_priorities t)" "q' \<in> set (t_local_active_priorities t)" "q \<noteq> prio" "q' \<noteq> prio"
      using q prio by (auto simp: a')
    then show ?thesis
    proof cases
      case 1
      then show ?thesis using above [of q' x'] old [of q'] x by (simp add: nth a'(5))
    next
      case 2
      then show ?thesis using above [of q x] old [of q] x by (simp add: nth a'(5))
    next
      case 3
      then show ?thesis using pl q(3) old [of q] old [of q'] x by (simp add: nth a'(5) placed_def)
    qed
  qed
  have "length (t_local_rings t') = 8" using len by (simp add: a')
  then have "placed base (unat a') t' m'" unfolding placed_def using A B by blast
  then show ?thesis using up a' by simp
qed

lemma build_user_rings_placed:
  "build_user_rings ds a (t, m, offs) = Some (UB_COMM_OK, t', m', offs') \<Longrightarrow> placed base (unat a) t m \<Longrightarrow>
   base \<le> unat a \<Longrightarrow> unat a + rings_bytes ds (unat a) < 2 ^ 64 \<Longrightarrow>
   placed base (unat a + rings_bytes ds (unat a)) t' m'"
proof (induction ds arbitrary: a t m offs)
  case Nil
  then have "t_local_rings t' = t_local_rings t" "t_local_active_priorities t' = t_local_active_priorities t" "m' = m"
    by auto
  then show ?case using Nil.prems(2) placed_cong [of t' t m' m base "unat a"] by simp
next
  case (Cons d ds)
  let ?prio = "unat (desc_priority d)"
  have g: "?prio \<noteq> 0" "?prio < 8" "?prio \<notin> set (t_local_active_priorities t)"
    using Cons.prems(1) by (auto simp: Let_def error_codes MAX_PRIORITY_LEVELS_def split: if_splits)
  then obtain a1 t1 m1 offs1 where b: "build_ring a (ring_capacity d) (desc_max_msg_size d) ?prio (t, m, offs) = Some (a1, t1, m1, offs1)"
    and rest: "build_user_rings ds a1 (t1, m1, offs1) = Some (UB_COMM_OK, t', m', offs')"
    using Cons.prems(1) by (auto simp: Let_def MAX_PRIORITY_LEVELS_def split: option.splits)
  have fit: "unat a + (pad_nat (unat a) + unat (CalculateMemorySize (ring_capacity d) (desc_max_msg_size d))) < 2 ^ 64"
    using Cons.prems(4) by (simp add: Let_def ring_size_def)
  note s = build_ring_placed [OF b Cons.prems(2) g(2,3) Cons.prems(3) fit]
  have up: "unat a1 = unat a + (pad_nat (unat a) + ring_size d)" using s by (simp add: ring_size_def)
  have "base \<le> unat a1" "unat a1 + rings_bytes ds (unat a1) < 2 ^ 64"
    using Cons.prems(3,4) unfolding up by (simp_all add: Let_def)
  then have "placed base (unat a1 + rings_bytes ds (unat a1)) t' m'"
    by (rule Cons.IH [OF rest conjunct1 [OF s]])
  then show ?case unfolding up by (simp add: Let_def add.assoc)
qed

text \<open>What the rings of a node need from the start of its region on.\<close>

definition lock_desc :: ub_ring_desc_t where
  "lock_desc = \<lparr>ring_capacity = LOCK_RING_CAPACITY, desc_max_msg_size = LOCK_RING_MSG_SIZE, desc_priority = 0\<rparr>"

definition region_bytes :: "transport \<Rightarrow> nat" where
  "region_bytes t = rings_bytes (lock_desc # conf_descs (t_conf t)) (unat (t_ring_region_ptr t))"

lemma create_local_rings_placed:
  assumes c: "create_local_rings offs t m = Some (UB_COMM_OK, t', m', offs')"
    and fresh: "t_local_active_priorities t = []" "length (t_local_rings t) = 8"
    and fit: "unat (t_ring_region_ptr t) + region_bytes t < 2 ^ 64"
  shows "placed (unat (t_ring_region_ptr t)) (unat (t_ring_region_ptr t) + region_bytes t) t' m'"
proof -
  let ?a = "t_ring_region_ptr t" and ?t1 = "t\<lparr>t_max_msg_size_global := 0\<rparr>"
  obtain a1 t1 m1 offs1 where
    b: "build_ring ?a LOCK_RING_CAPACITY LOCK_RING_MSG_SIZE LOCK_RING_PRIORITY (?t1, m, offs) = Some (a1, t1, m1, offs1)"
    and rest: "build_user_rings (conf_descs (t_conf t)) a1 (t1, m1, offs1) = Some (UB_COMM_OK, t', m', offs')"
    using c by (auto simp: create_local_rings_def Let_def error_codes split: if_splits option.splits)
  have pl: "placed (unat ?a) (unat ?a) ?t1 m" using fresh by (simp add: placed_def)
  have f: "unat ?a + (pad_nat (unat ?a) + unat (CalculateMemorySize LOCK_RING_CAPACITY LOCK_RING_MSG_SIZE)) < 2 ^ 64"
    using fit by (simp add: region_bytes_def ring_size_def lock_desc_def Let_def)
  have "LOCK_RING_PRIORITY < 8" "LOCK_RING_PRIORITY \<notin> set (t_local_active_priorities ?t1)"
    using fresh by (simp_all add: LOCK_RING_PRIORITY_def)
  note s = build_ring_placed [OF b pl this order_refl f]
  have up: "unat a1 = unat ?a + (pad_nat (unat ?a) + ring_size lock_desc)"
    using s by (simp add: ring_size_def lock_desc_def)
  have "unat ?a \<le> unat a1" "unat a1 + rings_bytes (conf_descs (t_conf t)) (unat a1) < 2 ^ 64"
    using fit unfolding up by (simp_all add: region_bytes_def Let_def)
  then have "placed (unat ?a) (unat a1 + rings_bytes (conf_descs (t_conf t)) (unat a1)) t' m'"
    by (rule build_user_rings_placed [OF rest conjunct1 [OF s]])
  then show ?thesis unfolding up by (simp add: region_bytes_def Let_def add.assoc)
qed

lemma check_memory_capacity_exact:
  assumes ok: "check_memory_capacity area t = UB_COMM_OK"
    and fit: "unat (t_ring_region_ptr t) + region_bytes t < 2 ^ 64"
    and idx: "get_compact_index (unat (current_node_id (t_conf t))) t = Some i"
  shows "region_bytes t \<le> unat (t_region_sizes t ! i)"
proof -
  let ?a = "t_ring_region_ptr t" and ?size = "CalculateMemorySize LOCK_RING_CAPACITY LOCK_RING_MSG_SIZE"
  let ?n = "pad_to_line ?a + ?size"
  have f: "unat ?a + (pad_nat (unat ?a) + unat ?size) < 2 ^ 64"
    using fit by (simp add: region_bytes_def ring_size_def lock_desc_def Let_def)
  note adv = unat_advance [OF f]
  obtain tot where tot: "user_rings_needed (conf_descs (t_conf t)) ?n (?a + ?n) = Inr tot"
    "tot \<le> t_region_sizes t ! i"
    using ok idx user_rings_needed_error [of "conf_descs (t_conf t)" ?n "?a + ?n"]
    by (auto simp: check_memory_capacity_def Let_def error_codes not_less split: if_splits sum.splits)
  have "unat tot = unat ?n + rings_bytes (conf_descs (t_conf t)) (unat (?a + ?n))"
    using fit adv by (intro user_rings_needed_exact [OF tot(1)])
      (simp_all add: region_bytes_def ring_size_def lock_desc_def Let_def add.assoc)
  then have "unat tot = region_bytes t"
    using adv by (simp add: region_bytes_def ring_size_def lock_desc_def Let_def add.assoc)
  then show ?thesis using tot(2) by (simp add: word_le_nat_alt)
qed

section \<open>Properties\<close>

text \<open>C9. The node mapping. If \<open>build_node_mapping\<close> succeeds, the indices \<open>0 .. max_nodes - 1\<close> and the
  node ids of the ring map correspond one to one, in increasing order of the ids; every id
  is below \<open>MAX_NODES_LIMIT\<close>, the node itself is among them, and two nodes whose ring maps
  name the same set of ids, in whatever order and with whatever repetitions, get the same
  mapping.\<close>

theorem node_mapping_bijection:
  assumes t: "build_node_mapping rm t = (0, t')" and u: "build_node_mapping rm2 u = (0, u')"
    and same: "set (map_ids rm) = set (map_ids rm2)"
  shows "(\<forall>i nid. i < length (t_idx_to_node_id t') \<and> t_idx_to_node_id t' ! i = nid \<longleftrightarrow>
            get_compact_index nid t' = Some i) \<and>
         sorted (t_idx_to_node_id t') \<and> distinct (t_idx_to_node_id t') \<and>
         set (t_idx_to_node_id t') = set (map_ids rm) \<and> set (map_ids rm) \<subseteq> {..<MAX_NODES_LIMIT} \<and>
         length (t_idx_to_node_id t') = unat (max_nodes (t_conf t)) \<and>
         unat (current_node_id (t_conf t)) \<in> set (map_ids rm) \<and>
         t_idx_to_node_id u' = t_idx_to_node_id t' \<and> t_node_id_to_idx u' = t_node_id_to_idx t'"
proof -
  let ?s = "sort (remdups (map_ids rm))"
  have b: "build_node_mapping rm0 t0 = (0, t0') \<Longrightarrow>
      t_idx_to_node_id t0' = sort (remdups (map_ids rm0)) \<and>
      t_node_id_to_idx t0' = map_of (zip (t_idx_to_node_id t0') [0..<length (t_idx_to_node_id t0')]) \<and>
      (\<forall>nid \<in> set (map_ids rm0). nid < MAX_NODES_LIMIT) \<and>
      length (remdups (map_ids rm0)) = unat (max_nodes (t_conf t0)) \<and>
      unat (current_node_id (t_conf t0)) \<in> set (map_ids rm0)" for rm0 t0 t0'
    by (auto simp: build_node_mapping_def map_ids_def [symmetric] Let_def list_ex_iff EINVAL_def split: if_splits)
  have i: "t_idx_to_node_id t' = ?s" "t_node_id_to_idx t' = map_of (zip ?s [0..<length ?s])"
    "\<forall>nid \<in> set (map_ids rm). nid < MAX_NODES_LIMIT" "length (remdups (map_ids rm)) = unat (max_nodes (t_conf t))"
    "unat (current_node_id (t_conf t)) \<in> set (map_ids rm)"
    using b [OF t] by simp_all
  have j: "t_idx_to_node_id u' = ?s" "t_node_id_to_idx u' = map_of (zip ?s [0..<length ?s])"
    using b [OF u] sort_remdups_set [OF same] by simp_all
  have d: "distinct ?s" by simp
  have bij: "k < length ?s \<and> ?s ! k = nid \<longleftrightarrow> get_compact_index nid t' = Some k" for k nid
    unfolding get_compact_index_def i(2)
    using map_of_zip_index [OF d, of k] map_of_zip_index_Some [of ?s nid k] by auto
  show ?thesis using i j d bij by auto
qed

definition sample_map :: "nat list \<Rightarrow> ub_ring_region_map_t" where
  "sample_map ids = \<lparr>map_entries = Some (\<lambda>i. \<lparr>region = \<lparr>area_size = 2 ^ 24, area_ptr = 2 ^ 30 * (of_nat i + 1)\<rparr>,
     region_node_id = of_nat (ids ! i)\<rparr>), map_count = of_nat (length ids)\<rparr>"

definition sample_conf :: ub_comm_conf_t where
  "sample_conf = \<lparr>conf_cpu_id = - 1, max_nodes = 2, current_node_id = 3, num_rings = 1,
     ring_descs = Some (\<lambda>_. \<lparr>ring_capacity = 4, desc_max_msg_size = 64, desc_priority = 1\<rparr>)\<rparr>"

definition sample_transport :: transport where
  "sample_transport = (UBShmTransport 8)\<lparr>t_conf := sample_conf, t_init_region_ptr := 4096\<rparr>"

theorem node_mapping_bijection_witness:
  "t_idx_to_node_id (snd (build_node_mapping (sample_map [9, 3]) sample_transport)) =
   t_idx_to_node_id (snd (build_node_mapping (sample_map [3, 9, 3]) sample_transport))"
proof -
  have ids: "map_ids (sample_map [9, 3]) = [9, 3]" "map_ids (sample_map [3, 9, 3]) = [3, 9, 3]"
    by (simp_all add: map_ids_def map_list_def sample_map_def upt_conv_Cons)
  have r: "fst (build_node_mapping (sample_map [9, 3]) sample_transport) = 0"
    "fst (build_node_mapping (sample_map [3, 9, 3]) sample_transport) = 0"
    by (simp_all add: build_node_mapping_def map_ids_def [symmetric] ids Let_def sample_transport_def
        sample_conf_def UBShmTransport_def MAX_NODES_LIMIT_def)
  have ok: "x = (0, snd x)" if "fst x = 0" for x :: "int \<times> transport" using that by (cases x) simp
  have same: "set (map_ids (sample_map [9, 3])) = set (map_ids (sample_map [3, 9, 3]))" unfolding ids by auto
  show ?thesis using node_mapping_bijection [OF ok [OF r(1)] ok [OF r(2)] same] by simp
qed

text \<open>The same node with its mapping and regions in place, and a memory in which no node has published
  anything.\<close>

definition sample_ready :: transport where
  "sample_ready = sample_transport\<lparr>t_node_id_to_idx := [3 \<mapsto> 0, 9 \<mapsto> 1], t_idx_to_node_id := [3, 9],
     t_region_bases := [2 ^ 31, 2 ^ 30], t_region_sizes := [2 ^ 24, 2 ^ 24], t_ring_region_ptr := 2 ^ 31,
     t_remote_lookup_table := replicate 2 (replicate 8 0)\<rparr>"

definition sample_shared :: shared where
  "sample_shared = \<lparr>sh_board = replicate 16 \<lparr>nb_initialized = False, nb_ring_offsets = replicate 8 UINT64_MAX,
     nb_consumer_heartbeat_seq = 0, nb_heartbeat_interval_ms = 0, nb_cache_probe_pad = 0\<rparr>,
     sh_rings = Map.empty, sh_bytes = (\<lambda>_. 0), sh_now_us = 1\<rparr>"

lemma build_ring_accepts:
  assumes "k < 32"
  shows "\<exists>a' t' m' offs'. build_ring a (2 ^ k) mx prio (t, m, offs) = Some (a', t', m', offs') \<and>
    t_local_active_priorities t' = t_local_active_priorities t @ [prio]"
proof -
  let ?p = "a + pad_to_line a" and ?size = "CalculateMemorySize (2 ^ k) mx"
  obtain r where "MPSCRingBuffer (\<lambda>j. ((sh_bytes m)(?p := 0, ?p + ?size - 1 := 0)) (?p + of_nat j)) (sh_now_us m) (2 ^ k) mx = Some r"
    using constructor_accepts [OF assms] by blast
  then show ?thesis by (simp add: build_ring_def Let_def)
qed

lemma sample_create:
  obtains t' m' offs' where "create_local_rings (replicate 8 UINT64_MAX) sample_ready sample_shared = Some (UB_COMM_OK, t', m', offs')"
proof -
  have d: "conf_descs (t_conf sample_ready) = [\<lparr>ring_capacity = 2 ^ 2, desc_max_msg_size = 64, desc_priority = 1\<rparr>]"
    by (simp add: conf_descs_def sample_ready_def sample_transport_def sample_conf_def)
  have act: "t_local_active_priorities sample_ready = []"
    by (simp add: sample_ready_def sample_transport_def UBShmTransport_def)
  obtain a1 t1 m1 offs1 where b: "build_ring (t_ring_region_ptr sample_ready) (2 ^ 12) LOCK_RING_MSG_SIZE LOCK_RING_PRIORITY
      (sample_ready\<lparr>t_max_msg_size_global := 0\<rparr>, sample_shared, replicate 8 UINT64_MAX) = Some (a1, t1, m1, offs1)"
    "t_local_active_priorities t1 = [0]"
    using build_ring_accepts [of 12 "t_ring_region_ptr sample_ready" LOCK_RING_MSG_SIZE LOCK_RING_PRIORITY
        "sample_ready\<lparr>t_max_msg_size_global := 0\<rparr>" sample_shared "replicate 8 UINT64_MAX"]
    by (auto simp: act LOCK_RING_PRIORITY_def)
  obtain a2 t2 m2 offs2 where "build_ring a1 (2 ^ 2) 64 1 (t1, m1, offs1) = Some (a2, t2, m2, offs2)"
    using build_ring_accepts [of 2 a1 64 1 t1 m1 offs1] by auto
  then have "build_user_rings (conf_descs (t_conf sample_ready)) a1 (t1, m1, offs1) =
      Some (UB_COMM_OK, t2\<lparr>t_max_msg_size_global := t_max_msg_size_global t2 + (of_nat MSG_HEADER_LEN + 64)\<rparr>, m2, offs2)"
    using b(2) by (simp add: d Let_def MAX_PRIORITY_LEVELS_def)
  then show ?thesis
    using b(1) by (intro that) (simp add: create_local_rings_def LOCK_RING_CAPACITY_def MAX_PRIORITY_LEVELS_def Let_def)
qed

text \<open>C5. The rings of a node fit. If the capacity check passes and the sizes it adds up do not wrap
  around the address space, then after \<open>create_local_rings\<close> every ring is aligned to a cache
  line, lies between the start and the end of the node's region, and no two rings overlap.\<close>

theorem local_rings_fit:
  assumes chk: "check_memory_capacity area t = UB_COMM_OK"
    and idx: "get_compact_index (unat (current_node_id (t_conf t))) t = Some i"
    and c: "create_local_rings offs t m = Some (UB_COMM_OK, t', m', offs')"
    and fresh: "t_local_active_priorities t = []" "length (t_local_rings t) = 8"
    and fit: "unat (t_ring_region_ptr t) + region_bytes t < 2 ^ 64"
  shows "placed (unat (t_ring_region_ptr t)) (unat (t_ring_region_ptr t) + unat (t_region_sizes t ! i)) t' m'"
proof -
  have "placed (unat (t_ring_region_ptr t)) (unat (t_ring_region_ptr t) + region_bytes t) t' m'"
    by (rule create_local_rings_placed [OF c fresh fit])
  moreover have "region_bytes t \<le> unat (t_region_sizes t ! i)"
    by (rule check_memory_capacity_exact [OF chk fit idx])
  ultimately show ?thesis by (rule placed_mono [OF _ add_left_mono])
qed

theorem local_rings_fit_witness:
  "\<exists>t' m' offs'. create_local_rings (replicate 8 UINT64_MAX) sample_ready sample_shared = Some (UB_COMM_OK, t', m', offs') \<and>
     placed (2 ^ 31) (2 ^ 31 + 2 ^ 24) t' m'"
proof -
  obtain t' m' offs' where c: "create_local_rings (replicate 8 UINT64_MAX) sample_ready sample_shared = Some (UB_COMM_OK, t', m', offs')"
    by (rule sample_create)
  note s = sample_ready_def sample_transport_def sample_conf_def UBShmTransport_def
  have idx: "get_compact_index (unat (current_node_id (t_conf sample_ready))) sample_ready = Some 0"
    by (simp add: get_compact_index_def s)
  have sz: "CalculateMemorySize 4096 128 = 786624" "CalculateMemorySize 4 64 = 704"
    by (simp_all add: CalculateMemorySize_def align_cacheline_def ENTRY_HEADER_def GetDataOffset_def SIZEOF_MPSC_def
        CACHELINE_SIZE_def)
  have b: "region_bytes sample_ready = 787328"
    by (simp add: region_bytes_def s conf_descs_def ring_size_def lock_desc_def sz
        LOCK_RING_CAPACITY_def LOCK_RING_MSG_SIZE_def pad_nat_def Let_def)
  have chk: "check_memory_capacity \<lparr>area_size = 2048, area_ptr = 4096\<rparr> sample_ready = UB_COMM_OK"
    by (simp add: check_memory_capacity_def s conf_descs_def pad_to_line_def get_compact_index_def sz
        LOCK_RING_CAPACITY_def LOCK_RING_MSG_SIZE_def SIZEOF_BILLBOARD_def SIZEOF_MESSAGE_T_def MAX_PRIORITY_LEVELS_def
        CACHELINE_SIZE_def)
  have f: "t_local_active_priorities sample_ready = []" "length (t_local_rings sample_ready) = 8"
    "unat (t_ring_region_ptr sample_ready) = 2 ^ 31" "unat (t_region_sizes sample_ready ! 0) = 2 ^ 24"
    by (simp_all add: s MAX_PRIORITY_LEVELS_def)
  have "unat (t_ring_region_ptr sample_ready) + region_bytes sample_ready < 2 ^ 64" by (simp add: f b)
  then have "placed (2 ^ 31) (2 ^ 31 + 2 ^ 24) t' m'"
    using local_rings_fit [OF chk idx c f(1,2)] unfolding f(3,4) by simp
  then show ?thesis using c by blast
qed

text \<open>C8. What a node publishes is what the others find. After a successful \<open>publish_to_billboard\<close>,
  a node with the same mapping that has not looked the ring up before gets, for each
  priority, its own base address of the publisher's region plus the published offset, or
  \<open>UB_COMM_ERR_RING_NOT_FOUND\<close> for a priority without a ring.\<close>

theorem publish_lookup_roundtrip:
  assumes pub: "publish_to_billboard offs t m = (UB_COMM_OK, t', m')"
    and t: "get_compact_index (unat (current_node_id (t_conf t))) t = Some i" "i < length (sh_board m)" "length offs = 8"
    and u: "get_compact_index (unat (current_node_id (t_conf t))) u = Some i" "t_remote_lookup_table u ! i ! prio = 0"
      "t_init_region_ptr u \<noteq> 0" "t_region_bases u ! i \<noteq> 0" and prio: "prio < 8"
  shows "fst (get_remote_ring (unat (current_node_id (t_conf t))) prio True u m') =
    (if offs ! prio = UINT64_MAX then (UB_COMM_ERR_RING_NOT_FOUND, 0) else (UB_COMM_OK, t_region_bases u ! i + offs ! prio))"
proof -
  note n = publish_node [OF pub t]
  then have "i < length (sh_board m')" using t by simp
  then show ?thesis
    using n u prio by (simp add: get_remote_ring_def force_refresh_node MAX_PRIORITY_LEVELS_def Let_def)
qed

theorem publish_lookup_roundtrip_witness:
  "\<exists>t' m'. publish_to_billboard [0, 4096, UINT64_MAX, UINT64_MAX, UINT64_MAX, UINT64_MAX, UINT64_MAX, UINT64_MAX]
       sample_ready sample_shared = (UB_COMM_OK, t', m') \<and>
     fst (get_remote_ring 3 1 True (sample_ready\<lparr>t_conf := sample_conf\<lparr>current_node_id := 9\<rparr>\<rparr>) m') = (UB_COMM_OK, 2 ^ 31 + 4096)"
proof -
  let ?offs = "[0, 4096, UINT64_MAX, UINT64_MAX, UINT64_MAX, UINT64_MAX, UINT64_MAX, UINT64_MAX]"
  note s = sample_ready_def sample_transport_def sample_conf_def UBShmTransport_def
  have idx: "get_compact_index 3 sample_ready = Some 0" by (simp add: get_compact_index_def s)
  have cur: "unat (current_node_id (t_conf sample_ready)) = 3" by (simp add: s)
  obtain t' m' where pub: "publish_to_billboard ?offs sample_ready sample_shared = (UB_COMM_OK, t', m')"
    using idx cur by (simp add: publish_to_billboard_def CACHELINE_SIZE_def Let_def s)
  have "fst (get_remote_ring 3 1 True (sample_ready\<lparr>t_conf := sample_conf\<lparr>current_node_id := 9\<rparr>\<rparr>) m') = (UB_COMM_OK, 2 ^ 31 + 4096)"
    using publish_lookup_roundtrip [OF pub, unfolded cur, OF idx, of "sample_ready\<lparr>t_conf := sample_conf\<lparr>current_node_id := 9\<rparr>\<rparr>" 1] idx
    by (simp add: get_compact_index_def sample_shared_def UINT64_MAX_def) (simp add: s)
  then show ?thesis using pub by blast
qed

text \<open>C26. A cluster of more than eight nodes cannot be initialised, although \<open>MAX_NODES_LIMIT\<close> is
  sixteen: the validation compares the number of entries of the ring map, one per node,
  with the number of priorities.\<close>

theorem large_cluster_rejected:
  assumes "8 < unat (max_nodes c)"
  shows "\<exists>t'. init_publish cpu_num alloc_ok this area rm (Some c) t m = Some (EINVAL, t', m)"
proof (cases "fst (setup_config_and_validate cpu_num area rm (Some c) t) = 0")
  case False
  then have "fst (setup_config_and_validate cpu_num area rm (Some c) t) = EINVAL"
    by (auto simp: setup_config_and_validate_def split: option.splits if_splits)
  then show ?thesis by (cases "setup_config_and_validate cpu_num area rm (Some c) t") (simp add: init_publish_def EINVAL_def)
next
  case True
  then obtain r where r: "rm = Some r" "unat (map_count r) \<le> 8"
    by (auto simp: setup_config_and_validate_def EINVAL_def MAX_PRIORITY_LEVELS_def split: option.splits if_splits)
  obtain t1 where t1: "setup_config_and_validate cpu_num area rm (Some c) t = (0, t1)"
    using True by (cases "setup_config_and_validate cpu_num area rm (Some c) t") simp
  have conf: "t_conf t1 = c"
    using t1 by (auto simp: setup_config_and_validate_def EINVAL_def split: option.splits if_splits)
  have "length (map_ids r) \<le> 8" using r by (auto simp: map_ids_def map_list_def split: option.splits)
  then have "length (remdups (map_ids r)) \<noteq> unat (max_nodes (t_conf t1))"
    using assms le_trans [OF length_remdups_leq [of "map_ids r"]] conf by fastforce
  then have "build_node_mapping r t1 = (EINVAL, t1)"
    by (simp add: build_node_mapping_def map_ids_def [symmetric] Let_def)
  then show ?thesis using t1 r by (simp add: init_publish_def EINVAL_def)
qed

theorem large_cluster_rejected_witness:
  "\<exists>t'. init_publish 8 True 64 (Some \<lparr>area_size = 2048, area_ptr = 4096\<rparr>) (Some (sample_map [0..<9]))
     (Some (sample_conf\<lparr>max_nodes := 9\<rparr>)) (UBShmTransport 8) sample_shared = Some (EINVAL, t', sample_shared)"
  by (rule large_cluster_rejected) (simp add: sample_conf_def)

end
