(* ===== verification/Transport_Run.thy ===== *)
theory Transport_Run
  imports Transport_Init
begin

text \<open>
  The transport at work, the rest of \<open>src/ub_comm_queue/UBShmTransport.cpp\<close>: dispatching received
  messages to callbacks, polling the rings in priority order, the heartbeat monitor, status and
  configuration calls, and shutdown. The two endless loops, the dispatcher's and the monitor's,
  are given by one round each.
\<close>

section \<open>Queries and configuration\<close>

definition query_inited :: "u8 \<Rightarrow> transport \<Rightarrow> shared \<Rightarrow> bool \<times> transport \<times> shared" where
  "query_inited nid t m =
     (if t_node_id_to_idx t (unat nid) = None then (False, t, m)
      else if nid = current_node_id (t_conf t) then (t_init_complete t, t, m)
      else case try_populate_cache (unat nid) 0 t m of (r, t', m') \<Rightarrow> (r = Returned UB_COMM_OK, t', m'))"

text \<open>Status of a ring; the out parameter is \<open>None\<close> if it is not written.\<close>

definition transport_get_status ::
  "u8 \<Rightarrow> u8 \<Rightarrow> bool \<Rightarrow> transport \<Rightarrow> shared \<Rightarrow> outcome \<times> ub_comm_queue_status_t option \<times> transport \<times> shared" where
  "transport_get_status nid prio status_null t m =
     (if status_null then (Returned EINVAL, None, t, m)
      else if unat prio \<ge> MAX_PRIORITY_LEVELS then (Returned EINVAL, None, t, m)
      else
        let read = (\<lambda>ring t m. case sh_rings m ring of
              None \<Rightarrow> (Out_of_bounds, None, t, m)
            | Some r \<Rightarrow> (case get_status (quiet r) of
                (s, w) \<Rightarrow> (Returned UB_COMM_OK, Some s, t, put_ring ring (st w) m))) in
        if nid = current_node_id (t_conf t) then
          let ring = t_local_rings t ! unat prio in
          if ring = 0 then (Returned UB_COMM_ERR_RING_NOT_FOUND, None, t, m) else read ring t m
        else case get_remote_ring (unat nid) (unat prio) True t m of
          ((ret, ring), t', m') \<Rightarrow> if ret \<noteq> UB_COMM_OK then (Returned ret, None, t', m') else read ring t' m')"

definition set_congestion_threshold ::
  "u8 \<Rightarrow> u32 \<Rightarrow> transport \<Rightarrow> shared \<Rightarrow> outcome \<times> transport \<times> shared" where
  "set_congestion_threshold prio percent t m =
     (if unat prio = LOCK_RING_PRIORITY \<or> unat prio \<ge> MAX_PRIORITY_LEVELS then (Returned EINVAL, t, m)
      else
        let ring = t_local_rings t ! unat prio in
        if ring = 0 then (Returned UB_COMM_ERR_RING_NOT_FOUND, t, m)
        else case sh_rings m ring of
          None \<Rightarrow> (Out_of_bounds, t, m)
        | Some r \<Rightarrow>
            (case configure_congestion_threshold percent (quiet r) of
               (ret, w) \<Rightarrow>
                 let m1 = put_ring ring (st w) m in
                 if ret \<noteq> UB_COMM_OK then (Returned ret, t, m1)
                 else case broadcast_flow_config_update (unat prio) (r_threshold (st w)) (r_threshold_version (st w)) t m1 of
                   (rs, t', m') \<Rightarrow> (Returned UB_COMM_OK, t', m')))"

record ub_comm_queue_heartbeat_config_t =
  heartbeat_interval_ms :: u32
  check_interval_ms :: u32
  timeout_ms :: u32

definition apply_heartbeat_config ::
  "ub_comm_queue_heartbeat_config_t \<Rightarrow> transport \<Rightarrow> shared \<Rightarrow> transport \<times> shared" where
  "apply_heartbeat_config q t m =
     (let t1 = t\<lparr>t_heartbeat_interval_us := ucast (heartbeat_interval_ms q) * US_PER_MS,
                 t_heartbeat_check_interval_us := ucast (check_interval_ms q) * US_PER_MS,
                 t_heartbeat_timeout_us := ucast (timeout_ms q) * US_PER_MS\<rparr>
      in (t1, case get_compact_index (unat (current_node_id (t_conf t1))) t1 of
                None \<Rightarrow> m
              | Some my_idx \<Rightarrow>
                  if t_init_region_ptr t1 = 0 then m
                  else upd_node my_idx (\<lambda>n. n\<lparr>nb_heartbeat_interval_ms := heartbeat_interval_ms q\<rparr>) m))"

definition effective_heartbeat_config :: "transport \<Rightarrow> ub_comm_queue_heartbeat_config_t" where
  "effective_heartbeat_config t = \<lparr>
     heartbeat_interval_ms = ucast (t_heartbeat_interval_us t div US_PER_MS),
     check_interval_ms = ucast (t_heartbeat_check_interval_us t div US_PER_MS),
     timeout_ms = ucast (t_heartbeat_timeout_us t div US_PER_MS)\<rparr>"

text \<open>\<open>want\<close> says that the out parameter is not null; the second result is what is written there.\<close>

definition config_heartbeat ::
  "ub_comm_queue_heartbeat_config_t option \<Rightarrow> bool \<Rightarrow> transport \<Rightarrow> shared
   \<Rightarrow> int \<times> ub_comm_queue_heartbeat_config_t option \<times> transport \<times> shared" where
  "config_heartbeat request want t m =
     (case request of
        None \<Rightarrow> if \<not> want then (EINVAL, None, t, m) else (UB_COMM_OK, Some (effective_heartbeat_config t), t, m)
      | Some q \<Rightarrow>
          if heartbeat_interval_ms q = 0 \<or> check_interval_ms q = 0 \<or> timeout_ms q = 0 \<or>
             (ucast (timeout_ms q) :: u64) < 2 * ucast (check_interval_ms q)
          then (EINVAL, None, t, m)
          else case apply_heartbeat_config q t m of
            (t', m') \<Rightarrow> (UB_COMM_OK, if want then Some (effective_heartbeat_config t') else None, t', m'))"

definition recv :: "transport \<Rightarrow> int" where
  "recv t = 0"

definition get_is_for_lock :: "transport \<Rightarrow> bool" where
  "get_is_for_lock t = t_is_for_lock t"

definition set_is_for_lock :: "bool \<Rightarrow> transport \<Rightarrow> int \<times> transport" where
  "set_is_for_lock b t = (0, t\<lparr>t_is_for_lock := b\<rparr>)"

section \<open>Heartbeats\<close>

definition run_consumer_heartbeat_round :: "transport \<Rightarrow> shared \<Rightarrow> transport \<times> shared" where
  "run_consumer_heartbeat_round t m =
     (if t_reliability_stop_flag t then (t, m) else refresh_local_consumer_heartbeat t m)"

definition effective_timeout_us :: "u32 \<Rightarrow> transport \<Rightarrow> u64" where
  "effective_timeout_us remote_interval_ms t =
     (let remote_interval_ms = (if remote_interval_ms = 0 then DEFAULT_HEARTBEAT_INTERVAL_MS else remote_interval_ms)
      in max (t_heartbeat_timeout_us t)
           (max (ucast remote_interval_ms * 3 * US_PER_MS) (t_heartbeat_check_interval_us t * 2)))"

text \<open>The monitor's look at one node.\<close>

definition check_peer :: "u64 \<Rightarrow> nat \<Rightarrow> transport \<times> shared \<Rightarrow> transport \<times> shared" where
  "check_peer now idx = (\<lambda>(t, m).
     let nid = t_idx_to_node_id t ! idx in
     if nid = unat (current_node_id (t_conf t)) \<or> nid \<ge> MAX_NODES_LIMIT then (t, m)
     else
       let m1 = force_refresh_whole_struct idx m; node = sh_board m1 ! idx in
       if \<not> nb_initialized node then (t, m1)
       else
         let heartbeat_seq = nb_consumer_heartbeat_seq node;
             timeout = effective_timeout_us (nb_heartbeat_interval_ms node) t;
             t1 = t\<lparr>t_peer_heartbeat_timeout_us := (t_peer_heartbeat_timeout_us t)[nid := timeout]\<rparr> in
         if heartbeat_seq \<noteq> 0 \<and> heartbeat_seq \<noteq> t_peer_heartbeat_seq t1 ! nid then
           (t1\<lparr>t_peer_heartbeat_seq := (t_peer_heartbeat_seq t1)[nid := heartbeat_seq],
               t_peer_heartbeat_seen_us := (t_peer_heartbeat_seen_us t1)[nid := now],
               t_peer_alive := (t_peer_alive t1)[nid := True]\<rparr>, m1)
         else
           let last_seen = t_peer_heartbeat_seen_us t1 ! nid;
               alive = (last_seen \<noteq> 0 \<and> now \<ge> last_seen \<and> now - last_seen \<le> timeout)
           in (t1\<lparr>t_peer_alive := (t_peer_alive t1)[nid := alive]\<rparr>, m1))"

definition run_producer_heartbeat_round :: "transport \<Rightarrow> shared \<Rightarrow> transport \<times> shared" where
  "run_producer_heartbeat_round t m =
     (if t_reliability_stop_flag t then (t, m)
      else fold (check_peer (sh_now_us m)) [0..<min (length (t_idx_to_node_id t)) MAX_NODES_LIMIT] (t, m))"

section \<open>Dispatching\<close>

text \<open>A message for an asynchronous callback is copied into a task of the pool; \<open>alloc_ok\<close> is
  whether the allocations succeed.\<close>

definition dispatch_internal :: "bool \<Rightarrow> u8 list \<Rightarrow> transport \<Rightarrow> int \<times> transport" where
  "dispatch_internal alloc_ok bytes t =
     (if length bytes < MSG_HEADER_LEN then (EMSGSIZE, t)
      else
        let hdr = header_of_bytes bytes; info = t_callbacks t (msg_type hdr) in
        if cb_func info = No_callback then (ENOENT, t)
        else
          let k = \<lparr>task_func = cb_func info, task_ctx = cb_ctx info, task_header = hdr,
                   task_body = drop MSG_HEADER_LEN bytes\<rparr> in
          if cb_type info = UB_FUNC_SYNC then (0, run_callback k t)
          else case t_worker_pool t of
            None \<Rightarrow> (EPIPE, t)
          | Some pool \<Rightarrow>
              if \<not> alloc_ok then (ENOMEM, t)
              else case pool_enqueue k pool of
                Inl e \<Rightarrow> (EPIPE, t)
              | Inr pool' \<Rightarrow> (0, t\<lparr>t_worker_pool := Some pool'\<rparr>))"

definition MAX_BATCH_PER_POLL :: nat where "MAX_BATCH_PER_POLL = 8192"

text \<open>The polling loop: \<open>n\<close> is what may still be processed in this batch and \<open>ps\<close> the priorities
  from \<open>current_idx\<close> on. After a message the loop starts over at the most urgent priority.\<close>

function poll_loop ::
  "(nat \<Rightarrow> bool) \<Rightarrow> nat \<Rightarrow> nat list \<Rightarrow> nat \<Rightarrow> transport \<Rightarrow> shared \<Rightarrow> nat \<times> transport \<times> shared" where
  "poll_loop alloc_ok total_processed [] n t m = (total_processed, t, m)"
| "poll_loop alloc_ok total_processed (prio # ps) 0 t m = (total_processed, t, m)"
| "poll_loop alloc_ok total_processed (prio # ps) (Suc n) t m =
     (let ring = t_local_rings t ! prio in
      if ring = 0 then poll_loop alloc_ok total_processed ps (Suc n) t m
      else case sh_rings m ring of
        None \<Rightarrow> (total_processed, t, m)
      | Some r \<Rightarrow>
          (case dequeue ring (t_max_msg_size_global t) (t_consumer t) (quiet (r\<lparr>r_clock_us := sh_now_us m\<rparr>)) of
             ((len, bytes), c, w) \<Rightarrow>
               let t1 = t\<lparr>t_consumer := c\<rparr>; m1 = put_ring ring (st w) m in
               if len > 0 then
                 case dispatch_internal (alloc_ok total_processed) bytes t1 of
                   (ret, t2) \<Rightarrow> poll_loop alloc_ok (Suc total_processed) (t_local_active_priorities t2) n t2 m1
               else poll_loop alloc_ok total_processed ps (Suc n) t1 m1))"
  by pat_completeness auto
termination
  by (relation "measures [\<lambda>(a, k, ps, n, t, m). n, \<lambda>(a, k, ps, n, t, m). length ps]") auto

definition poll_and_dispatch_once :: "(nat \<Rightarrow> bool) \<Rightarrow> transport \<Rightarrow> shared \<Rightarrow> nat \<times> transport \<times> shared" where
  "poll_and_dispatch_once alloc_ok t m =
     poll_loop alloc_ok 0 (t_local_active_priorities t) MAX_BATCH_PER_POLL t m"

text \<open>One round of the dispatcher thread.\<close>

definition run_dispatcher_round :: "(nat \<Rightarrow> bool) \<Rightarrow> transport \<Rightarrow> shared \<Rightarrow> transport \<times> shared" where
  "run_dispatcher_round alloc_ok t m =
     (if t_stop_flag t then (t, m) else snd (poll_and_dispatch_once alloc_ok t m))"

section \<open>Shutdown\<close>

definition force_full :: "u64 \<Rightarrow> shared \<Rightarrow> shared" where
  "force_full p m =
     (if p = 0 then m
      else case sh_rings m p of
        None \<Rightarrow> m
      | Some r \<Rightarrow> put_ring p (st (trigger_force_full (quiet r))) m)"

definition clear_board :: "nat \<Rightarrow> shared \<Rightarrow> shared" where
  "clear_board idx m = upd_node idx (\<lambda>n. n\<lparr>nb_ring_offsets := replicate MAX_PRIORITY_LEVELS UINT64_MAX,
     nb_initialized := False, nb_consumer_heartbeat_seq := 0, nb_heartbeat_interval_ms := 0,
     nb_cache_probe_pad := 57005\<rparr>) m"

text \<open>The thread id of the exit message is never set.\<close>

definition exit_message :: "u64 \<Rightarrow> transport \<Rightarrow> nat \<Rightarrow> message_t" where
  "exit_message junk t dest = \<lparr>
     m_header = \<lparr>src_thread_id = junk, body_length = 0, dest_node_id = of_nat dest,
       src_node_id = current_node_id (t_conf t), msg_type = MSG_TYPE_SYS_PEER_EXIT, priority = 0\<rparr>,
     m_body = None\<rparr>"

definition broadcast_exit :: "u64 \<Rightarrow> transport \<Rightarrow> shared \<Rightarrow> transport \<times> shared" where
  "broadcast_exit junk t m =
     fold (\<lambda>i (t, m).
         if t_idx_to_node_id t ! i = unat (current_node_id (t_conf t)) \<or> t_remote_lookup_table t ! i ! 0 = 0
         then (t, m)
         else snd (send (Some (exit_message junk t (t_idx_to_node_id t ! i))) t m))
       [0..<length (t_idx_to_node_id t)] (t, m)"

text \<open>Deleting the pool waits until it has run all its tasks, here in the order of the queue. This is
  the destructor that returns; \<open>Thread_Pool\<close> shows when it does, and that it may hang.\<close>

definition drain_pool :: "transport \<Rightarrow> transport" where
  "drain_pool t =
     (case t_worker_pool t of
        None \<Rightarrow> t
      | Some pool \<Rightarrow> (fold run_callback (p_queue pool) t)\<lparr>t_worker_pool := None\<rparr>)"

definition deinit_and_broadcast :: "u64 \<Rightarrow> transport \<Rightarrow> shared \<Rightarrow> transport \<times> shared" where
  "deinit_and_broadcast junk t m =
     (let t1 = stop_reliability_threads (t\<lparr>t_stop_flag := True\<rparr>);
          (t2, m2) =
            (if t_init_complete t1 then
               let ma = fold force_full (t_local_rings t1) m;
                   mb = (if t_init_region_ptr t1 = 0 then ma
                         else clear_board (the (get_compact_index (unat (current_node_id (t_conf t1))) t1)) ma)
               in broadcast_exit junk t1 mb
             else (t1, m))
      in (drain_pool t2, m2))"

end
