(* ===== verification/Comm_Api.thy ===== *)
theory Comm_Api
  imports Transport_Run
begin

text \<open>
  The C interface of the communication queue, \<open>src/ub_comm_queue/ub_dist_comm_queue.cpp\<close>: handles to
  transport instances, the global instance that serves the distributed locks, and the guards in
  front of the transport's operations. Also the logger of \<open>ub_atomic_log_print.cpp\<close>, which the
  other theories leave out because it does not change their state.
\<close>

section \<open>Instances and handles\<close>

text \<open>The instances of a process by address, and the global pointer. A handle argument is \<open>None\<close> if it
  is a null pointer, and otherwise the pointer stored there.\<close>

record process =
  pr_transports :: "u64 \<rightharpoonup> transport"
  pr_g_transport :: u64

definition EFAULT :: int where "EFAULT = - 14"

text \<open>What a call returns, and the handle afterwards.\<close>

definition put_transport :: "u64 \<Rightarrow> transport \<Rightarrow> process \<Rightarrow> process" where
  "put_transport p t pr = pr\<lparr>pr_transports := (pr_transports pr)(p \<mapsto> t)\<rparr>"

definition delete_transport :: "u64 \<Rightarrow> u64 \<Rightarrow> process \<Rightarrow> shared \<Rightarrow> process \<times> shared" where
  "delete_transport junk p pr m =
     (case pr_transports pr p of
        None \<Rightarrow> (pr, m)
      | Some t \<Rightarrow> (case deinit_and_broadcast junk t m of
          (t', m') \<Rightarrow> (pr\<lparr>pr_transports := (pr_transports pr)(p := None)\<rparr>, m')))"

text \<open>\<open>this\<close> is the address of the new instance, 0 if the allocation fails. A constructor exception
  inside \<open>init\<close> ends in \<open>-EFAULT\<close>; the outer \<open>None\<close> is the wait for the cluster that never ends.\<close>

definition ub_comm_queue_init ::
  "nat \<Rightarrow> nat \<Rightarrow> bool \<Rightarrow> u64 \<Rightarrow> u64 \<Rightarrow> u64 option \<Rightarrow> ub_shm_area_t option \<Rightarrow> ub_ring_region_map_t option
   \<Rightarrow> ub_comm_conf_t option \<Rightarrow> process \<Rightarrow> shared world
   \<Rightarrow> (outcome \<times> u64 option \<times> process \<times> shared world) option" where
  "ub_comm_queue_init hw cpu_num alloc_ok junk this handle init_region ring_regions conf pr w =
     (if conf = None \<or> init_region = None \<or> ring_regions = None
      then Some (Returned EINVAL, handle, pr, w)
      else if this = 0 then Some (Returned ENOMEM, handle, pr, w)
      else case init cpu_num alloc_ok this init_region ring_regions conf (UBShmTransport hw) w of
        None \<Rightarrow> None
      | Some None \<Rightarrow> Some (Returned EFAULT, handle, pr, w)
      | Some (Some (ret, t, w1)) \<Rightarrow>
          let pr1 = put_transport this t pr in
          if ret \<noteq> 0 then
            (case delete_transport junk this pr1 (st w1) of
               (pr2, m2) \<Rightarrow> Some (Returned ret, handle, pr2, w1\<lparr>st := m2\<rparr>))
          else if handle = None then Some (Out_of_bounds, None, pr1, w1)
          else if pr_g_transport pr1 = 0 then
            Some (Returned 0, Some this,
              put_transport this (snd (set_is_for_lock True t)) (pr1\<lparr>pr_g_transport := this\<rparr>), w1)
          else
            Some (Returned 0, Some this, put_transport this (snd (set_is_for_lock False t)) pr1, w1))"

definition ub_comm_queue_deinit ::
  "u64 \<Rightarrow> u64 option \<Rightarrow> process \<Rightarrow> shared \<Rightarrow> outcome \<times> u64 option \<times> process \<times> shared" where
  "ub_comm_queue_deinit junk handle pr m =
     (if handle = None \<or> handle = Some 0 then (Returned EINVAL, handle, pr, m)
      else let p = the handle in
        case pr_transports pr p of
          None \<Rightarrow> (Out_of_bounds, handle, pr, m)
        | Some t \<Rightarrow>
            let pr1 = (if get_is_for_lock t then pr\<lparr>pr_g_transport := 0\<rparr> else pr) in
            case delete_transport junk p pr1 m of (pr2, m2) \<Rightarrow> (Returned 0, Some 0, pr2, m2))"

section \<open>Calls on an instance\<close>

text \<open>Running an operation of the instance behind a handle.\<close>

definition on_instance ::
  "u64 \<Rightarrow> (transport \<Rightarrow> shared \<Rightarrow> 'r \<times> transport \<times> shared) \<Rightarrow> process \<Rightarrow> shared \<Rightarrow> 'r option \<times> process \<times> shared" where
  "on_instance p f pr m =
     (case pr_transports pr p of
        None \<Rightarrow> (None, pr, m)
      | Some t \<Rightarrow> (case f t m of (r, t', m') \<Rightarrow> (Some r, put_transport p t' pr, m')))"

definition null_handle :: "u64 option \<Rightarrow> bool" where
  "null_handle handle \<longleftrightarrow> handle = None \<or> handle = Some 0"

definition ub_comm_queue_check_ready ::
  "u64 option \<Rightarrow> u8 \<Rightarrow> process \<Rightarrow> shared \<Rightarrow> bool option \<times> process \<times> shared" where
  "ub_comm_queue_check_ready handle nid pr m =
     (if null_handle handle then (Some False, pr, m) else on_instance (the handle) (query_inited nid) pr m)"

text \<open>\<open>None\<close> as an outcome means a dangling handle.\<close>

definition ub_comm_queue_send ::
  "u64 option \<Rightarrow> message_t option \<Rightarrow> process \<Rightarrow> shared \<Rightarrow> outcome option \<times> process \<times> shared" where
  "ub_comm_queue_send handle msg pr m =
     (case msg of
        None \<Rightarrow> (Some (Returned EINVAL), pr, m)
      | Some ms \<Rightarrow>
          if null_handle handle then (Some (Returned EINVAL), pr, m)
          else if msg_type (m_header ms) = MSG_TYPE_DIST_LOCK then (Some (Returned EOPNOTSUPP), pr, m)
          else if msg_type (m_header ms) = MSG_TYPE_SYS_PEER_EXIT then (Some (Returned EOPNOTSUPP), pr, m)
          else if msg_type (m_header ms) = MSG_TYPE_SYS_FLOW_CONFIG_UPDATE then (Some (Returned EOPNOTSUPP), pr, m)
          else on_instance (the handle) (send (Some ms)) pr m)"

definition ub_comm_queue_get_status ::
  "u64 option \<Rightarrow> u8 \<Rightarrow> u8 \<Rightarrow> bool \<Rightarrow> process \<Rightarrow> shared
   \<Rightarrow> (outcome \<times> ub_comm_queue_status_t option) option \<times> process \<times> shared" where
  "ub_comm_queue_get_status handle nid prio status_null pr m =
     (if null_handle handle \<or> status_null then (Some (Returned EINVAL, None), pr, m)
      else on_instance (the handle)
        (\<lambda>t m. case transport_get_status nid prio status_null t m of (r, s, t', m') \<Rightarrow> ((r, s), t', m')) pr m)"

definition ub_comm_queue_set_congestion_threshold ::
  "u64 option \<Rightarrow> u8 \<Rightarrow> u32 \<Rightarrow> process \<Rightarrow> shared \<Rightarrow> outcome option \<times> process \<times> shared" where
  "ub_comm_queue_set_congestion_threshold handle prio percent pr m =
     (if null_handle handle then (Some (Returned EINVAL), pr, m)
      else on_instance (the handle) (set_congestion_threshold prio percent) pr m)"

definition ub_comm_queue_config_heartbeat ::
  "u64 option \<Rightarrow> ub_comm_queue_heartbeat_config_t option \<Rightarrow> bool \<Rightarrow> process \<Rightarrow> shared
   \<Rightarrow> (int \<times> ub_comm_queue_heartbeat_config_t option) option \<times> process \<times> shared" where
  "ub_comm_queue_config_heartbeat handle request want pr m =
     (if null_handle handle then (Some (EINVAL, None), pr, m)
      else on_instance (the handle)
        (\<lambda>t m. case config_heartbeat request want t m of (r, e, t', m') \<Rightarrow> ((r, e), t', m')) pr m)"

definition ub_comm_queue_recv ::
  "u64 option \<Rightarrow> bool \<Rightarrow> process \<Rightarrow> shared \<Rightarrow> int option \<times> process \<times> shared" where
  "ub_comm_queue_recv handle buffer_null pr m =
     (if null_handle handle \<or> buffer_null then (Some EINVAL, pr, m)
      else on_instance (the handle) (\<lambda>t m. (recv t, t, m)) pr m)"

definition ub_comm_queue_register_process_func ::
  "u64 option \<Rightarrow> u8 \<Rightarrow> ub_func_type_t \<Rightarrow> callback \<Rightarrow> u64 \<Rightarrow> process \<Rightarrow> shared \<Rightarrow> int option \<times> process \<times> shared" where
  "ub_comm_queue_register_process_func handle ty func_type func ctx pr m =
     (if null_handle handle \<or> func = No_callback then (Some EINVAL, pr, m)
      else if ty = MSG_TYPE_DIST_LOCK then (Some EOPNOTSUPP, pr, m)
      else if ty = MSG_TYPE_SYS_PEER_EXIT then (Some EOPNOTSUPP, pr, m)
      else on_instance (the handle)
        (\<lambda>t m. case register_func ty func_type func ctx t of (r, t') \<Rightarrow> (r, t', m)) pr m)"

section \<open>The logger\<close>

definition LOG_LEVEL_DEBUG :: int where "LOG_LEVEL_DEBUG = 0"
definition LOG_LEVEL_ERROR :: int where "LOG_LEVEL_ERROR = 3"
definition LOG_LEVEL_CRITICAL :: int where "LOG_LEVEL_CRITICAL = 4"
definition LOG_LEVEL_NUM :: int where "LOG_LEVEL_NUM = 5"
definition MAX_LOG_MESSAGE_LENGTH :: nat where "MAX_LOG_MESSAGE_LENGTH = 2048"

lemmas log_consts = LOG_LEVEL_DEBUG_def LOG_LEVEL_ERROR_def LOG_LEVEL_CRITICAL_def LOG_LEVEL_NUM_def
  MAX_LOG_MESSAGE_LENGTH_def

text \<open>The registered function: null, \<open>log_no_print\<close>, or the application's.\<close>

datatype log_func = Null_func | Log_no_print | User_log nat

record log_line =
  ll_func :: nat
  ll_level :: int
  ll_message :: string

record logger =
  lg_threshold :: int
  lg_func :: log_func
  lg_lines :: "log_line list"

definition logger_initial :: logger where
  "logger_initial = \<lparr>lg_threshold = LOG_LEVEL_ERROR, lg_func = Null_func, lg_lines = []\<rparr>"

definition register_print_func :: "log_func \<Rightarrow> logger \<Rightarrow> logger" where
  "register_print_func f l = l\<lparr>lg_func := (if f \<noteq> Null_func then f else Log_no_print)\<rparr>"

definition get_log_level_threshold :: "logger \<Rightarrow> int" where
  "get_log_level_threshold l = lg_threshold l"

definition set_log_level_threshold :: "int \<Rightarrow> logger \<Rightarrow> int \<times> logger" where
  "set_log_level_threshold level l =
     (if level \<ge> LOG_LEVEL_DEBUG \<and> level \<le> LOG_LEVEL_CRITICAL then (0, l\<lparr>lg_threshold := level\<rparr>) else (- 1, l))"

definition call_logger :: "int \<Rightarrow> string \<Rightarrow> logger \<Rightarrow> logger" where
  "call_logger level s l =
     (case lg_func l of
        User_log n \<Rightarrow> l\<lparr>lg_lines := lg_lines l @ [\<lparr>ll_func = n, ll_level = level, ll_message = s\<rparr>]\<rparr>
      | _ \<Rightarrow> l)"

text \<open>\<open>formatted\<close> is the text the format and its arguments give, \<open>None\<close> if formatting fails.\<close>

definition log_print :: "int \<Rightarrow> string option \<Rightarrow> logger \<Rightarrow> logger" where
  "log_print level formatted l =
     (let l1 = (if lg_func l = Null_func then l\<lparr>lg_func := Log_no_print\<rparr> else l) in
      if level < 0 \<or> level \<ge> LOG_LEVEL_NUM \<or> level < get_log_level_threshold l1 then l1
      else case formatted of
        None \<Rightarrow> call_logger LOG_LEVEL_ERROR ''Error formatting log message.'' l1
      | Some s \<Rightarrow> call_logger level (take (MAX_LOG_MESSAGE_LENGTH - 1) s) l1)"

definition ATOMIC_LOG :: "int \<Rightarrow> string option \<Rightarrow> logger \<Rightarrow> logger" where
  "ATOMIC_LOG level formatted l =
     (if level \<ge> get_log_level_threshold l then log_print level formatted l else l)"

definition ub_atomic_register_log_func :: "log_func \<Rightarrow> logger \<Rightarrow> logger" where
  "ub_atomic_register_log_func f l = register_print_func f l"

definition ub_atomic_set_log_level :: "int \<Rightarrow> logger \<Rightarrow> int \<times> logger" where
  "ub_atomic_set_log_level level l = set_log_level_threshold level l"

end
