(* ===== verification/Spec2Isabelle.thy ===== *)
theory Spec2Isabelle
  imports Tx_Resource Ring_Queue Spin_Lock Lock_Lanes Mpsc_Channel Mpsc_Defects Thread_Pool Transport_Layout Comm_Api
begin

text \<open>
  A verification development of UBS Atomic, a C++ library of synchronisation primitives on memory
  that several nodes of a cluster share. All paths below are relative to \<open>src/\<close> of the repository.

  \<^bold>\<open>The parts and how they interact.\<close> A cluster of up to sixteen nodes maps common memory regions.
  The \<^emph>\<open>communication queue\<close> (\<open>ub_comm_queue/\<close>) gives every node a set of ring buffers, one per
  priority, into which the other nodes write messages: a \<^emph>\<open>transport\<close> builds the rings of its node,
  publishes their offsets on a billboard, finds those of the others, sends, polls its own rings and
  hands the messages to callbacks, some of them through a \<^emph>\<open>worker pool\<close>. The \<^emph>\<open>locks\<close> (\<open>ub_lock/\<close>)
  are a spin lock, a mutex and a distributed lock with shared, shared-exclusive and exclusive modes,
  whose waiters queue up in rings in the same memory and are woken by messages of the transport. The
  \<^emph>\<open>transaction resource\<close> (\<open>ub_dist_tx_res/\<close>) is a set of shared 64-bit counters.

  \<^bold>\<open>Concurrency.\<close> \<open>Atomic_Prelude\<close> has the model of memory that the components share: a \<^emph>\<open>world\<close> is a state
  together with a finite script of what other threads and nodes do to it; every atomic access of the
  code (\<open>load\<close>, \<open>store\<close>, \<open>fetch\<close>, \<open>cas_strong\<close>, and \<open>cas_weak\<close>, whose spurious failures are events of the script)
  consumes one event before it acts. A \<^emph>\<open>quiet\<close> world has no interference. Accesses are sequentially
  consistent. Where a property is about all interleavings of several threads, there is a step relation
  of its own (\<open>spin_step\<close>, \<open>lane_step\<close>, \<open>pool_step\<close>) with a rule per access of the code. Loops that end only by the action of
  others return an option, \<open>None\<close> being the wait that never ends; every such loop is a total function
  because each round consumes events.

  \<^bold>\<open>The theories.\<close>

  \<^item> \<open>Atomic_Prelude\<close>: worlds, atomic accesses, machine words (\<open>u8\<close> to \<open>u64\<close>), lock modes and results
    (\<open>include/ub_dist_lock.h\<close>), and the generic lemmas.
  \<^item> \<open>Tx_Resource\<close>: \<open>ub_dist_tx_res/ub_dist_tx_res.cpp\<close>, every call on a store of cells. Under any interleaving
    a \<open>fetch_add\<close> hands out the sum of what was added before and never the same number twice (locale
    \<open>ticket_counter\<close>), and of competing \<open>compare_exchange\<close> calls one wins and all learn its value.
  \<^item> \<open>Ring_Queue\<close>: \<open>ub_lock/ring_queue.h\<close> and \<open>wait_queue.cpp\<close>, the queue of waiters. The locale \<open>waiter_queue\<close>
    is the contract of a bounded queue with cancellation; the ring implements it for any number of
    wraps of its 32-bit tickets (\<open>wait_queue_fifo\<close>). \<open>enqueue_race_overtakes\<close> is a race outside it, in
    which the head skips a waiter that is just arriving.
  \<^item> \<open>Spin_Lock\<close>: \<open>ub_lock/ub_spin_lock.cpp\<close>. Each call against any interference, and all calls
    together as \<open>spin_step\<close>: mutual exclusion unless an initialisation is taken over. The deadline is a signed
    64-bit number of nanoseconds; the longest timeouts lie in the past (\<open>spin_lock_huge_timeout_expires\<close>).
  \<^item> \<open>Lock_Lanes\<close>: the state word of a node-local lock, \<open>LocalLockStateWord\<close> of \<open>ub_lock/local_lock.h\<close> and the attempts
    of \<open>lock_optimization.cpp\<close>; all accesses together as \<open>lane_step\<close>, with any number of attempts per
    thread, and the exclusion of the three modes.
  \<^item> \<open>Mpsc_Ring\<close>, \<open>Mpsc_Refine\<close>, \<open>Mpsc_Channel\<close>, \<open>Mpsc_Defects\<close>: \<open>ub_comm_queue/MPSCRingBuffer.cpp\<close> down to the bytes of
    an entry. \<open>Mpsc_Refine\<close> proves that sends and receives act on the abstract contents \<open>messages\<close>; \<open>Mpsc_Channel\<close>
    has the contract \<open>bounded_channel\<close>, its interpretation on the ring, and the properties;
    \<open>Mpsc_Defects\<close> two behaviours the comments rule out.
  \<^item> \<open>Thread_Pool\<close>: \<open>ub_comm_queue/ThreadPool.h\<close> as a step relation of workers, clients and the destructor, with
    the test of the wait's predicate, the blocking and the notifications as separate steps. Accepted tasks
    start in order and run exactly once; the workers run every accepted task without further help
    (\<open>pool_work_gets_done\<close>); the destructor returns if no notification is missed, and can hang otherwise
    (\<open>pool_shutdown_terminates\<close>, \<open>pool_shutdown_can_hang\<close>).
  \<^item> \<open>Transport_State\<close>, \<open>Transport_Send\<close>, \<open>Transport_Init\<close>, \<open>Transport_Run\<close>: \<open>ub_comm_queue/UBShmTransport.cpp\<close> and \<open>.h\<close>,
    one definition per member function, on a \<open>transport\<close> (the members) and a \<open>shared\<close> memory (billboard,
    rings by address, clock). \<open>Transport_Layout\<close> shows what the initialisation establishes: the mapping of
    node ids, the placement of the rings, and that published offsets are what other nodes find.
  \<^item> \<open>Comm_Api\<close>: \<open>ub_dist_comm_queue.cpp\<close>, the C interface with its handles and guards, and the logger's filter,
    \<open>ub_atomic_log_print.cpp\<close>.

  \<^bold>\<open>Bounds.\<close> Machine words wrap as in the code. The ring's FIFO property is for fewer than \<open>2 ^ 63\<close>
  messages over the life of a ring (\<open>young\<close>), since its 64-bit counters are compared without regard to
  wrap-around. The retry limits of the code (\<open>MAX_CAS_RETRIES\<close>, the sanity counter of \<open>ring_queue_outqueue\<close>,
  \<open>MAX_BATCH_PER_POLL\<close>) are the fuel of the corresponding loops, with the code's own result when they run out.

  \<^bold>\<open>Not modelled.\<close> Relaxed memory orderings and the cache maintenance instructions, which have no effect in
  a sequentially consistent model; the affinity of threads; the text of log messages. Of the locks, the
  mutex (\<open>ub_mutex_lock.cpp\<close>), the waiting and waking of the local locks (\<open>lock_optimization.cpp\<close>), the distributed
  lock itself (\<open>ub_distribute_lock.cpp\<close>) and its messages (\<open>message_manage.cpp\<close>) are not modelled beyond the
  queue they share. The programs in \<open>sample_code/\<close> and the tests are clients of the library.
\<close>

end
